(* ===== verification/Prelude.thy ===== *)
theory Prelude
  imports Main "HOL-Library.Word"
begin

text \<open>
  The vocabulary every component shares.

  \<^item> Effects: \<open>act\<close>, a state transformer whose result is an error (\<open>Inl\<close>) or a value
    (\<open>Inr\<close>).  The state survives an error, as it does in Go when a function returns
    early after having changed something.  \<open>ok\<close>, \<open>throw\<close>, \<open>andThen\<close> are \<open>return x, nil\<close>,
    \<open>return err\<close> and \<open>if err != nil { return err }\<close>.
  \<^item> Time: \<open>time.Time\<close> is the number of nanoseconds since Go's zero time, so the zero
    value is 0; \<open>time.Duration\<close> is a signed 64-bit count of nanoseconds, kept as an
    integer with the wrap-around \<open>wrap64\<close> written where the code multiplies.
  \<^item> Truncated division, as Go's \<open>/\<close> on integers.
\<close>

named_theorems act_simps \<open>unfolding of effectful code\<close>
named_theorems go_simps \<open>unfolding of Go library functions\<close>

section \<open>Effects\<close>

type_synonym ('s, 'e, 'a) act = "'s \<Rightarrow> ('e + 'a) \<times> 's"

definition ok :: "'a \<Rightarrow> ('s, 'e, 'a) act" where
  "ok x = (\<lambda>s. (Inr x, s))"

definition throw :: "'e \<Rightarrow> ('s, 'e, 'a) act" where
  "throw e = (\<lambda>s. (Inl e, s))"

definition andThen :: "('s, 'e, 'a) act \<Rightarrow> ('a \<Rightarrow> ('s, 'e, 'b) act) \<Rightarrow> ('s, 'e, 'b) act" where
  "andThen m f = (\<lambda>s. case m s of (Inl e, t) \<Rightarrow> (Inl e, t) | (Inr x, t) \<Rightarrow> f x t)"

lemma ok_apply [simp, act_simps]: "ok x s = (Inr x, s)"
  by (simp add: ok_def)

lemma throw_apply [simp, act_simps]: "throw e s = (Inl e, s)"
  by (simp add: throw_def)

lemma andThen_apply [act_simps]:
  "andThen m f s = (case m s of (Inl e, t) \<Rightarrow> (Inl e, t) | (Inr x, t) \<Rightarrow> f x t)"
  by (simp add: andThen_def)

lemma andThen_ok [simp]: "andThen (ok x) f = f x"
  by (rule ext) (simp add: andThen_def)

lemma andThen_throw [simp]: "andThen (throw e) f = throw e"
  by (rule ext) (simp add: andThen_def)

text \<open>One step of a computation whose first part is known.\<close>

lemma step_ok: "m s = (Inr x, t) \<Longrightarrow> andThen m f s = f x t"
  by (simp add: andThen_def)

lemma step_err: "m s = (Inl e, t) \<Longrightarrow> andThen m f s = (Inl e, t)"
  by (simp add: andThen_def)

lemma andThen_cases:
  assumes "andThen m f s = (r, t)"
  obtains e where "m s = (Inl e, t)" "r = Inl e" | x u where "m s = (Inr x, u)" "f x u = (r, t)"
  using assms by (auto simp: andThen_def split: prod.splits sum.splits)

lemma andThen_assoc: "andThen (andThen m f) g = andThen m (\<lambda>x. andThen (f x) g)"
  by (rule ext) (simp add: andThen_def split: prod.split sum.split)

lemma andThen_Inr:
  "andThen m f s = (Inr y, u) \<longleftrightarrow> (\<exists>x t. m s = (Inr x, t) \<and> f x t = (Inr y, u))"
  by (auto simp: andThen_def split: prod.splits sum.splits)

text \<open>
  \<open>observe\<close> hands the outcome to the code instead of returning early, \<open>attempt\<close> is \<open>_ = f()\<close>,
  \<open>wrapping\<close> is \<open>fmt.Errorf("...: %w", err)\<close>, \<open>deferring\<close> is \<open>defer\<close>, \<open>each\<close> a loop that returns
  at the first error.
\<close>

definition observe :: "('s, 'e, 'a) act \<Rightarrow> ('s, 'e, 'e + 'a) act" where
  "observe m = (\<lambda>s. case m s of (r, t) \<Rightarrow> (Inr r, t))"

lemma step_observe: "m s = (r, t) \<Longrightarrow> andThen (observe m) f s = f r t"
  by (simp add: andThen_def observe_def)

definition attempt :: "('s, 'e, 'a) act \<Rightarrow> ('s, 'e, unit) act" where
  "attempt m s = (Inr (), snd (m s))"

definition wrapping :: "('e \<Rightarrow> 'e) \<Rightarrow> ('s, 'e, 'a) act \<Rightarrow> ('s, 'e, 'a) act" where
  "wrapping f m = (\<lambda>s. case m s of (Inl e, t) \<Rightarrow> (Inl (f e), t) | (Inr x, t) \<Rightarrow> (Inr x, t))"

lemma wrapping_cases:
  assumes "wrapping g m s = (r, t)"
  obtains e where "m s = (Inl e, t)" "r = Inl (g e)" | x where "m s = (Inr x, t)" "r = Inr x"
  using assms by (auto simp: wrapping_def split: prod.splits sum.splits)

definition deferring :: "('s, 'e, unit) act \<Rightarrow> ('s, 'e, 'a) act \<Rightarrow> ('s, 'e, 'a) act" where
  "deferring c m = (\<lambda>s. case m s of (r, t) \<Rightarrow> (r, snd (c t)))"

fun each :: "('a \<Rightarrow> ('s, 'e, unit) act) \<Rightarrow> 'a list \<Rightarrow> ('s, 'e, unit) act" where
  "each f [] = ok ()"
| "each f (x # xs) = andThen (f x) (\<lambda>_. each f xs)"

text \<open>An assertion about the state that every step of a computation keeps.\<close>

definition keeps :: "('s \<Rightarrow> bool) \<Rightarrow> ('s, 'e, 'a) act \<Rightarrow> bool" where
  "keeps I m \<longleftrightarrow> (\<forall>s. I s \<longrightarrow> I (snd (m s)))"

lemma keeps_ok [intro]: "keeps I (ok x)"
  by (simp add: keeps_def)

lemma keeps_throw [intro]: "keeps I (throw e)"
  by (simp add: keeps_def)

lemma keeps_andThen [intro]:
  "keeps I m \<Longrightarrow> (\<And>x. keeps I (f x)) \<Longrightarrow> keeps I (andThen m f)"
  by (fastforce simp: keeps_def andThen_def split: prod.split sum.split dest: spec [of _ "_"])

lemma keepsD: "keeps I m \<Longrightarrow> I s \<Longrightarrow> m s = (r, t) \<Longrightarrow> I t"
  by (metis keeps_def snd_conv)

section \<open>Time and durations\<close>

type_synonym time = int
type_synonym duration = int

abbreviation (input) zero_time :: time where
  "zero_time \<equiv> 0"

definition IsZero :: "time \<Rightarrow> bool" where
  "IsZero t \<longleftrightarrow> t = 0"

definition After :: "time \<Rightarrow> time \<Rightarrow> bool" where
  "After t u \<longleftrightarrow> t > u"

definition Before :: "time \<Rightarrow> time \<Rightarrow> bool" where
  "Before t u \<longleftrightarrow> t < u"

declare IsZero_def [go_simps] After_def [go_simps] Before_def [go_simps]

definition millisecond :: duration where "millisecond = 1000000"
definition second :: duration where "second = 1000 * millisecond"
definition minute :: duration where "minute = 60 * second"
definition hour :: duration where "hour = 60 * minute"

lemmas duration_defs = millisecond_def second_def minute_def hour_def

text \<open>The wrap-around of Go's \<open>int64\<close> arithmetic.\<close>

definition wrap64 :: "int \<Rightarrow> int" where
  "wrap64 x = (x + 2 ^ 63) mod 2 ^ 64 - 2 ^ 63"

definition int64_range :: "int \<Rightarrow> bool" where
  "int64_range x \<longleftrightarrow> - (2 ^ 63) \<le> x \<and> x < 2 ^ 63"

lemma wrap64_id: "int64_range x \<Longrightarrow> wrap64 x = x"
  by (simp add: int64_range_def wrap64_def)

lemma wrap64_range: "int64_range (wrap64 x)"
proof -
  have "0 \<le> (x + 2 ^ 63) mod 2 ^ 64" and "(x + 2 ^ 63) mod 2 ^ 64 < (2 ^ 64 :: int)"
    by simp_all
  then show ?thesis unfolding int64_range_def wrap64_def by simp
qed

text \<open>\<open>Time.Sub\<close> and \<open>time.Until\<close> saturate at the ends of the 64-bit range.\<close>

definition sat64 :: "int \<Rightarrow> int" where
  "sat64 x = max (- (2 ^ 63)) (min (2 ^ 63 - 1) x)"

lemma sat64_pos: "0 < sat64 x \<longleftrightarrow> 0 < x"
  by (simp add: sat64_def max_def min_def)

lemma sat64_le: "0 \<le> x \<Longrightarrow> sat64 x \<le> x"
  by (simp add: sat64_def)

text \<open>Go's \<open>/\<close> on integers rounds towards zero.\<close>

definition quot :: "int \<Rightarrow> int \<Rightarrow> int" where
  "quot n m = (if (n < 0) \<noteq> (m < 0) then - (\<bar>n\<bar> div \<bar>m\<bar>) else \<bar>n\<bar> div \<bar>m\<bar>)"

lemma quot_pos: "0 \<le> n \<Longrightarrow> 0 < m \<Longrightarrow> quot n m = n div m"
  unfolding quot_def by simp

section \<open>Options, maps and lists\<close>

definition or_default :: "'a option \<Rightarrow> 'a \<Rightarrow> 'a" where
  "or_default x d = (case x of None \<Rightarrow> d | Some y \<Rightarrow> y)"

lemma or_default_simps [simp]: "or_default None d = d" "or_default (Some y) d = y"
  by (simp_all add: or_default_def)

lemma distinct_map_filter_key:
  "distinct (map f xs) \<Longrightarrow> distinct (map f (filter P xs))"
  by (induction xs) auto

lemma map_of_filter_key:
  "map_of (filter (\<lambda>(k, _). k \<noteq> k0) xs) = (map_of xs)(k0 := None)"
  by (induction xs) (auto simp: fun_eq_iff)

lemma set_take_sorted_drop:
  "sorted_wrt R xs \<Longrightarrow> x \<in> set (take n xs) \<Longrightarrow> y \<in> set (drop n xs) \<Longrightarrow> R x y"
  by (metis append_take_drop_id sorted_wrt_append)

end
