(* ===== verification/GoStrings.thy ===== *)
theory GoStrings
  imports Prelude
begin

text \<open>
  The part of Go's \<open>strings\<close> and \<open>unicode\<close> packages the program uses, on strings as
  lists of runes (code points).  What depends on the Unicode tables (letter, digit,
  lower-case, simple folding) is an argument, the record \<open>unicode\<close>: the theorems hold
  for every table, and \<open>ascii\<close> is the restriction of the real one to ASCII, used by the
  witnesses.  \<open>unicode.IsSpace\<close> is a short fixed list and is written out.
\<close>

type_synonym rune = int
type_synonym gostr = "rune list"

definition lit :: "string \<Rightarrow> gostr" where
  "lit s = map of_char s"

lemma lit_simps [simp]: "lit [] = []" "lit (c # s) = of_char c # lit s"
  by (simp_all add: lit_def)

record unicode =
  is_letter :: "rune \<Rightarrow> bool"
  is_digit :: "rune \<Rightarrow> bool"
  to_lower_rune :: "rune \<Rightarrow> rune"
  fold_eq :: "rune \<Rightarrow> rune \<Rightarrow> bool"

definition ascii_lower :: "rune \<Rightarrow> rune" where
  "ascii_lower r = (if 65 \<le> r \<and> r \<le> 90 then r + 32 else r)"

definition ascii :: unicode where
  "ascii = \<lparr>is_letter = (\<lambda>r. 65 \<le> r \<and> r \<le> 90 \<or> 97 \<le> r \<and> r \<le> 122),
            is_digit = (\<lambda>r. 48 \<le> r \<and> r \<le> 57),
            to_lower_rune = ascii_lower,
            fold_eq = (\<lambda>r s. ascii_lower r = ascii_lower s)\<rparr>"

section \<open>strings.ToLower, TrimSpace, EqualFold\<close>

definition ToLower :: "unicode \<Rightarrow> gostr \<Rightarrow> gostr" where
  "ToLower U s = map (to_lower_rune U) s"

definition IsSpace :: "rune \<Rightarrow> bool" where
  "IsSpace r \<longleftrightarrow> r \<in> {9, 10, 11, 12, 13, 32, 133, 160, 5760, 8192, 8193, 8194, 8195, 8196,
     8197, 8198, 8199, 8200, 8201, 8202, 8232, 8233, 8239, 8287, 12288}"

definition TrimSpace :: "gostr \<Rightarrow> gostr" where
  "TrimSpace s = rev (dropWhile IsSpace (rev (dropWhile IsSpace s)))"

definition EqualFold :: "unicode \<Rightarrow> gostr \<Rightarrow> gostr \<Rightarrow> bool" where
  "EqualFold U s t \<longleftrightarrow> list_all2 (fold_eq U) s t"

lemma TrimSpace_Nil_iff: "TrimSpace s = [] \<longleftrightarrow> (\<forall>r \<in> set s. IsSpace r)"
proof -
  have "dropWhile IsSpace (rev (dropWhile IsSpace s)) = [] \<longleftrightarrow> (\<forall>r \<in> set (dropWhile IsSpace s). IsSpace r)"
    by simp
  also have "\<dots> \<longleftrightarrow> (\<forall>r \<in> set s. IsSpace r)"
    by (induction s) auto
  finally show ?thesis by (simp add: TrimSpace_def)
qed

section \<open>strings.Index, Contains, HasPrefix\<close>

text \<open>\<open>strings.Index(s, c)\<close> for a one-rune \<open>c\<close>: \<open>None\<close> is Go's -1.\<close>

fun Index1 :: "'a \<Rightarrow> 'a list \<Rightarrow> nat option" where
  "Index1 c [] = None"
| "Index1 c (r # s) = (if r = c then Some 0 else map_option Suc (Index1 c s))"

lemma Index1_None [simp]: "Index1 c s = None \<longleftrightarrow> c \<notin> set s"
  by (induction s) auto

lemma Index1_Some:
  "Index1 c s = Some i \<Longrightarrow> i < length s \<and> s ! i = c \<and> c \<notin> set (take i s)
     \<and> s = take i s @ c # drop (Suc i) s"
proof (induction s arbitrary: i)
  case Nil
  then show ?case by simp
next
  case (Cons r s)
  show ?case
  proof (cases "r = c")
    case True
    with Cons.prems show ?thesis by simp
  next
    case False
    with Cons.prems obtain j where "Index1 c s = Some j" "i = Suc j" by auto
    with Cons.IH [of j] False show ?thesis by auto
  qed
qed

lemma Index1_append: "c \<notin> set p \<Longrightarrow> Index1 c (p @ c # s) = Some (length p)"
  by (induction p) auto

fun HasPrefix :: "'a list \<Rightarrow> 'a list \<Rightarrow> bool" where
  "HasPrefix s [] = True"
| "HasPrefix [] (p # ps) = False"
| "HasPrefix (r # s) (p # ps) = (r = p \<and> HasPrefix s ps)"

lemma HasPrefix_iff: "HasPrefix s p \<longleftrightarrow> (\<exists>t. s = p @ t)"
  by (induction s p rule: HasPrefix.induct) auto

fun Contains :: "'a list \<Rightarrow> 'a list \<Rightarrow> bool" where
  "Contains [] t = (t = [])"
| "Contains (r # s) t = (HasPrefix (r # s) t \<or> Contains s t)"

lemma Contains_iff: "Contains s t \<longleftrightarrow> (\<exists>a b. s = a @ t @ b)"
proof (induction s)
  case Nil
  then show ?case by auto
next
  case (Cons r s)
  have "(\<exists>a b. r # s = a @ t @ b) \<longleftrightarrow> (\<exists>b. r # s = t @ b) \<or> (\<exists>a b. s = a @ t @ b)"
    by (auto simp: Cons_eq_append_conv)
  then show ?case by (simp add: Cons HasPrefix_iff)
qed

section \<open>strings.Split, Join, FieldsFunc\<close>

text \<open>\<open>strings.Split(s, c)\<close> for a one-rune separator: never empty, keeps empty fields.\<close>

fun Split1 :: "'a \<Rightarrow> 'a list \<Rightarrow> 'a list list" where
  "Split1 c [] = [[]]"
| "Split1 c (r # s) =
     (if r = c then [] # Split1 c s
      else (case Split1 c s of [] \<Rightarrow> [[r]] | f # fs \<Rightarrow> (r # f) # fs))"

fun Join :: "'a list list \<Rightarrow> 'a list \<Rightarrow> 'a list" where
  "Join [] sep = []"
| "Join [x] sep = x"
| "Join (x # xs) sep = x @ sep @ Join xs sep"

lemma Split1_nonempty [simp]: "Split1 c s \<noteq> []"
  by (induction s) (auto split: list.splits)

lemma Split1_no_sep: "\<forall>f \<in> set (Split1 c s). c \<notin> set f"
  by (induction s) (auto split: list.splits)

lemma Split1_plain: "c \<notin> set s \<Longrightarrow> Split1 c s = [s]"
  by (induction s) auto

lemma Split1_append: "c \<notin> set p \<Longrightarrow> Split1 c (p @ c # s) = p # Split1 c s"
  by (induction p) auto

lemma Join_Cons: "xs \<noteq> [] \<Longrightarrow> Join (x # xs) sep = x @ sep @ Join xs sep"
  by (cases xs) auto

lemma Join_Split1: "Join (Split1 c s) [c] = s"
proof (induction s)
  case Nil
  then show ?case by simp
next
  case (Cons r s)
  show ?case
  proof (cases "r = c")
    case True
    with Cons show ?thesis by (simp add: Join_Cons)
  next
    case False
    obtain f fs where "Split1 c s = f # fs" by (cases "Split1 c s") auto
    with Cons False show ?thesis by (cases fs) (auto simp: Join_Cons)
  qed
qed

lemma Split1_Join:
  "xs \<noteq> [] \<Longrightarrow> \<forall>x \<in> set xs. c \<notin> set x \<Longrightarrow> Split1 c (Join xs [c]) = xs"
proof (induction xs)
  case Nil
  then show ?case by simp
next
  case (Cons x xs)
  then show ?case
    by (cases xs) (auto simp: Split1_plain Split1_append)
qed

text \<open>\<open>strings.FieldsFunc\<close>: maximal runs of runes that are not separators.\<close>

fun fields_acc :: "(rune \<Rightarrow> bool) \<Rightarrow> gostr \<Rightarrow> gostr \<Rightarrow> gostr list" where
  "fields_acc sep cur [] = (if cur = [] then [] else [rev cur])"
| "fields_acc sep cur (r # s) =
     (if sep r then (if cur = [] then fields_acc sep [] s else rev cur # fields_acc sep [] s)
      else fields_acc sep (r # cur) s)"

definition FieldsFunc :: "gostr \<Rightarrow> (rune \<Rightarrow> bool) \<Rightarrow> gostr list" where
  "FieldsFunc s sep = fields_acc sep [] s"

lemma fields_acc_nonempty: "[] \<notin> set (fields_acc sep cur s)"
  by (induction sep cur s rule: fields_acc.induct) auto

lemma fields_acc_no_sep:
  "\<forall>r \<in> set cur. \<not> sep r \<Longrightarrow> \<forall>f \<in> set (fields_acc sep cur s). \<forall>r \<in> set f. \<not> sep r"
proof (induction s arbitrary: cur)
  case Nil
  then show ?case by simp
next
  case (Cons r s)
  show ?case
  proof (cases "sep r")
    case True
    with Cons.IH [of "[]"] Cons.prems show ?thesis by simp
  next
    case False
    with Cons.IH [of "r # cur"] Cons.prems show ?thesis by simp
  qed
qed

lemma fields_acc_concat: "concat (fields_acc sep cur s) = rev cur @ filter (\<lambda>r. \<not> sep r) s"
  by (induction s arbitrary: cur) simp_all

lemma FieldsFunc_concat: "concat (FieldsFunc s sep) = filter (\<lambda>r. \<not> sep r) s"
  by (simp add: FieldsFunc_def fields_acc_concat)

end
