(* ===== verification/Redact.thy ===== *)
theory Redact
  imports GoStrings
begin

text \<open>
  Package \<open>redact\<close> (src/redact/redact.go): which config keys name secrets
  (\<open>IsSecretKey\<close>), masking of a decoded document (\<open>walk\<close>) and of undecodable text line by
  line (\<open>Line\<close>), and \<open>Document\<close>, which chooses between them.  A decoded value is a
  \<open>jval\<close>; the JSON and YAML decoders and encoders (\<open>encoding/json\<close>, \<open>yaml.v3\<close>) are
  arguments of \<open>Document\<close>.
\<close>

definition Mask :: gostr where
  "Mask = replicate 6 8226"

section \<open>The vocabulary\<close>

definition wordTerms :: "gostr list" where
  "wordTerms = map lit [''secret'', ''password'', ''passwd'', ''passphrase'', ''passcode'',
     ''token'', ''apikey'', ''accesskey'', ''privatekey'', ''credential'',
     ''bearer'', ''cookie'', ''session'', ''signature'', ''webhook'',
     ''authorization'', ''authorisation'']"

definition exactTerms :: "gostr list" where
  "exactTerms = map lit [''key'', ''keys'', ''pwd'', ''pwds'', ''otp'', ''otps'', ''salt'', ''salts'']"

definition fusedTerms :: "gostr list" where
  "fusedTerms = map lit [''passphrase'', ''webhook'']"

definition selectorSegments :: "gostr list" where
  "selectorSegments = map lit [''env'', ''id'', ''backend'', ''service'', ''name'']"

definition selectorSubjects :: "gostr list" where
  "selectorSubjects = map lit [''secret'', ''secrets'', ''token'', ''tokens'']"

section \<open>IsSecretKey\<close>

definition segments :: "unicode \<Rightarrow> gostr \<Rightarrow> gostr list" where
  "segments U k = FieldsFunc (ToLower U k) (\<lambda>r. \<not> is_letter U r \<and> \<not> is_digit U r)"

definition secretSegment :: "gostr \<Rightarrow> bool" where
  "secretSegment seg \<longleftrightarrow> seg \<in> set exactTerms \<or> list_ex (\<lambda>term. Contains seg term) wordTerms"

definition fusedSecret :: "gostr list \<Rightarrow> bool" where
  "fusedSecret segs \<longleftrightarrow>
     (if length segs < 2 then False
      else (let joined = Join segs [] in list_ex (\<lambda>term. Contains joined term) fusedTerms))"

text \<open>The loop over the segments: the pair is \<open>(matched, hard)\<close>.\<close>

fun scanSegments :: "gostr list \<Rightarrow> bool \<times> bool \<Rightarrow> bool \<times> bool" where
  "scanSegments [] mh = mh"
| "scanSegments (seg # segs) (matched, hard) =
     (if \<not> secretSegment seg then scanSegments segs (matched, hard)
      else scanSegments segs (True, if seg \<in> set selectorSubjects then hard else True))"

definition IsSecretKey :: "unicode \<Rightarrow> gostr \<Rightarrow> bool" where
  "IsSecretKey U k =
     (let segs = segments U k in
      if segs = [] then False
      else (let (matched, hard) = scanSegments segs (False, False) in
        if \<not> matched then fusedSecret segs
        else if hard \<or> length segs < 2 then True
        else \<not> last segs \<in> set selectorSegments))"

lemma scanSegments_eq:
  "scanSegments segs (m, h) =
     (m \<or> (\<exists>s \<in> set segs. secretSegment s),
      h \<or> (\<exists>s \<in> set segs. secretSegment s \<and> s \<notin> set selectorSubjects))"
  by (induction segs arbitrary: m h) auto

text \<open>A key is secret exactly when one of its segments is a secret word that is
  not a mere subject (secret, token); or only subjects match and the key is not a selector,
  that is it has one segment or does not end in env, id, backend, service or name; or nothing
  matches segment-wise but the segments run together spell a fused term.\<close>

theorem IsSecretKey_spec:
  "IsSecretKey U k \<longleftrightarrow>
     (\<exists>s \<in> set (segments U k). secretSegment s \<and> s \<notin> set selectorSubjects)
   \<or> (\<exists>s \<in> set (segments U k). secretSegment s)
       \<and> (length (segments U k) < 2 \<or> last (segments U k) \<notin> set selectorSegments)
   \<or> (\<forall>s \<in> set (segments U k). \<not> secretSegment s) \<and> fusedSecret (segments U k)"
  by (auto simp: IsSecretKey_def Let_def scanSegments_eq fusedSecret_def)

lemma token_env_not_secret: "\<not> IsSecretKey ascii (lit ''token_env'')"
  by code_simp

text \<open>The witness applies the characterisation to \<open>API_KEY\<close>, whose second segment is
  a hard secret word.\<close>

theorem IsSecretKey_spec_witness:
  "IsSecretKey ascii (lit ''API_KEY'') \<and> segments ascii (lit ''API_KEY'') = [lit ''api'', lit ''key'']"
proof -
  have s: "segments ascii (lit ''API_KEY'') = [lit ''api'', lit ''key'']" by code_simp
  have k: "secretSegment (lit ''key'') \<and> lit ''key'' \<notin> set selectorSubjects" by code_simp
  show ?thesis unfolding IsSecretKey_spec s using k by auto
qed

section \<open>walk\<close>

text \<open>What the decoders produce: \<open>map[string]any\<close> is \<open>Obj\<close>, \<open>map[any]any\<close> is
  \<open>AnyObj\<close>, \<open>[]any\<close> is \<open>Arr\<close>; strings are \<open>Str\<close> and every other scalar \<open>Prim\<close>.\<close>

datatype 'x ykey = KStr gostr | KPrim 'x

datatype 'x jval = Str gostr | Prim 'x | Arr "'x jval list" | Obj "(gostr \<times> 'x jval) list"
  | AnyObj "('x ykey \<times> 'x jval) list"

fun secretYKey :: "unicode \<Rightarrow> 'x ykey \<Rightarrow> bool" where
  "secretYKey U (KStr s) = IsSecretKey U s"
| "secretYKey U (KPrim x) = False"

fun walk :: "unicode \<Rightarrow> 'x jval \<Rightarrow> 'x jval" where
  "walk U (Obj kvs) = Obj (map (\<lambda>(k, v). (k, if IsSecretKey U k then Str Mask else walk U v)) kvs)"
| "walk U (AnyObj kvs) = AnyObj (map (\<lambda>(k, v). (k, if secretYKey U k then Str Mask else walk U v)) kvs)"
| "walk U (Arr vs) = Arr (map (walk U) vs)"
| "walk U (Str s) = Str s"
| "walk U (Prim x) = Prim x"

text \<open>The scalars of a document with the keys on the way to them, and the keys themselves.\<close>

fun leaves :: "'x jval \<Rightarrow> ('x ykey list \<times> 'x jval) list" where
  "leaves (Str s) = [([], Str s)]"
| "leaves (Prim x) = [([], Prim x)]"
| "leaves (Arr vs) = concat (map leaves vs)"
| "leaves (Obj kvs) = concat (map (\<lambda>(k, v). map (\<lambda>(p, x). (KStr k # p, x)) (leaves v)) kvs)"
| "leaves (AnyObj kvs) = concat (map (\<lambda>(k, v). map (\<lambda>(p, x). (k # p, x)) (leaves v)) kvs)"

fun keypaths :: "'x jval \<Rightarrow> 'x ykey list list" where
  "keypaths (Str s) = []"
| "keypaths (Prim x) = []"
| "keypaths (Arr vs) = concat (map keypaths vs)"
| "keypaths (Obj kvs) = concat (map (\<lambda>(k, v). [KStr k] # map (\<lambda>p. KStr k # p) (keypaths v)) kvs)"
| "keypaths (AnyObj kvs) = concat (map (\<lambda>(k, v). [k] # map (\<lambda>p. k # p) (keypaths v)) kvs)"

definition publicPath :: "unicode \<Rightarrow> 'x ykey list \<Rightarrow> bool" where
  "publicPath U p \<longleftrightarrow> list_all (\<lambda>k. \<not> secretYKey U k) p"

text \<open>Where a redacted document has a mask: at the first secret key of a path.\<close>

definition maskedAt :: "unicode \<Rightarrow> 'x ykey list \<Rightarrow> bool" where
  "maskedAt U p \<longleftrightarrow> p \<noteq> [] \<and> secretYKey U (last p) \<and> publicPath U (butlast p)"

definition redactedLeaves :: "unicode \<Rightarrow> 'x jval \<Rightarrow> ('x ykey list \<times> 'x jval) set" where
  "redactedLeaves U v =
     {(p, x) \<in> set (leaves v). publicPath U p} \<union> {(p, Str Mask) | p. p \<in> set (keypaths v) \<and> maskedAt U p}"

lemma publicPath_simps [simp]:
  "publicPath U []" "publicPath U (k # p) \<longleftrightarrow> \<not> secretYKey U k \<and> publicPath U p"
  by (simp_all add: publicPath_def)

lemma keypaths_nonempty: "[] \<notin> set (keypaths v)"
  by (induction v) auto

lemma maskedAt_Cons:
  "maskedAt U (k # p) \<longleftrightarrow> (if p = [] then secretYKey U k else \<not> secretYKey U k \<and> maskedAt U p)"
  by (auto simp: maskedAt_def)

definition memberLeaves :: "unicode \<Rightarrow> ('x jval \<Rightarrow> ('x ykey list \<times> 'x jval) set) \<Rightarrow> 'x ykey \<times> 'x jval
    \<Rightarrow> ('x ykey list \<times> 'x jval) set" where
  "memberLeaves U L kv = (if secretYKey U (fst kv) then {([fst kv], Str Mask)}
     else (\<lambda>(p, x). (fst kv # p, x)) ` L (snd kv))"

lemma leaves_walk_AnyObj:
  "set (leaves (walk U (AnyObj kvs))) = (\<Union>kv \<in> set kvs. memberLeaves U (\<lambda>v. set (leaves (walk U v))) kv)"
  by (force simp: memberLeaves_def split: if_splits)

lemma leaves_walk_Obj:
  "set (leaves (walk U (Obj kvs)))
     = (\<Union>kv \<in> set kvs. memberLeaves U (\<lambda>v. set (leaves (walk U v))) (KStr (fst kv), snd kv))"
  by (force simp: memberLeaves_def split: if_splits)

lemma redactedLeaves_member:
  "(if secretYKey U k then {([k], Str Mask)} else (\<lambda>(p, x). (k # p, x)) ` redactedLeaves U v)
     = {(k # p, x) | p x. (p, x) \<in> set (leaves v) \<and> publicPath U (k # p)}
       \<union> {(p, Str Mask) | p. p \<in> set ([k] # map ((#) k) (keypaths v)) \<and> maskedAt U p}"
  using keypaths_nonempty [of v]
  by (auto simp: redactedLeaves_def maskedAt_Cons image_iff split: if_splits)

lemma redactedLeaves_AnyObj:
  "redactedLeaves U (AnyObj kvs) = (\<Union>kv \<in> set kvs. memberLeaves U (redactedLeaves U) kv)"
  unfolding memberLeaves_def redactedLeaves_member
  by (force simp: redactedLeaves_def)

lemma redactedLeaves_Obj:
  "redactedLeaves U (Obj kvs) = (\<Union>kv \<in> set kvs. memberLeaves U (redactedLeaves U) (KStr (fst kv), snd kv))"
  unfolding memberLeaves_def fst_conv snd_conv redactedLeaves_member
  by (force simp: redactedLeaves_def)

lemma memberLeaves_cong:
  "L (snd kv) = L' (snd kv) \<Longrightarrow> memberLeaves U L kv = memberLeaves U L' kv"
  by (simp add: memberLeaves_def)

lemma leaves_walk: "set (leaves (walk U v)) = redactedLeaves U v"
proof (induction v)
  case (Str s)
  then show ?case by (auto simp: redactedLeaves_def)
next
  case (Prim x)
  then show ?case by (auto simp: redactedLeaves_def)
next
  case (Arr vs)
  then show ?case by (fastforce simp: redactedLeaves_def)
next
  case (Obj kvs)
  then have "\<And>kv. kv \<in> set kvs \<Longrightarrow> set (leaves (walk U (snd kv))) = redactedLeaves U (snd kv)"
    by (metis prod.collapse snds.intros)
  then show ?case
    unfolding leaves_walk_Obj redactedLeaves_Obj
    by (intro SUP_cong refl memberLeaves_cong) simp
next
  case (AnyObj kvs)
  then have "\<And>kv. kv \<in> set kvs \<Longrightarrow> set (leaves (walk U (snd kv))) = redactedLeaves U (snd kv)"
    by (metis prod.collapse snds.intros)
  then show ?case
    unfolding leaves_walk_AnyObj redactedLeaves_AnyObj
    by (intro SUP_cong refl memberLeaves_cong) simp
qed

text \<open>Claim C15: the scalars of a redacted document are exactly the scalars that have no secret
  key on their path, unchanged, and one mask at the first secret key of every other path; no
  scalar below a secret key survives, at any depth, through maps and arrays.\<close>

theorem walk_redacts:
  "set (leaves (walk U v)) =
     {(p, x) \<in> set (leaves v). \<forall>k \<in> set p. \<not> secretYKey U k}
     \<union> {(p, Str Mask) | p. p \<in> set (keypaths v) \<and> p \<noteq> [] \<and> secretYKey U (last p)
           \<and> (\<forall>k \<in> set (butlast p). \<not> secretYKey U k)}"
  unfolding leaves_walk
  by (auto simp: redactedLeaves_def maskedAt_def publicPath_def list_all_iff)

theorem walk_redacts_witness:
  "set (leaves (walk ascii (Obj [(lit ''a'', Obj [(lit ''password'', Str (lit ''x'')), (lit ''b'', Prim (7::nat))])])))
     = {([KStr (lit ''a''), KStr (lit ''password'')], Str Mask), ([KStr (lit ''a''), KStr (lit ''b'')], Prim 7)}"
proof -
  have a: "\<not> IsSecretKey ascii (lit ''a'')" "\<not> IsSecretKey ascii (lit ''b'')" "IsSecretKey ascii (lit ''password'')"
    by code_simp+
  show ?thesis unfolding walk_redacts using a by (auto simp del: lit_simps)
qed

lemma walk_idem: "walk U (walk U v) = walk U v"
  by (induction v) (fastforce)+

section \<open>Line\<close>

definition redactLine :: "unicode \<Rightarrow> gostr \<Rightarrow> gostr" where
  "redactLine U ln =
     (case Index1 58 ln of
        None \<Rightarrow> ln
      | Some idx \<Rightarrow>
          (let key = ToLower U (TrimSpace (take idx ln));
               val = TrimSpace (drop (idx + 1) ln)
           in if val = [] \<or> \<not> IsSecretKey U key then ln
              else take idx ln @ [58, 32, 34] @ Mask @ [34]))"

definition Line :: "unicode \<Rightarrow> gostr \<Rightarrow> gostr" where
  "Line U s = Join (map (redactLine U) (Split1 10 s)) [10]"

lemma redactLine_plain: "58 \<notin> set ln \<Longrightarrow> redactLine U ln = ln"
  by (simp add: redactLine_def Index1_None [THEN iffD2])

lemma redactLine_key:
  "58 \<notin> set k \<Longrightarrow> redactLine U (k @ 58 # v) =
     (if TrimSpace v = [] \<or> \<not> IsSecretKey U (ToLower U (TrimSpace k)) then k @ 58 # v
      else k @ [58, 32, 34] @ Mask @ [34])"
  by (simp add: redactLine_def Index1_append)

lemma redactLine_cases:
  obtains "58 \<notin> set ln" | k v where "58 \<notin> set k" "ln = k @ 58 # v"
  using split_list_first [of 58 ln] by blast

lemma quoted_mask_nonblank: "TrimSpace (32 # 34 # Mask @ [34]) \<noteq> []"
  by (simp add: TrimSpace_Nil_iff IsSpace_def)

lemma redactLine_idem: "redactLine U (redactLine U ln) = redactLine U ln"
  by (rule redactLine_cases [of ln])
    (auto simp: redactLine_plain redactLine_key quoted_mask_nonblank)

lemma redactLine_one_line: "10 \<notin> set ln \<Longrightarrow> 10 \<notin> set (redactLine U ln)"
  by (rule redactLine_cases [of ln]) (auto simp: redactLine_plain redactLine_key Mask_def)

lemma Split1_Line: "Split1 10 (Line U s) = map (redactLine U) (Split1 10 s)"
  unfolding Line_def
  by (rule Split1_Join) (use Split1_no_sep [of 10 s] redactLine_one_line in auto)

text \<open>Two lines an observer of the redacted text must not tell apart.\<close>

definition sameButSecret :: "unicode \<Rightarrow> gostr \<Rightarrow> gostr \<Rightarrow> bool" where
  "sameButSecret U ln ln' \<longleftrightarrow> ln = ln' \<or>
     (\<exists>k v v'. 58 \<notin> set k \<and> IsSecretKey U (ToLower U (TrimSpace k))
        \<and> ln = k @ 58 # v \<and> ln' = k @ 58 # v' \<and> TrimSpace v \<noteq> [] \<and> TrimSpace v' \<noteq> [])"

lemma redactLine_same: "sameButSecret U ln ln' \<Longrightarrow> redactLine U ln = redactLine U ln'"
  by (auto simp: sameButSecret_def redactLine_key)

text \<open>A line of the form \<open>key: value\<close> whose key is secret and whose value is not blank.\<close>

definition secretLine :: "unicode \<Rightarrow> gostr \<Rightarrow> gostr \<Rightarrow> gostr \<Rightarrow> bool" where
  "secretLine U ln k v \<longleftrightarrow> ln = k @ 58 # v \<and> 58 \<notin> set k \<and> TrimSpace v \<noteq> []
     \<and> IsSecretKey U (ToLower U (TrimSpace k))"

definition maskedLine :: "gostr \<Rightarrow> gostr" where
  "maskedLine k = k @ lit '': '' @ [34] @ Mask @ [34]"

lemma redactLine_spec:
  "(\<forall>k v. secretLine U ln k v \<longrightarrow> redactLine U ln = maskedLine k)
     \<and> ((\<nexists>k v. secretLine U ln k v) \<longrightarrow> redactLine U ln = ln)"
proof (intro conjI allI impI)
  show "secretLine U ln k v \<Longrightarrow> redactLine U ln = maskedLine k" for k v
    by (auto simp: secretLine_def maskedLine_def redactLine_key)
  show "(\<nexists>k v. secretLine U ln k v) \<Longrightarrow> redactLine U ln = ln"
    by (rule redactLine_cases [of ln]) (auto simp: secretLine_def redactLine_plain redactLine_key)
qed

text \<open>Claim C16: the line-by-line fallback keeps the lines, in number and order; a line \<open>key: value\<close>
  with a secret key and a value becomes the key and the quoted mask, and every other line stays as it is.
  So two texts that differ only in the values of secret keys are redacted to the same text.\<close>

theorem Line_hides_values:
  "list_all2 (\<lambda>ln out. (\<forall>k v. secretLine U ln k v \<longrightarrow> out = maskedLine k)
        \<and> ((\<nexists>k v. secretLine U ln k v) \<longrightarrow> out = ln)) (Split1 10 s) (Split1 10 (Line U s))
   \<and> (\<forall>s'. list_all2 (sameButSecret U) (Split1 10 s) (Split1 10 s') \<longrightarrow> Line U s = Line U s')"
proof (intro conjI allI impI)
  show "list_all2 (\<lambda>ln out. (\<forall>k v. secretLine U ln k v \<longrightarrow> out = maskedLine k)
        \<and> ((\<nexists>k v. secretLine U ln k v) \<longrightarrow> out = ln)) (Split1 10 s) (Split1 10 (Line U s))"
    unfolding Split1_Line list_all2_map2 by (rule list.rel_refl) (rule redactLine_spec)
  fix s' assume "list_all2 (sameButSecret U) (Split1 10 s) (Split1 10 s')"
  then have "map (redactLine U) (Split1 10 s) = map (redactLine U) (Split1 10 s')"
    by (induction rule: list_all2_induct) (auto dest: redactLine_same)
  then show "Line U s = Line U s'" by (simp add: Line_def)
qed

theorem Line_hides_values_witness:
  "Split1 10 (Line ascii (lit ''a: 1'' @ 10 # lit ''token: x'')) = [lit ''a: 1'', maskedLine (lit ''token'')]"
proof -
  have l: "Split1 10 (lit ''a: 1'' @ 10 # lit ''token: x'') = [lit ''a: 1'', lit ''token: x'']" by code_simp
  have t: "secretLine ascii (lit ''token: x'') (lit ''token'') (lit '' x'')"
    unfolding secretLine_def by (intro conjI) code_simp+
  have "IsSecretKey ascii (ToLower ascii (TrimSpace k)) = False" if "lit ''a: 1'' = k @ 58 # v" "58 \<notin> set k" for k v
  proof -
    have "k = lit ''a''" using that by (cases k) (auto simp: Cons_eq_append_conv)
    moreover have "\<not> IsSecretKey ascii (ToLower ascii (TrimSpace (lit ''a'')))" by code_simp
    ultimately show ?thesis by simp
  qed
  then have a: "\<nexists>k v. secretLine ascii (lit ''a: 1'') k v" unfolding secretLine_def by blast
  from Line_hides_values [of ascii "lit ''a: 1'' @ 10 # lit ''token: x''"] t a
  show ?thesis unfolding l list_all2_Cons1 by auto
qed

text \<open>Redacting redacted text changes nothing, and the number of lines stays.\<close>

theorem Line_idempotent:
  "Line U (Line U s) = Line U s \<and> length (Split1 10 (Line U s)) = length (Split1 10 s)"
  unfolding Line_def [of U "Line U s"] Split1_Line
  by (simp add: Line_def redactLine_idem comp_def)

section \<open>Document\<close>

text \<open>The codecs: a parser gives \<open>None\<close> for content it refuses, an encoder for a value it
  cannot render.\<close>

record 'x codec =
  json_unmarshal :: "gostr \<Rightarrow> 'x jval option"
  json_marshal_indent :: "'x jval \<Rightarrow> gostr option"
  yaml_unmarshal :: "gostr \<Rightarrow> 'x jval option"
  yaml_marshal :: "'x jval \<Rightarrow> gostr option"

definition Document :: "unicode \<Rightarrow> 'x codec \<Rightarrow> gostr \<Rightarrow> gostr \<Rightarrow> gostr" where
  "Document U C content format =
     (if ToLower U format = lit ''json''
      then (case json_unmarshal C content of
              None \<Rightarrow> Line U content
            | Some v \<Rightarrow> (case json_marshal_indent C (walk U v) of
                None \<Rightarrow> Line U content | Some out \<Rightarrow> out))
      else (case yaml_unmarshal C content of
              None \<Rightarrow> Line U content
            | Some v \<Rightarrow> (case yaml_marshal C (walk U v) of
                None \<Rightarrow> Line U content | Some out \<Rightarrow> out)))"

lemma Document_cases:
  "Document U C content format = Line U content
   \<or> (\<exists>v. (json_unmarshal C content = Some v \<and> json_marshal_indent C (walk U v) = Some (Document U C content format)
        \<or> yaml_unmarshal C content = Some v \<and> yaml_marshal C (walk U v) = Some (Document U C content format)))"
  by (auto simp: Document_def split: option.split)

end
