(* ===== verification/Schedule.thy ===== *)
theory Schedule
  imports Prelude
begin

text \<open>
  Package \<open>schedule\<close> (src/schedule/schedule.go).  One round of the loop of \<open>Run\<close> is
  \<open>round\<close>: it folds \<open>jobStep\<close> over the jobs and computes the wait; \<open>Run\<close> is the sequence
  of rounds over the ticks the environment supplies (the clock readings, the results of the
  callbacks \<open>Next\<close> and \<open>Run\<close>, the cancellations).  What a round does outside its own
  variables is its list of \<open>event\<close>s.
\<close>

definition maxScheduleBackoff :: duration where
  "maxScheduleBackoff = 5 * minute"

definition maxScheduleFails :: nat where
  "maxScheduleFails = 64"

text \<open>A job; a missing callback is \<open>False\<close>.  The results of the callbacks are in the tick.\<close>

record job =
  jobName :: string
  hasNext :: bool
  hasRun :: bool
  hasOnError :: bool

record scheduleState =
  fails :: nat
  at :: time

datatype 'e event =
    AskNext nat time
  | RunJob nat time
  | OnError nat 'e nat duration
  | Warn nat string 'e nat duration

text \<open>What the outside supplies during one round: the clock at its start, what \<open>Next\<close> and
  \<open>Run\<close> of job \<open>i\<close> return, and whether the context is cancelled when it is looked at after
  a failure of job \<open>i\<close>.\<close>

record 'e tick =
  topCancelled :: bool
  nowT :: time
  nextRes :: "nat \<Rightarrow> 'e + time"
  runRes :: "nat \<Rightarrow> 'e option"
  cancelledAfter :: "nat \<Rightarrow> bool"
  untilNow :: time
  waitCancelled :: bool

section \<open>Backoff\<close>

fun backoffLoop :: "nat \<Rightarrow> duration \<Rightarrow> duration" where
  "backoffLoop 0 d = d"
| "backoffLoop (Suc n) d = (if d < maxScheduleBackoff then backoffLoop n (wrap64 (d * 2)) else d)"

text \<open>The loop \<open>for i := 1; i < fails \<and> d < max\<close> makes at most \<open>fails - 1\<close> turns.\<close>

definition scheduleBackoff :: "duration \<Rightarrow> nat \<Rightarrow> duration" where
  "scheduleBackoff interval0 n =
     (let interval = (if interval0 \<le> 0 then second else interval0);
          d = backoffLoop (n - 1) interval
      in if d > maxScheduleBackoff \<and> interval < maxScheduleBackoff then maxScheduleBackoff else d)"

definition reportScheduleError :: "nat \<Rightarrow> job \<Rightarrow> 'e \<Rightarrow> nat \<Rightarrow> duration \<Rightarrow> 'e event" where
  "reportScheduleError i j err n retryIn =
     (if hasOnError j then OnError i err n retryIn
      else Warn i (if jobName j = [] then ''job'' else jobName j) err n retryIn)"

definition fail :: "nat \<Rightarrow> job \<Rightarrow> duration \<Rightarrow> time \<Rightarrow> 'e \<Rightarrow> scheduleState \<Rightarrow> scheduleState \<times> 'e event" where
  "fail i j interval now err st =
     (let n = (if fails st < maxScheduleFails then fails st + 1 else fails st);
          d = scheduleBackoff interval n
      in (st\<lparr>fails := n, at := now + d\<rparr>, reportScheduleError i j err n d))"

definition succeed :: "time \<Rightarrow> scheduleState \<Rightarrow> scheduleState" where
  "succeed t st = st\<lparr>fails := 0, at := t\<rparr>"

definition earlier :: "time \<Rightarrow> time \<Rightarrow> time" where
  "earlier a b = (if IsZero b then a else if IsZero a \<or> Before b a then b else a)"

section \<open>One round\<close>

text \<open>The result of one job's turn: the run is over (the context is cancelled), or the job's
  new state with the time passed to \<open>note\<close> (nothing for a job without callbacks).\<close>

datatype turn = Stop | Next scheduleState "time option"

definition jobStep :: "duration \<Rightarrow> 'e tick \<Rightarrow> nat \<Rightarrow> job \<Rightarrow> scheduleState \<Rightarrow> turn \<times> 'e event list" where
  "jobStep interval T i j st =
     (let now = nowT T in
      if \<not> hasNext j \<or> \<not> hasRun j then (Next st None, [])
      else if \<not> IsZero (at st) \<and> After (at st) now then (Next st (Some (at st)), [])
      else (case nextRes T i of
        Inl err \<Rightarrow>
          if cancelledAfter T i then (Stop, [AskNext i now])
          else (let (st', ev) = fail i j interval now err st in (Next st' (Some (at st')), [AskNext i now, ev]))
      | Inr due \<Rightarrow>
          if \<not> IsZero due \<and> \<not> After due now then
            (case runRes T i of
              Some err \<Rightarrow>
                if cancelledAfter T i then (Stop, [AskNext i now, RunJob i now])
                else (let (st', ev) = fail i j interval now err st
                      in (Next st' (Some (at st')), [AskNext i now, RunJob i now, ev]))
            | None \<Rightarrow>
                (let st' = succeed now st in (Next st' (Some (at st')), [AskNext i now, RunJob i now])))
          else
            (let st' = (if IsZero due then succeed (now + interval) st else succeed due st)
             in (Next st' (Some (at st')), [AskNext i now]))))"

definition noteAt :: "time \<Rightarrow> time \<Rightarrow> time \<times> bool \<Rightarrow> time \<times> bool" where
  "noteAt now t = (\<lambda>(soonest, pollSoon). if After t now then (earlier soonest t, pollSoon) else (soonest, True))"

definition noteOpt :: "time \<Rightarrow> time option \<Rightarrow> time \<times> bool \<Rightarrow> time \<times> bool" where
  "noteOpt now t acc = (case t of None \<Rightarrow> acc | Some u \<Rightarrow> noteAt now u acc)"

text \<open>The loop over the jobs.  The result: whether the context ended it, the new states
  (those of the jobs after the end are as they were), what was noted, the events.\<close>

fun jobsLoop :: "duration \<Rightarrow> 'e tick \<Rightarrow> nat \<Rightarrow> (job \<times> scheduleState) list \<Rightarrow> time \<times> bool
    \<Rightarrow> bool \<times> scheduleState list \<times> (time \<times> bool) \<times> 'e event list" where
  "jobsLoop interval T i [] acc = (False, [], acc, [])"
| "jobsLoop interval T i ((j, st) # rest) acc =
     (case jobStep interval T i j st of
        (Stop, evs) \<Rightarrow> (True, st # map snd rest, acc, evs)
      | (Next st' t, evs) \<Rightarrow>
          (let (stop, sts, acc', evs') = jobsLoop interval T (Suc i) rest (noteOpt (nowT T) t acc)
           in (stop, st' # sts, acc', evs @ evs')))"

definition waitTime :: "duration \<Rightarrow> time \<Rightarrow> time \<Rightarrow> bool \<Rightarrow> duration" where
  "waitTime interval now' soonest pollSoon =
     (if \<not> IsZero soonest then
        (let d = sat64 (soonest - now') in
         if d > 0 \<and> (\<not> pollSoon \<or> d < interval) then d else interval)
      else interval)"

text \<open>One turn of the outer loop: \<open>None\<close> as first component when \<open>Run\<close> returns in it,
  otherwise the time the timer was set to.\<close>

definition round :: "duration \<Rightarrow> 'e tick \<Rightarrow> job list \<Rightarrow> scheduleState list
    \<Rightarrow> duration option \<times> scheduleState list \<times> 'e event list" where
  "round interval T jobs sts =
     (if topCancelled T then (None, sts, [])
      else (let (stop, sts', (soonest, pollSoon), evs) = jobsLoop interval T 0 (zip jobs sts) (zero_time, False)
            in if stop then (None, sts', evs)
               else (Some (waitTime interval (untilNow T) soonest pollSoon), sts', evs)))"

text \<open>\<open>Run\<close>, for as many rounds as there are ticks: \<open>True\<close> when it has returned (nil).\<close>

fun runRounds :: "duration \<Rightarrow> job list \<Rightarrow> scheduleState list \<Rightarrow> 'e tick list
    \<Rightarrow> bool \<times> scheduleState list \<times> (duration option \<times> 'e event list) list" where
  "runRounds interval jobs sts [] = (False, sts, [])"
| "runRounds interval jobs sts (T # Ts) =
     (case round interval T jobs sts of
        (None, sts', evs) \<Rightarrow> (True, sts', [(None, evs)])
      | (Some w, sts', evs) \<Rightarrow>
          if waitCancelled T then (True, sts', [(Some w, evs)])
          else (let (ret, sts'', log) = runRounds interval jobs sts' Ts
                in (ret, sts'', (Some w, evs) # log)))"

definition Run :: "duration \<Rightarrow> job list \<Rightarrow> 'e tick list
    \<Rightarrow> bool \<times> scheduleState list \<times> (duration option \<times> 'e event list) list" where
  "Run interval0 jobs Ts =
     (let interval = (if interval0 \<le> 0 then second else interval0)
      in runRounds interval jobs (replicate (length jobs) \<lparr>fails = 0, at = zero_time\<rparr>) Ts)"

section \<open>RunAt\<close>

datatype 'e runAt = Skipped | Ran 'e

text \<open>\<open>waitEnds\<close>: the select left by the timer (else by the context); \<open>ctxErr\<close>: the context
  when it is looked at afterwards.\<close>

definition RunAt :: "time \<Rightarrow> time \<Rightarrow> bool \<Rightarrow> bool \<Rightarrow> (unit \<Rightarrow> 'e) option \<Rightarrow> 'e runAt" where
  "RunAt now t waitEnds ctxErr fn =
     (case fn of
        None \<Rightarrow> Skipped
      | Some f \<Rightarrow>
          if sat64 (t - now) > 0 \<and> \<not> waitEnds then Skipped
          else if ctxErr then Skipped
          else Ran (f ()))"

section \<open>Backoff: closed form, bounds, no overflow\<close>

lemma maxScheduleBackoff_val: "maxScheduleBackoff = 300000000000"
  by (simp add: maxScheduleBackoff_def duration_defs)

lemma second_val: "second = 1000000000"
  by (simp add: duration_defs)

lemma wrap64_double: "0 \<le> d \<Longrightarrow> d < maxScheduleBackoff \<Longrightarrow> wrap64 (d * 2) = d * 2"
  by (rule wrap64_id) (simp add: int64_range_def maxScheduleBackoff_val)

lemma backoffLoop_ge: "maxScheduleBackoff \<le> d \<Longrightarrow> backoffLoop n d = d"
  by (cases n) auto

lemma backoffLoop_pow:
  "0 < d \<Longrightarrow> backoffLoop n d < maxScheduleBackoff \<Longrightarrow> backoffLoop n d = d * 2 ^ n"
proof (induction n arbitrary: d)
  case 0
  then show ?case by simp
next
  case (Suc n)
  show ?case
  proof (cases "d < maxScheduleBackoff")
    case True
    with Suc.prems Suc.IH [of "d * 2"] show ?thesis by (simp add: wrap64_double)
  next
    case False
    with Suc.prems show ?thesis by simp
  qed
qed

lemma backoffLoop_stops:
  "0 < d \<Longrightarrow> maxScheduleBackoff \<le> backoffLoop n d \<Longrightarrow> maxScheduleBackoff \<le> d * 2 ^ n"
proof (induction n arbitrary: d)
  case 0
  then show ?case by simp
next
  case (Suc n)
  show ?case
  proof (cases "d < maxScheduleBackoff")
    case True
    with Suc.prems have "maxScheduleBackoff \<le> (d * 2) * 2 ^ n"
      by (intro Suc.IH) (simp_all add: wrap64_double)
    then show ?thesis by (simp add: mult.assoc)
  next
    case False
    have "d * 1 \<le> d * 2 ^ Suc n"
      using Suc.prems(1) by (intro mult_left_mono one_le_power) auto
    with False show ?thesis by linarith
  qed
qed

definition effective :: "duration \<Rightarrow> duration" where
  "effective interval = (if interval \<le> 0 then second else interval)"

lemma effective_pos: "0 < effective interval"
  by (simp add: effective_def second_val)

lemma scheduleBackoff_closed:
  "scheduleBackoff interval n =
     (if maxScheduleBackoff \<le> effective interval then effective interval
      else min maxScheduleBackoff (effective interval * 2 ^ (n - 1)))"
proof (cases "maxScheduleBackoff \<le> effective interval")
  case True
  then show ?thesis
    by (simp add: scheduleBackoff_def backoffLoop_ge flip: effective_def)
next
  case False
  let ?d = "backoffLoop (n - 1) (effective interval)"
  have "scheduleBackoff interval n = (if ?d > maxScheduleBackoff then maxScheduleBackoff else ?d)"
    using False by (simp add: scheduleBackoff_def Let_def flip: effective_def)
  also have "\<dots> = min maxScheduleBackoff (effective interval * 2 ^ (n - 1))"
    using backoffLoop_pow [OF effective_pos, of "n - 1" interval]
      backoffLoop_stops [OF effective_pos, of "n - 1" interval]
    by (cases "?d < maxScheduleBackoff") auto
  finally show ?thesis using False by simp
qed

lemma scheduleBackoff_pos: "0 < scheduleBackoff interval n"
proof -
  have "0 < effective interval * 2 ^ (n - 1)"
    using effective_pos by (intro mult_pos_pos zero_less_power) auto
  then show ?thesis
    using effective_pos [of interval] by (simp add: scheduleBackoff_closed maxScheduleBackoff_val)
qed

lemma scheduleBackoff_ge: "min (effective interval) maxScheduleBackoff \<le> scheduleBackoff interval n"
proof -
  have "effective interval * 1 \<le> effective interval * 2 ^ (n - 1)"
    using effective_pos [of interval] by (intro mult_left_mono one_le_power) auto
  then show ?thesis by (auto simp: scheduleBackoff_closed)
qed

lemma scheduleBackoff_le: "scheduleBackoff interval n \<le> max (effective interval) maxScheduleBackoff"
  by (auto simp: scheduleBackoff_closed)

text \<open>The retry delay after \<open>n\<close> consecutive failures is the interval doubled
  \<open>n - 1\<close> times and capped at five minutes (an interval of five minutes or more is used as it
  is), computed without leaving the range of \<open>int64\<close> although the loop doubles in wrapping
  arithmetic.\<close>

theorem backoff_doubles_capped:
  assumes "int64_range interval"
  shows "scheduleBackoff interval n =
      (if maxScheduleBackoff \<le> effective interval then effective interval
       else min maxScheduleBackoff (effective interval * 2 ^ (n - 1)))
    \<and> 0 < scheduleBackoff interval n \<and> int64_range (scheduleBackoff interval n)"
proof -
  have "int64_range (effective interval)"
    using assms by (auto simp: effective_def second_val int64_range_def)
  then have "int64_range (max (effective interval) maxScheduleBackoff)"
    by (simp add: max_def int64_range_def maxScheduleBackoff_val)
  then show ?thesis
    using scheduleBackoff_closed scheduleBackoff_pos [of interval n] scheduleBackoff_le [of interval n]
    by (auto simp: int64_range_def)
qed

theorem backoff_doubles_capped_witness:
  "scheduleBackoff (2 * second) 4 = 16 * second \<and> scheduleBackoff (2 * second) 40 = maxScheduleBackoff"
  using backoff_doubles_capped [of "2 * second" 4] backoff_doubles_capped [of "2 * second" 40]
  by (simp add: int64_range_def second_val effective_def maxScheduleBackoff_val)

section \<open>What a round does to each job\<close>

fun evJob :: "'e event \<Rightarrow> nat" where
  "evJob (AskNext i _) = i"
| "evJob (RunJob i _) = i"
| "evJob (OnError i _ _ _) = i"
| "evJob (Warn i _ _ _ _) = i"

text \<open>A report of a failure of job \<open>i\<close>, the \<open>n\<close>-th in a row, retried after \<open>d\<close>.\<close>

fun reports :: "nat \<Rightarrow> nat \<Rightarrow> duration \<Rightarrow> 'e event \<Rightarrow> bool" where
  "reports i n d (OnError k _ m e) \<longleftrightarrow> k = i \<and> m = n \<and> e = d"
| "reports i n d (Warn k _ _ m e) \<longleftrightarrow> k = i \<and> m = n \<and> e = d"
| "reports i n d _ \<longleftrightarrow> False"

lemma reports_evJob: "reports i n d ev \<Longrightarrow> evJob ev = i"
  by (cases ev) auto

lemmas step_defs = jobStep_def fail_def succeed_def reportScheduleError_def Let_def

lemma jobStep_evJob: "jobStep interval T i j st = (r, evs) \<Longrightarrow> ev \<in> set evs \<Longrightarrow> evJob ev = i"
  by (auto simp: step_defs split: if_splits sum.splits option.splits)

lemma jobsLoop_runs:
  assumes "jobsLoop interval T i js acc = (False, sts', acc', evs)"
  shows "\<exists>ts es. length sts' = length js \<and> length ts = length js \<and> length es = length js
     \<and> evs = concat es \<and> acc' = fold (noteOpt (nowT T)) ts acc
     \<and> (\<forall>k < length js. jobStep interval T (i + k) (fst (js ! k)) (snd (js ! k)) = (Next (sts' ! k) (ts ! k), es ! k))"
  using assms
proof (induction js arbitrary: i acc sts' evs)
  case Nil
  then show ?case by simp
next
  case (Cons x js)
  obtain j st where x: "x = (j, st)" by (cases x)
  from Cons.prems x obtain st1 t1 e1 sts1 evs1 where
    step: "jobStep interval T i j st = (Next st1 t1, e1)" and
    rest: "jobsLoop interval T (Suc i) js (noteOpt (nowT T) t1 acc) = (False, sts1, acc', evs1)" and
    out: "sts' = st1 # sts1" "evs = e1 @ evs1"
    by (auto split: prod.splits turn.splits)
  from Cons.IH [OF rest] obtain ts es where
    ih: "length sts1 = length js" "length ts = length js" "length es = length js" "evs1 = concat es"
      "acc' = fold (noteOpt (nowT T)) ts (noteOpt (nowT T) t1 acc)"
      "\<forall>k < length js. jobStep interval T (Suc i + k) (fst (js ! k)) (snd (js ! k)) = (Next (sts1 ! k) (ts ! k), es ! k)"
    by blast
  show ?case
    by (rule exI [of _ "t1 # ts"], rule exI [of _ "e1 # es"])
      (use ih step x out in \<open>auto simp: nth_Cons split: nat.splits\<close>)
qed

text \<open>The outcome of a round that does not return, per job.\<close>

lemma round_runs:
  assumes "round interval T jobs sts = (Some w, sts', evs)" and len: "length sts = length jobs"
  obtains ts es where "length sts' = length jobs" "length ts = length jobs" "length es = length jobs"
    "evs = concat es"
    "\<And>k. k < length jobs \<Longrightarrow> jobStep interval T k (jobs ! k) (sts ! k) = (Next (sts' ! k) (ts ! k), es ! k)"
    "w = waitTime interval (untilNow T) (fst (fold (noteOpt (nowT T)) ts (0, False)))
       (snd (fold (noteOpt (nowT T)) ts (0, False)))"
proof -
  from assms(1) obtain sn ps where loop: "jobsLoop interval T 0 (zip jobs sts) (0, False) = (False, sts', (sn, ps), evs)"
      and w: "w = waitTime interval (untilNow T) sn ps"
    by (auto simp: round_def split: if_splits prod.splits)
  from jobsLoop_runs [OF loop] obtain ts es where
    r: "length sts' = length (zip jobs sts)" "length ts = length (zip jobs sts)" "length es = length (zip jobs sts)"
      "evs = concat es" "(sn, ps) = fold (noteOpt (nowT T)) ts (0, False)"
      "\<forall>k < length (zip jobs sts). jobStep interval T (0 + k) (fst (zip jobs sts ! k)) (snd (zip jobs sts ! k))
         = (Next (sts' ! k) (ts ! k), es ! k)"
    by blast
  show ?thesis
  proof (rule that [of ts es])
    fix k assume "k < length jobs"
    with r(6) len show "jobStep interval T k (jobs ! k) (sts ! k) = (Next (sts' ! k) (ts ! k), es ! k)"
      by simp
  next
    show "w = waitTime interval (untilNow T) (fst (fold (noteOpt (nowT T)) ts (0, False)))
       (snd (fold (noteOpt (nowT T)) ts (0, False)))"
      using w by (simp flip: r(5))
  qed (use r len in simp_all)
qed

lemma filter_concat_jobs:
  "(\<And>k ev. k < length es \<Longrightarrow> ev \<in> set (es ! k) \<Longrightarrow> evJob ev = s + k) \<Longrightarrow> i < length es \<Longrightarrow>
     filter (\<lambda>ev. evJob ev = s + i) (concat es) = es ! i"
proof (induction es arbitrary: s i)
  case Nil
  then show ?case by simp
next
  case (Cons e es)
  have e: "\<forall>ev \<in> set e. evJob ev = s" using Cons.prems(1) [of 0] by simp
  have tl: "\<And>k ev. k < length es \<Longrightarrow> ev \<in> set (es ! k) \<Longrightarrow> evJob ev = Suc s + k"
    using Cons.prems(1) [of "Suc _"] by simp
  have none: "filter (\<lambda>ev. evJob ev = s) (concat es) = []"
    using tl by (fastforce simp: filter_empty_conv in_set_conv_nth)
  show ?case
  proof (cases i)
    case 0
    with e none show ?thesis by simp
  next
    case (Suc i')
    with Cons.prems(2) have "filter (\<lambda>ev. evJob ev = Suc s + i') (concat es) = es ! i'"
      by (intro Cons.IH tl) auto
    with Suc e show ?thesis by (simp add: filter_empty_conv)
  qed
qed

text \<open>The events of one job in a round that does not return are those of its turn.\<close>

lemma round_job:
  assumes "round interval T jobs sts = (Some w, sts', evs)" "length sts = length jobs" "i < length jobs"
  shows "\<exists>t. jobStep interval T i (jobs ! i) (sts ! i) = (Next (sts' ! i) t, filter (\<lambda>ev. evJob ev = i) evs)"
proof -
  from round_runs [OF assms(1,2)] obtain ts es where
    r: "length es = length jobs" "evs = concat es"
      "\<And>k. k < length jobs \<Longrightarrow> jobStep interval T k (jobs ! k) (sts ! k) = (Next (sts' ! k) (ts ! k), es ! k)"
    by metis
  have "filter (\<lambda>ev. evJob ev = 0 + i) (concat es) = es ! i"
    using assms(3) r by (intro filter_concat_jobs) (auto dest: jobStep_evJob)
  with r assms(3) show ?thesis by auto
qed

lemma round_length: "round interval T jobs sts = (Some w, sts', evs) \<Longrightarrow> length sts = length jobs \<Longrightarrow> length sts' = length jobs"
  by (metis round_runs)

lemma jobsLoop_job:
  assumes "jobsLoop interval T i js acc = (stop, sts', acc', evs)"
  shows "length sts' = length js \<and> (\<forall>ev \<in> set evs. i \<le> evJob ev \<and> evJob ev < i + length js)
     \<and> (\<forall>k < length js. \<exists>r e. jobStep interval T (i + k) (fst (js ! k)) (snd (js ! k)) = (r, e)
          \<and> (\<forall>ev \<in> set evs. evJob ev = i + k \<longrightarrow> ev \<in> set e)
          \<and> (sts' ! k = snd (js ! k) \<or> (\<exists>t. r = Next (sts' ! k) t)))"
  using assms
proof (induction js arbitrary: i acc stop sts' acc' evs)
  case Nil
  then show ?case by simp
next
  case (Cons x js)
  obtain j st where x: "x = (j, st)" by (cases x)
  obtain r e where step: "jobStep interval T i j st = (r, e)" by fastforce
  have e: "\<forall>ev \<in> set e. evJob ev = i" using jobStep_evJob [OF step] by blast
  show ?case
  proof (cases r)
    case Stop
    with Cons.prems x step have "sts' = st # map snd js" "evs = e" by simp_all
    with e x step Stop show ?thesis by (auto simp: nth_Cons split: nat.splits)
  next
    case (Next st1 t1)
    with Cons.prems x step obtain sts1 evs1 where
      rest: "jobsLoop interval T (Suc i) js (noteOpt (nowT T) t1 acc) = (stop, sts1, acc', evs1)" and
      out: "sts' = st1 # sts1" "evs = e @ evs1"
      by (auto split: prod.splits)
    note ih = Cons.IH [OF rest]
    have range: "\<forall>ev \<in> set evs. i \<le> evJob ev \<and> evJob ev < i + length (x # js)"
      using ih e out by fastforce
    have job: "\<exists>r e. jobStep interval T (i + k) (fst ((x # js) ! k)) (snd ((x # js) ! k)) = (r, e)
          \<and> (\<forall>ev \<in> set evs. evJob ev = i + k \<longrightarrow> ev \<in> set e)
          \<and> (sts' ! k = snd ((x # js) ! k) \<or> (\<exists>t. r = Next (sts' ! k) t))" if "k < length (x # js)" for k
    proof (cases k)
      case 0
      have "\<forall>ev \<in> set evs1. evJob ev \<noteq> i" using ih by fastforce
      with 0 step Next x out e show ?thesis by auto
    next
      case (Suc k')
      with that have "k' < length js" by simp
      from ih [THEN conjunct2, THEN conjunct2, rule_format, OF this] obtain r' e' where
        j': "jobStep interval T (Suc i + k') (fst (js ! k')) (snd (js ! k')) = (r', e')"
          "\<forall>ev \<in> set evs1. evJob ev = Suc i + k' \<longrightarrow> ev \<in> set e'"
          "sts1 ! k' = snd (js ! k') \<or> (\<exists>t. r' = Next (sts1 ! k') t)"
        by blast
      have "jobStep interval T (i + k) (fst ((x # js) ! k)) (snd ((x # js) ! k)) = (r', e')"
        using j'(1) Suc by simp
      moreover have "\<forall>ev \<in> set evs. evJob ev = i + k \<longrightarrow> ev \<in> set e'"
        unfolding out(2) set_append Suc using j'(2) e by (fastforce simp del: evJob.simps)
      moreover have "sts' ! k = snd ((x # js) ! k) \<or> (\<exists>t. r' = Next (sts' ! k) t)"
        using j'(3) Suc out by simp
      ultimately show ?thesis by blast
    qed
    from ih out range job show ?thesis by simp
  qed
qed

text \<open>The same for a whole round, whether or not it returns.\<close>

lemma round_any:
  assumes "round interval T jobs sts = (w, sts', evs)" "length sts = length jobs"
  shows "length sts' = length jobs \<and> (\<forall>ev \<in> set evs. evJob ev < length jobs)
     \<and> (\<forall>k < length jobs. (\<forall>ev \<in> set evs. evJob ev \<noteq> k) \<and> sts' ! k = sts ! k
         \<or> (\<exists>r e. jobStep interval T k (jobs ! k) (sts ! k) = (r, e)
              \<and> (\<forall>ev \<in> set evs. evJob ev = k \<longrightarrow> ev \<in> set e)
              \<and> (sts' ! k = sts ! k \<or> (\<exists>t. r = Next (sts' ! k) t))))"
proof (cases "topCancelled T")
  case True
  with assms show ?thesis by (simp add: round_def)
next
  case False
  with assms(1) obtain stop sn where
    loop: "jobsLoop interval T 0 (zip jobs sts) (0, False) = (stop, sts', sn, evs)"
    by (auto simp: round_def split: if_splits prod.splits)
  from jobsLoop_job [OF loop] assms(2) show ?thesis by fastforce
qed

lemma jobStep_waiting:
  "at st \<noteq> 0 \<Longrightarrow> nowT T < at st \<Longrightarrow> jobStep interval T i j st = (r, e) \<Longrightarrow> e = [] \<and> (\<forall>s' t. r = Next s' t \<longrightarrow> s' = st)"
  by (auto simp: jobStep_def IsZero_def After_def Let_def split: if_splits)

lemma round_waiting:
  assumes "round interval T jobs sts = (w, sts', evs)" "length sts = length jobs" "i < length jobs"
    "at (sts ! i) \<noteq> 0" "nowT T < at (sts ! i)"
  shows "sts' ! i = sts ! i \<and> (\<forall>ev \<in> set evs. evJob ev \<noteq> i)"
  using round_any [OF assms(1,2)] assms(3) jobStep_waiting [OF assms(4,5)] by fastforce

lemma runRounds_waiting:
  assumes "length sts = length jobs" "i < length jobs" "at (sts ! i) \<noteq> 0"
    "\<forall>T \<in> set Ts. nowT T < at (sts ! i)"
  shows "\<forall>(w, evs) \<in> set (snd (snd (runRounds interval jobs sts Ts))). \<forall>ev \<in> set evs. evJob ev \<noteq> i"
  using assms
proof (induction Ts arbitrary: sts)
  case Nil
  then show ?case by simp
next
  case (Cons T Ts)
  obtain w sts' evs where r: "round interval T jobs sts = (w, sts', evs)" by (metis prod_cases3)
  from Cons.prems have waiting: "sts' ! i = sts ! i" "\<forall>ev \<in> set evs. evJob ev \<noteq> i"
    using round_waiting [OF r] by auto
  have len: "length sts' = length jobs" using round_any [OF r Cons.prems(1)] by simp
  obtain ret sts'' lg where rest: "runRounds interval jobs sts' Ts = (ret, sts'', lg)" by (metis prod_cases3)
  have "\<forall>(w, evs) \<in> set lg. \<forall>ev \<in> set evs. evJob ev \<noteq> i"
    using Cons.IH [OF len] Cons.prems waiting rest by simp
  with r rest waiting show ?case by (auto split: option.split)
qed

lemma jobStep_report:
  assumes "jobStep interval T i j st = (Next st' t, e)" "ev \<in> set e" "reports i n d ev"
    and "fails st \<le> maxScheduleFails"
  shows "d = scheduleBackoff interval n \<and> at st' = nowT T + d \<and> fails st' = n
     \<and> n = min maxScheduleFails (Suc (fails st))"
  using assms
  by (auto simp: step_defs split: if_splits sum.splits option.splits)

lemma jobStep_fails:
  "jobStep interval T i j st = (Next st' t, e) \<Longrightarrow> fails st \<le> maxScheduleFails \<Longrightarrow> fails st' \<le> maxScheduleFails"
  by (auto simp: step_defs split: if_splits sum.splits option.splits)

text \<open>Claim C12: after a failure that is reported with a delay, the job's next attempt is
  exactly that delay away, the delay is the backoff of its failure count, and in no later round
  whose clock is still before it is the job asked, run or reported again.\<close>

theorem retry_not_before_backoff:
  assumes round: "round interval T jobs sts = (Some w, sts', evs)" and len: "length sts = length jobs"
    and fl: "\<forall>st \<in> set sts. fails st \<le> maxScheduleFails"
    and ev: "ev \<in> set evs" "reports i n d ev"
    and clock: "0 \<le> nowT T" "\<forall>T' \<in> set Ts. nowT T' < nowT T + d"
  shows "d = scheduleBackoff interval n \<and> at (sts' ! i) = nowT T + d
    \<and> (\<forall>(w', evs') \<in> set (snd (snd (runRounds interval jobs sts' Ts))). \<forall>ev' \<in> set evs'. evJob ev' \<noteq> i)"
proof -
  have i: "i < length jobs"
    using round_any [OF round len] ev reports_evJob by blast
  from round_job [OF round len i] obtain t where
    step: "jobStep interval T i (jobs ! i) (sts ! i) = (Next (sts' ! i) t, filter (\<lambda>e. evJob e = i) evs)" by blast
  have "fails (sts ! i) \<le> maxScheduleFails" using fl i len by simp
  from jobStep_report [OF step _ ev(2) this] ev reports_evJob
  have d: "d = scheduleBackoff interval n" and at: "at (sts' ! i) = nowT T + d" by fastforce+
  moreover have "at (sts' ! i) \<noteq> 0" using d at clock(1) scheduleBackoff_pos [of interval n] by simp
  ultimately show ?thesis
    using runRounds_waiting [of sts' jobs i Ts interval] round_length [OF round len] i clock(2) by simp
qed

definition oneJob :: "job list" where
  "oneJob = [\<lparr>jobName = ''sync'', hasNext = True, hasRun = True, hasOnError = True\<rparr>]"

definition failingTick :: "time \<Rightarrow> string tick" where
  "failingTick t = \<lparr>topCancelled = False, nowT = t, nextRes = (\<lambda>_. Inl ''down''), runRes = (\<lambda>_. None),
     cancelledAfter = (\<lambda>_. False), untilNow = t, waitCancelled = False\<rparr>"

theorem retry_not_before_backoff_witness:
  "list_all (\<lambda>(w', evs'). list_all (\<lambda>ev'. evJob ev' \<noteq> 0) evs')
     (snd (snd (runRounds second oneJob
       (fst (snd (round second (failingTick 5) oneJob [\<lparr>fails = 2, at = 0\<rparr>]))) [failingTick 4000000004])))"
proof -
  have r: "round second (failingTick 5) oneJob [\<lparr>fails = 2, at = 0\<rparr>]
     = (Some 4000000000, [\<lparr>fails = 3, at = 4000000005\<rparr>], [AskNext 0 5, OnError 0 ''down'' 3 4000000000])"
    by code_simp
  show ?thesis
    unfolding r fst_conv snd_conv list_all_iff
    by (rule retry_not_before_backoff [OF r, of "OnError 0 ''down'' 3 4000000000" 0 3 4000000000, THEN conjunct2, THEN conjunct2])
      (simp_all add: oneJob_def maxScheduleFails_def failingTick_def)
qed

lemma jobStep_run:
  assumes "jobStep interval T i j st = (r, e)" "RunJob i t \<in> set e"
  shows "t = nowT T \<and> hasNext j \<and> hasRun j \<and> at st \<le> t \<or> at st = 0 \<and> t = nowT T \<and> hasNext j \<and> hasRun j"
    and "\<exists>due. nextRes T i = Inr due \<and> due \<noteq> 0 \<and> due \<le> t"
  using assms
  by (auto simp: step_defs IsZero_def After_def split: if_splits sum.splits option.splits)

text \<open>Claim C13: a job's work function runs only for a job with both callbacks whose own waiting
  time is over, and only when its \<open>Next\<close>, asked in this round, gave a set due time not after
  the round's clock.\<close>

theorem job_runs_only_when_due:
  assumes "round interval T jobs sts = (w, sts', evs)" "length sts = length jobs"
    and "RunJob i t \<in> set evs"
  shows "t = nowT T \<and> i < length jobs \<and> hasNext (jobs ! i) \<and> hasRun (jobs ! i)
     \<and> (at (sts ! i) = 0 \<or> at (sts ! i) \<le> t)
     \<and> (\<exists>due. nextRes T i = Inr due \<and> due \<noteq> 0 \<and> due \<le> t)"
proof -
  have i: "i < length jobs" using round_any [OF assms(1,2)] assms(3) by fastforce
  with round_any [OF assms(1,2)] assms(3) obtain r e where
    "jobStep interval T i (jobs ! i) (sts ! i) = (r, e)" "RunJob i t \<in> set e" by fastforce
  from jobStep_run [OF this] i show ?thesis by auto
qed

definition dueTick :: "time \<Rightarrow> time \<Rightarrow> string tick" where
  "dueTick t due = \<lparr>topCancelled = False, nowT = t, nextRes = (\<lambda>_. Inr due), runRes = (\<lambda>_. None),
     cancelledAfter = (\<lambda>_. False), untilNow = t, waitCancelled = False\<rparr>"

theorem job_runs_only_when_due_witness:
  "RunJob 0 7 \<in> set (snd (snd (round second (dueTick 7 6) oneJob [\<lparr>fails = 0, at = 0\<rparr>])))
   \<and> (\<exists>due. nextRes (dueTick 7 6) 0 = Inr due \<and> due \<noteq> 0 \<and> due \<le> 7)"
proof -
  have r: "round second (dueTick 7 6) oneJob [\<lparr>fails = 0, at = 0\<rparr>]
     = (Some 1000000000, [\<lparr>fails = 0, at = 7\<rparr>], [AskNext 0 7, RunJob 0 7])"
    by code_simp
  have "RunJob 0 7 \<in> set [AskNext 0 7, RunJob 0 7]" by simp
  with job_runs_only_when_due [OF r _ this] r show ?thesis by (simp add: oneJob_def)
qed

section \<open>The wait\<close>

lemma fold_noteOpt:
  assumes "0 \<le> now" "s = 0 \<or> now < s"
  shows "(fst (fold (noteOpt now) ts (s, p)) = 0 \<or> now < fst (fold (noteOpt now) ts (s, p)))
     \<and> (s \<noteq> 0 \<longrightarrow> fst (fold (noteOpt now) ts (s, p)) \<noteq> 0 \<and> fst (fold (noteOpt now) ts (s, p)) \<le> s)
     \<and> (\<forall>t. Some t \<in> set ts \<and> now < t \<longrightarrow>
           fst (fold (noteOpt now) ts (s, p)) \<noteq> 0 \<and> fst (fold (noteOpt now) ts (s, p)) \<le> t)
     \<and> (fst (fold (noteOpt now) ts (s, p)) = s \<or> Some (fst (fold (noteOpt now) ts (s, p))) \<in> set ts)
     \<and> (snd (fold (noteOpt now) ts (s, p)) \<longleftrightarrow> p \<or> (\<exists>t. Some t \<in> set ts \<and> t \<le> now))"
  using assms(2)
proof (induction ts arbitrary: s p)
  case Nil
  then show ?case by simp
next
  case (Cons u ts)
  show ?case
  proof (cases u)
    case None
    with Cons.IH [OF Cons.prems, of p] show ?thesis by (auto simp: noteOpt_def)
  next
    case (Some t)
    show ?thesis
    proof (cases "now < t")
      case True
      let ?s = "earlier s t"
      have s: "?s \<noteq> 0" "now < ?s" "?s \<le> t" "s \<noteq> 0 \<longrightarrow> ?s \<le> s" "?s = s \<or> ?s = t"
        using Cons.prems True assms(1) by (auto simp: earlier_def IsZero_def Before_def)
      have "fold (noteOpt now) (u # ts) (s, p) = fold (noteOpt now) ts (?s, p)"
        using True Some by (simp add: noteOpt_def noteAt_def After_def)
      with Cons.IH [of ?s p] s True Some show ?thesis by auto
    next
      case False
      then have "fold (noteOpt now) (u # ts) (s, p) = fold (noteOpt now) ts (s, True)"
        using Some by (simp add: noteOpt_def noteAt_def After_def)
      with Cons.IH [OF Cons.prems, of True] False Some show ?thesis by auto
    qed
  qed
qed

lemma jobStep_noted:
  "jobStep interval T i j st = (Next st' t, e) \<Longrightarrow>
     t = (if hasNext j \<and> hasRun j then Some (at st') else None)"
  by (auto simp: step_defs split: if_splits sum.splits option.splits)

lemma waitTime_pos: "0 < interval \<Longrightarrow> 0 < waitTime interval now' s p"
  by (auto simp: waitTime_def Let_def)

text \<open>A job takes part in the waiting when it has both callbacks.\<close>

definition takesPart :: "job list \<Rightarrow> nat \<Rightarrow> bool" where
  "takesPart jobs i \<longleftrightarrow> i < length jobs \<and> hasNext (jobs ! i) \<and> hasRun (jobs ! i)"

text \<open>What the loop has noted when a round is over: the earliest time after the round's clock, and
  whether a job was due by it.\<close>

lemma round_noted:
  assumes "round interval T jobs sts = (Some w, sts', evs)" "length sts = length jobs" "0 \<le> nowT T"
  obtains s p where "w = waitTime interval (untilNow T) s p"
    "s = 0 \<or> nowT T < s \<and> (\<exists>i. takesPart jobs i \<and> s = at (sts' ! i))"
    "\<And>i. takesPart jobs i \<Longrightarrow> nowT T < at (sts' ! i) \<Longrightarrow> s \<noteq> 0 \<and> s \<le> at (sts' ! i)"
    "p \<longleftrightarrow> (\<exists>i. takesPart jobs i \<and> at (sts' ! i) \<le> nowT T)"
proof -
  from round_runs [OF assms(1,2)] obtain ts es where
    l: "length ts = length jobs" and
    steps: "\<And>k. k < length jobs \<Longrightarrow> jobStep interval T k (jobs ! k) (sts ! k) = (Next (sts' ! k) (ts ! k), es ! k)" and
    w: "w = waitTime interval (untilNow T) (fst (fold (noteOpt (nowT T)) ts (0, False)))
          (snd (fold (noteOpt (nowT T)) ts (0, False)))"
    by metis
  have noted: "Some t \<in> set ts \<longleftrightarrow> (\<exists>i. takesPart jobs i \<and> t = at (sts' ! i))" for t
    using l jobStep_noted [OF steps] by (fastforce simp: takesPart_def in_set_conv_nth split: if_splits)
  note f = fold_noteOpt [OF assms(3), of 0 ts False, simplified, unfolded noted]
  show thesis
    by (rule that [OF w]) (use f in blast)+
qed

lemma waitTime_cases:
  assumes "0 < interval" "w = waitTime interval now' s p"
  obtains "s \<noteq> 0" "now' < s" "w = sat64 (s - now')" "p \<longrightarrow> w < interval"
    | "w = interval" "s \<noteq> 0 \<Longrightarrow> now' < s \<Longrightarrow> p \<and> interval \<le> sat64 (s - now')"
  using assms by (auto simp: waitTime_def Let_def IsZero_def sat64_pos split: if_splits)

text \<open>Claim C14: a round ends in a wait that is positive (the loop never spins) and either the interval
  or the time left to some job's next time, never more than the interval when a job was due by the
  round's clock; it ends by every job's next time, unless one of those times has already gone by while the
  round ran.  In that case, whatever the other jobs' times, the wait is the whole interval.\<close>

theorem round_wakes_in_time:
  assumes "round interval T jobs sts = (Some w, sts', evs)" "length sts = length jobs" "0 < interval" "0 \<le> nowT T"
  shows "0 < w
    \<and> (w = interval \<or> (\<exists>i. takesPart jobs i \<and> nowT T < at (sts' ! i) \<and> w = sat64 (at (sts' ! i) - untilNow T)))
    \<and> ((\<exists>i. takesPart jobs i \<and> at (sts' ! i) \<le> nowT T) \<longrightarrow> w \<le> interval)
    \<and> (if \<exists>i. takesPart jobs i \<and> nowT T < at (sts' ! i) \<and> at (sts' ! i) \<le> untilNow T
       then w = interval
       else \<forall>i. takesPart jobs i \<and> nowT T < at (sts' ! i) \<longrightarrow> untilNow T + w \<le> at (sts' ! i))"
proof -
  obtain s p where w: "w = waitTime interval (untilNow T) s p"
    and s: "s = 0 \<or> nowT T < s \<and> (\<exists>i. takesPart jobs i \<and> s = at (sts' ! i))"
    and first: "\<And>i. takesPart jobs i \<Longrightarrow> nowT T < at (sts' ! i) \<Longrightarrow> s \<noteq> 0 \<and> s \<le> at (sts' ! i)"
    and p: "p \<longleftrightarrow> (\<exists>i. takesPart jobs i \<and> at (sts' ! i) \<le> nowT T)"
    using round_noted [OF assms(1,2,4)] by metis
  have pos: "0 < w" using waitTime_pos [OF assms(3)] w by simp
  from assms(3) w show ?thesis
  proof (cases rule: waitTime_cases)
    case 1
    have "untilNow T + w \<le> s" using 1(2,3) sat64_le [of "s - untilNow T"] by simp
    then have "untilNow T < at (sts' ! i) \<and> untilNow T + w \<le> at (sts' ! i)"
      if "takesPart jobs i" "nowT T < at (sts' ! i)" for i
      using first [OF that] pos by linarith
    with 1 s p pos show ?thesis by force
  next
    case 2
    have "untilNow T + w \<le> at (sts' ! i)"
      if "takesPart jobs i" "nowT T < at (sts' ! i)"
        and none: "\<nexists>i. takesPart jobs i \<and> nowT T < at (sts' ! i) \<and> at (sts' ! i) \<le> untilNow T" for i
    proof -
      from s first [OF that(1,2)] none have "untilNow T < s" by force
      with 2(2) first [OF that(1,2)] have "interval \<le> sat64 (s - untilNow T)" by blast
      with sat64_le [of "s - untilNow T"] \<open>untilNow T < s\<close> 2(1) first [OF that(1,2)] show ?thesis by linarith
    qed
    with 2(1) pos show ?thesis by auto
  qed
qed

theorem round_wakes_in_time_witness:
  "fst (round second (dueTick 7 4000) oneJob [\<lparr>fails = 0, at = 0\<rparr>]) = Some 3993 \<and> (7::int) + 3993 \<le> 4000"
proof -
  have r: "round second (dueTick 7 4000) oneJob [\<lparr>fails = 0, at = 0\<rparr>]
     = (Some 3993, [\<lparr>fails = 0, at = 4000\<rparr>], [AskNext 0 7])"
    by code_simp
  have "takesPart oneJob i \<longleftrightarrow> i = 0" for i by (auto simp: takesPart_def oneJob_def)
  with round_wakes_in_time [OF r] r show ?thesis
    by (simp add: oneJob_def second_val dueTick_def)
qed

text \<open>The second case happens: job 0 had a time that passed while job 1 was asked, and job 1, whose
  time is still to come, is woken half a second late.\<close>

definition passingTick :: "string tick" where
  "passingTick = \<lparr>topCancelled = False, nowT = 1000, nextRes = (\<lambda>i. Inr (if i = 0 then 2000 else 500003000)),
     runRes = (\<lambda>_. None), cancelledAfter = (\<lambda>_. False), untilNow = 3000, waitCancelled = False\<rparr>"

lemma passed_time_oversleeps:
  "round second passingTick (oneJob @ oneJob) [\<lparr>fails = 0, at = 0\<rparr>, \<lparr>fails = 0, at = 0\<rparr>]
     = (Some 1000000000, [\<lparr>fails = 0, at = 2000\<rparr>, \<lparr>fails = 0, at = 500003000\<rparr>], [AskNext 0 1000, AskNext 1 1000])"
  "untilNow passingTick < 500003000 \<and> 500003000 < untilNow passingTick + 1000000000"
  by code_simp+

end
