(* ===== verification/Errors.thy ===== *)
theory Errors
  imports GoStrings
begin

text \<open>
  The error values of the program: the sentinels of \<open>storeerr\<close>, \<open>internal/duckdb\<close>, \<open>kv\<close>,
  \<open>journal\<close>, \<open>configdb\<close>, \<open>sealed\<close>, errors that come from outside (a context, SQL, the
  operating system), wrapping with \<open>%w\<close>, and the tag \<open>lockedError\<close> of
  src/internal/duckdb/handle.go that makes \<open>errors.Is(err, ErrLocked)\<close> true without
  changing the message.
\<close>

datatype err =
    ErrClosed
  | ErrLocked
  | ErrUnavailable string
  | ErrGenerationMarker err
  | ErrUndecodable err
  | CtxErr string
  | SqlErr string
  | OsErr string
  | NotExist string
  | Exist string
  | Permission string
  | Msg string
  | Wrap string err
  | Note err string
  | LockedError err

text \<open>\<open>err.Error()\<close>\<close>

fun errText :: "err \<Rightarrow> string" where
  "errText ErrClosed = ''duckdb: handle closed''"
| "errText ErrLocked = ''duckdb: database is locked by another process''"
| "errText (ErrUnavailable p) = p @ ''store unavailable''"
| "errText (ErrGenerationMarker e) = ''change committed but generation marker not updated: '' @ errText e"
| "errText (ErrUndecodable e) = ''sealed value cannot be decrypted with the current key: '' @ errText e"
| "errText (CtxErr m) = m"
| "errText (SqlErr m) = m"
| "errText (OsErr m) = m"
| "errText (NotExist m) = m"
| "errText (Exist m) = m"
| "errText (Permission m) = m"
| "errText (Msg m) = m"
| "errText (Wrap p e) = p @ errText e"
| "errText (Note e p) = errText e @ p"
| "errText (LockedError e) = errText e"

text \<open>\<open>errors.Is(err, ErrLocked)\<close>: through every wrapper.\<close>

fun isLocked :: "err \<Rightarrow> bool" where
  "isLocked ErrLocked = True"
| "isLocked (LockedError e) = True"
| "isLocked (Wrap p e) = isLocked e"
| "isLocked (Note e p) = isLocked e"
| "isLocked (ErrGenerationMarker e) = isLocked e"
| "isLocked (ErrUndecodable e) = isLocked e"
| "isLocked _ = False"

fun isClosed :: "err \<Rightarrow> bool" where
  "isClosed ErrClosed = True"
| "isClosed (LockedError e) = isClosed e"
| "isClosed (Wrap p e) = isClosed e"
| "isClosed (Note e p) = isClosed e"
| "isClosed (ErrGenerationMarker e) = isClosed e"
| "isClosed (ErrUndecodable e) = isClosed e"
| "isClosed _ = False"

text \<open>\<open>errors.Is\<close> with \<open>fs.ErrNotExist\<close>, \<open>fs.ErrExist\<close>, \<open>fs.ErrPermission\<close>.\<close>

fun rootErr :: "err \<Rightarrow> err" where
  "rootErr (LockedError e) = rootErr e"
| "rootErr (Wrap p e) = rootErr e"
| "rootErr (Note e p) = rootErr e"
| "rootErr (ErrGenerationMarker e) = rootErr e"
| "rootErr (ErrUndecodable e) = rootErr e"
| "rootErr e = e"

definition isNotExist :: "err \<Rightarrow> bool" where
  "isNotExist e = (case rootErr e of NotExist m \<Rightarrow> True | _ \<Rightarrow> False)"

definition isExist :: "err \<Rightarrow> bool" where
  "isExist e = (case rootErr e of Exist m \<Rightarrow> True | _ \<Rightarrow> False)"

definition isPermission :: "err \<Rightarrow> bool" where
  "isPermission e = (case rootErr e of Permission m \<Rightarrow> True | _ \<Rightarrow> False)"

lemma kind_simps [simp]:
  "\<not> isNotExist (OsErr m)" "\<not> isNotExist (Exist m)" "\<not> isNotExist (Msg m)" "isNotExist (NotExist m)"
  "\<not> isExist (OsErr m)" "isExist (Exist m)" "\<not> isExist (Msg m)" "\<not> isExist (NotExist m)"
  by (simp_all add: isNotExist_def isExist_def)

definition duckLockMarkers :: "string list" where
  "duckLockMarkers = [''Conflicting lock is held'', ''Could not set lock on file'']"

definition asLocked :: "err option \<Rightarrow> err option" where
  "asLocked eo =
     (case eo of
        None \<Rightarrow> None
      | Some e \<Rightarrow>
          if isLocked e then Some e
          else if list_ex (\<lambda>marker. Contains (errText e) marker) duckLockMarkers then Some (LockedError e)
          else Some e)"

lemma asLocked_simps [simp]: "asLocked None = None" "asLocked eo = None \<longleftrightarrow> eo = None"
  by (auto simp: asLocked_def split: option.split)

lemma asLocked_text: "map_option errText (asLocked eo) = map_option errText eo"
  by (auto simp: asLocked_def split: option.split)

lemma asLocked_iff:
  "asLocked (Some e) = Some e' \<Longrightarrow>
     isLocked e' \<longleftrightarrow> isLocked e \<or> (\<exists>m \<in> set duckLockMarkers. Contains (errText e) m)"
  by (auto simp: asLocked_def list_ex_iff split: if_splits)

end
