(* ===== verification/Engine.thy ===== *)
theory Engine
  imports Errors
begin

text \<open>
  The SQL engine under the stores, as the program uses it: one connection
  (\<open>SetMaxOpenConns(1)\<close>) on which a statement is run, alone or inside the transaction
  opened by \<open>BeginTx\<close> and ended by \<open>Commit\<close> or the deferred \<open>Rollback\<close>.  The data of a
  statement is the meaning of its SQL text on the tables, given by each store; that any call
  can fail is the argument \<open>F\<close>, which says for the \<open>n\<close>-th call made whether it fails and with
  which error.  A failed statement changes nothing and a transaction that is not committed
  leaves no trace: the documented behaviour of a transactional database.
\<close>

record 'db conn =
  committed :: 'db
  pendingTx :: "'db option"
  calls :: nat

type_synonym faults = "nat \<Rightarrow> err option"

definition idle_conn :: "'db conn \<Rightarrow> bool" where
  "idle_conn c \<longleftrightarrow> pendingTx c = None"

text \<open>\<open>QueryContext\<close> and \<open>ExecContext\<close>: the statement \<open>f\<close> maps the tables to an error
  (a violated constraint, say) or the changed tables and its result.\<close>

definition exec :: "faults \<Rightarrow> ('db \<Rightarrow> err + ('db \<times> 'r)) \<Rightarrow> ('db conn, err, 'r) act" where
  "exec F f c =
     (let c' = c\<lparr>calls := Suc (calls c)\<rparr> in
      case F (calls c) of
        Some e \<Rightarrow> (Inl e, c')
      | None \<Rightarrow>
          (case pendingTx c of
             None \<Rightarrow> (case f (committed c) of
                 Inl e \<Rightarrow> (Inl e, c') | Inr (d, r) \<Rightarrow> (Inr r, c'\<lparr>committed := d\<rparr>))
           | Some t \<Rightarrow> (case f t of
                 Inl e \<Rightarrow> (Inl e, c') | Inr (d, r) \<Rightarrow> (Inr r, c'\<lparr>pendingTx := Some d\<rparr>))))"

definition query :: "faults \<Rightarrow> ('db \<Rightarrow> 'r) \<Rightarrow> ('db conn, err, 'r) act" where
  "query F q = exec F (\<lambda>d. Inr (d, q d))"

definition update :: "faults \<Rightarrow> ('db \<Rightarrow> 'db) \<Rightarrow> ('db conn, err, unit) act" where
  "update F f = exec F (\<lambda>d. Inr (f d, ()))"

definition beginTx :: "faults \<Rightarrow> ('db conn, err, unit) act" where
  "beginTx F c =
     (let c' = c\<lparr>calls := Suc (calls c)\<rparr> in
      case F (calls c) of Some e \<Rightarrow> (Inl e, c') | None \<Rightarrow> (Inr (), c'\<lparr>pendingTx := Some (committed c)\<rparr>))"

definition commit :: "faults \<Rightarrow> ('db conn, err, unit) act" where
  "commit F c =
     (let c' = c\<lparr>calls := Suc (calls c)\<rparr> in
      case F (calls c) of
        Some e \<Rightarrow> (Inl e, c')
      | None \<Rightarrow> (case pendingTx c of
            None \<Rightarrow> (Inl (SqlErr ''sql: transaction has already been committed or rolled back''), c')
          | Some t \<Rightarrow> (Inr (), c'\<lparr>committed := t, pendingTx := None\<rparr>)))"

definition rollback :: "'db conn \<Rightarrow> 'db conn" where
  "rollback c = c\<lparr>pendingTx := None\<rparr>"

text \<open>The shape every writer of the program has:
  \<open>tx := BeginTx(); defer tx.Rollback(); ...; return tx.Commit()\<close>.\<close>

definition inTx :: "faults \<Rightarrow> ('db conn, err, 'r) act \<Rightarrow> ('db conn, err, 'r) act" where
  "inTx F body c =
     (case beginTx F c of
        (Inl e, c1) \<Rightarrow> (Inl e, c1)
      | (Inr _, c1) \<Rightarrow>
          (case andThen body (\<lambda>r. andThen (commit F) (\<lambda>_. ok r)) c1 of
             (res, c2) \<Rightarrow> (res, rollback c2)))"

definition noFaults :: faults where
  "noFaults n = None"

lemmas engine_defs = exec_def query_def update_def beginTx_def commit_def rollback_def

section \<open>The transactional contract\<close>

text \<open>Composition of functions on the tables, and the computation on the connection that
  implements one inside a transaction: on success it does to the transaction's tables what the
  function does, an error is an engine fault or the function's own error, and the committed
  tables are not touched either way.\<close>

definition seqF :: "('db \<Rightarrow> err + ('db \<times> 'a)) \<Rightarrow> ('a \<Rightarrow> 'db \<Rightarrow> err + ('db \<times> 'b)) \<Rightarrow> 'db \<Rightarrow> err + ('db \<times> 'b)" where
  "seqF f g t = (case f t of Inl e \<Rightarrow> Inl e | Inr (t', x) \<Rightarrow> g x t')"

definition implements :: "faults \<Rightarrow> ('db conn, err, 'r) act \<Rightarrow> ('db \<Rightarrow> err + ('db \<times> 'r)) \<Rightarrow> bool" where
  "implements F m f \<longleftrightarrow> (\<forall>c t r c'. pendingTx c = Some t \<longrightarrow> m c = (r, c') \<longrightarrow>
     committed c' = committed c \<and>
     (case r of
        Inr x \<Rightarrow> (\<exists>t'. pendingTx c' = Some t' \<and> f t = Inr (t', x))
      | Inl e \<Rightarrow> (\<exists>n. F n = Some e) \<or> f t = Inl e))"

lemma implements_exec [intro]: "implements F (exec F f) f"
  by (auto simp: implements_def exec_def Let_def split: option.splits sum.splits prod.splits)

lemma implements_query [intro]: "implements F (query F q) (\<lambda>d. Inr (d, q d))"
  unfolding query_def by (rule implements_exec)

lemma implements_update [intro]: "implements F (update F u) (\<lambda>d. Inr (u d, ()))"
  unfolding update_def by (rule implements_exec)

lemma implements_ok [intro]: "implements F (ok x) (\<lambda>d. Inr (d, x))"
  by (simp add: implements_def)

lemma implements_throw [intro]: "implements F (throw e) (\<lambda>d. Inl e)"
  by (simp add: implements_def)

lemma implements_andThen [intro]:
  assumes "implements F m f" "\<And>x. implements F (k x) (g x)"
  shows "implements F (andThen m k) (seqF f g)"
  unfolding implements_def
proof (intro allI impI)
  fix c t r c'
  assume t: "pendingTx c = Some t" and run: "andThen m k c = (r, c')"
  obtain r1 c1 where m: "m c = (r1, c1)" by fastforce
  note m' = assms(1) [unfolded implements_def, rule_format, OF t m]
  show "committed c' = committed c \<and>
     (case r of Inr x \<Rightarrow> (\<exists>t'. pendingTx c' = Some t' \<and> seqF f g t = Inr (t', x))
      | Inl e \<Rightarrow> (\<exists>n. F n = Some e) \<or> seqF f g t = Inl e)"
  proof (cases r1)
    case (Inl e)
    with run m m' show ?thesis by (auto simp: andThen_def seqF_def)
  next
    case (Inr x)
    with m' obtain t1 where t1: "pendingTx c1 = Some t1" "f t = Inr (t1, x)" "committed c1 = committed c" by auto
    from run m Inr have "k x c1 = (r, c')" by (simp add: andThen_def)
    with assms(2) [of x, unfolded implements_def, rule_format, OF t1(1) this] t1
    show ?thesis by (auto simp: seqF_def split: sum.splits)
  qed
qed

text \<open>A transaction is all or nothing, whatever fails and wherever it fails.\<close>

lemma inTx_atomic:
  assumes "implements F body f" "idle_conn c" "inTx F body c = (res, c')"
  shows "idle_conn c' \<and>
    (case res of
       Inr r \<Rightarrow> f (committed c) = Inr (committed c', r)
     | Inl e \<Rightarrow> committed c' = committed c \<and> ((\<exists>n. F n = Some e) \<or> f (committed c) = Inl e))"
proof (cases "F (calls c)")
  case (Some e)
  with assms show ?thesis by (auto simp: inTx_def beginTx_def Let_def idle_conn_def)
next
  case None
  let ?c1 = "c\<lparr>calls := Suc (calls c), pendingTx := Some (committed c)\<rparr>"
  obtain r2 c2 where b: "body ?c1 = (r2, c2)" by fastforce
  have t: "pendingTx ?c1 = Some (committed c)" by simp
  note b' = assms(1) [unfolded implements_def, rule_format, OF t b]
  have res: "(res, c') = (case r2 of Inl e \<Rightarrow> (Inl e, rollback c2)
      | Inr r \<Rightarrow> (case commit F c2 of (Inl e, c3) \<Rightarrow> (Inl e, rollback c3) | (Inr _, c3) \<Rightarrow> (Inr r, rollback c3)))"
    using assms(3) None b
    by (cases r2) (auto simp: inTx_def beginTx_def Let_def andThen_def split: sum.splits prod.splits)
  show ?thesis
  proof (cases r2)
    case (Inl e)
    with res b' show ?thesis by (auto simp: rollback_def idle_conn_def)
  next
    case (Inr r)
    with b' obtain t' where "pendingTx c2 = Some t'" "f (committed c) = Inr (t', r)" "committed c2 = committed c"
      by auto
    with res Inr show ?thesis
      by (auto simp: commit_def rollback_def idle_conn_def Let_def split: option.splits)
  qed
qed

lemma exec_idle:
  assumes "idle_conn c" "exec F f c = (res, c')"
  shows "idle_conn c' \<and>
    (case res of
       Inr r \<Rightarrow> f (committed c) = Inr (committed c', r)
     | Inl e \<Rightarrow> committed c' = committed c \<and> ((\<exists>n. F n = Some e) \<or> f (committed c) = Inl e))"
  using assms
  by (auto simp: exec_def idle_conn_def Let_def split: option.splits sum.splits prod.splits)

text \<open>The contract, for a computation started on an idle connection: the \<open>run\<close> part of a
  store operation is one of these, whether it is a single statement or a transaction.\<close>

definition atomically :: "faults \<Rightarrow> ('db conn, err, 'r) act \<Rightarrow> ('db \<Rightarrow> err + ('db \<times> 'r)) \<Rightarrow> bool" where
  "atomically F m f \<longleftrightarrow> (\<forall>c res c'. idle_conn c \<longrightarrow> m c = (res, c') \<longrightarrow> idle_conn c' \<and>
    (case res of
       Inr r \<Rightarrow> f (committed c) = Inr (committed c', r)
     | Inl e \<Rightarrow> committed c' = committed c \<and> ((\<exists>n. F n = Some e) \<or> f (committed c) = Inl e)))"

lemma atomically_exec [intro]: "atomically F (exec F f) f"
  unfolding atomically_def using exec_idle by blast

lemma atomically_query [intro]: "atomically F (query F q) (\<lambda>d. Inr (d, q d))"
  unfolding query_def by (rule atomically_exec)

lemma atomically_update [intro]: "atomically F (update F u) (\<lambda>d. Inr (u d, ()))"
  unfolding update_def by (rule atomically_exec)

lemma atomically_inTx [intro]: "implements F body f \<Longrightarrow> atomically F (inTx F body) f"
  unfolding atomically_def using inTx_atomic by blast

lemma atomically_Inr:
  "atomically F m f \<Longrightarrow> idle_conn c \<Longrightarrow> m c = (Inr r, c') \<Longrightarrow>
     idle_conn c' \<and> f (committed c) = Inr (committed c', r)"
  by (fastforce simp: atomically_def)

lemma atomically_Inl:
  "atomically F m f \<Longrightarrow> idle_conn c \<Longrightarrow> m c = (Inl e, c') \<Longrightarrow>
     idle_conn c' \<and> committed c' = committed c \<and> ((\<exists>n. F n = Some e) \<or> f (committed c) = Inl e)"
  by (fastforce simp: atomically_def)

lemma atomically_noFaults:
  assumes "atomically noFaults m f" "idle_conn c" "f (committed c) = Inr (d, r)"
  shows "\<exists>c'. m c = (Inr r, c') \<and> idle_conn c' \<and> committed c' = d"
proof -
  obtain res c' where m: "m c = (res, c')" by fastforce
  show ?thesis
  proof (cases res)
    case (Inl e)
    with atomically_Inl [OF assms(1,2)] m assms(3) show ?thesis by (auto simp: noFaults_def)
  next
    case (Inr x)
    with atomically_Inr [OF assms(1,2)] m assms(3) show ?thesis by auto
  qed
qed

end
