(* ===== verification/Handle.thy ===== *)
theory Handle
  imports Engine
begin

text \<open>
  The handle of src/internal/duckdb/handle.go on one database file: its fields
  (\<open>handle\<close>), the idle timer with the accounting of its firings (\<open>arm\<close>, \<open>disarm\<close>,
  \<open>onIdle\<close>), the process-wide table of sidecar locks (\<open>release\<close>, \<open>acquire\<close>), and \<open>Do\<close>,
  \<open>Ensure\<close>, \<open>Close\<close>.  The tuning options of src/duckopt/duckopt.go and their defaults come
  first.

  The timer is Go's: it is set to run \<open>onIdle\<close> once; \<open>Stop\<close> says whether it was still
  set; a timer that has expired has a goroutine of \<open>onIdle\<close> under way, counted by
  \<open>inflight\<close>, which waits for the mutex.  The database file is the state \<open>disk\<close> of the
  world, on which the callback of \<open>Do\<close> runs.
\<close>

section \<open>Options\<close>

record tuning =
  Idle :: duration
  Timeout :: duration
  MaxHold :: duration

datatype tuneOption = WithIdle duration | WithTimeout duration | WithMaxHold duration

fun applyOption :: "tuneOption \<Rightarrow> tuning \<Rightarrow> tuning" where
  "applyOption (WithIdle d) o1 = o1\<lparr>Idle := d\<rparr>"
| "applyOption (WithTimeout d) o1 = o1\<lparr>Timeout := d\<rparr>"
| "applyOption (WithMaxHold d) o1 = o1\<lparr>MaxHold := d\<rparr>"

definition Build :: "tuneOption option list \<Rightarrow> tuning" where
  "Build opts = fold (\<lambda>fn o1. case fn of None \<Rightarrow> o1 | Some f \<Rightarrow> applyOption f o1) opts
     \<lparr>Idle = 0, Timeout = 0, MaxHold = 0\<rparr>"

record options = tuning +
  Unavailable :: "err option"

definition OptionsFrom :: "tuning \<Rightarrow> err \<Rightarrow> options" where
  "OptionsFrom t u = \<lparr>Idle = Idle t, Timeout = Timeout t, MaxHold = MaxHold t, Unavailable = Some u\<rparr>"

definition DefaultIdle :: duration where "DefaultIdle = 250 * millisecond"
definition DefaultTimeout :: duration where "DefaultTimeout = 5 * second"
definition DefaultMaxHold :: duration where "DefaultMaxHold = 10 * second"

section \<open>The handle\<close>

record handle =
  hidle :: duration
  htimeout :: duration
  maxHold :: duration
  unavail :: err
  db :: bool
  timerSet :: bool
  timerActive :: bool
  inflight :: nat
  since :: time
  gen :: "64 word"
  armed :: "64 word"
  pending :: int
  closed :: bool

definition NewHandle :: "options \<Rightarrow> handle" where
  "NewHandle opts =
     \<lparr>hidle = (if Idle opts \<le> 0 then DefaultIdle else Idle opts),
      htimeout = (if Timeout opts \<le> 0 then DefaultTimeout else Timeout opts),
      maxHold = (if MaxHold opts \<le> 0 then DefaultMaxHold else MaxHold opts),
      unavail = (case Unavailable opts of None \<Rightarrow> ErrClosed | Some e \<Rightarrow> e),
      db = False, timerSet = False, timerActive = False, inflight = 0, since = zero_time,
      gen = 0, armed = 0, pending = 0, closed = False\<rparr>"

definition disarm :: "handle \<Rightarrow> handle" where
  "disarm h =
     (let h1 = h\<lparr>gen := gen h + 1\<rparr> in
      if timerSet h1 \<and> timerActive h1
      then h1\<lparr>timerActive := False, pending := pending h1 - 1\<rparr> else h1)"

definition arm :: "handle \<Rightarrow> handle" where
  "arm h =
     (let h1 = h\<lparr>armed := gen h\<rparr> in
      if \<not> timerSet h1 then h1\<lparr>timerSet := True, timerActive := True, pending := pending h1 + 1\<rparr>
      else if \<not> timerActive h1 then h1\<lparr>timerActive := True, pending := pending h1 + 1\<rparr>
      else h1)"

text \<open>The environment's step: the timer expires and its goroutine is under way.\<close>

definition fire :: "handle \<Rightarrow> handle" where
  "fire h = (if timerActive h then h\<lparr>timerActive := False, inflight := Suc (inflight h)\<rparr> else h)"

section \<open>The lock table of the process\<close>

text \<open>\<open>locks.m\<close>: the reference count of the entry for a path.  \<open>lockKey\<close> (the absolute path)
  is applied by the caller.\<close>

type_synonym locktab = "string \<Rightarrow> nat option"

definition release :: "string \<Rightarrow> locktab \<Rightarrow> locktab" where
  "release key m =
     (case m key of
        None \<Rightarrow> m
      | Some refs \<Rightarrow> if refs - 1 > 0 then m(key := Some (refs - 1)) else m(key := None))"

text \<open>\<open>acquire\<close>: an entry of this process is shared; otherwise the sidecar file lock has to be
  taken, which can fail (\<open>flocked\<close>), and then an entry is made.\<close>

definition acquire :: "err option \<Rightarrow> string \<Rightarrow> locktab \<Rightarrow> err option \<times> locktab" where
  "acquire flocked key m =
     (case m key of
        Some refs \<Rightarrow> (None, m(key := Some (refs + 1)))
      | None \<Rightarrow>
          (case flocked of
             Some e \<Rightarrow> (Some e, m)
           | None \<Rightarrow> (None, m(key := Some 1))))"

text \<open>\<open>shutLocked\<close> on the handle and the table.\<close>

definition shutLocked :: "string \<Rightarrow> handle \<times> locktab \<Rightarrow> handle \<times> locktab" where
  "shutLocked key = (\<lambda>(h, m).
     (let h1 = disarm h in
      if \<not> db h1 then (h1, m) else (h1\<lparr>db := False\<rparr>, release key m)))"

definition onIdle :: "string \<Rightarrow> handle \<times> locktab \<Rightarrow> handle \<times> locktab" where
  "onIdle key = (\<lambda>(h, m).
     (let h1 = h\<lparr>inflight := inflight h - 1, pending := pending h - 1\<rparr> in
      if pending h1 > 0 \<or> closed h1 \<or> gen h1 \<noteq> armed h1 then (h1, m)
      else shutLocked key (h1, m)))"

definition Close :: "string \<Rightarrow> handle \<times> locktab \<Rightarrow> handle \<times> locktab" where
  "Close key = (\<lambda>(h, m). shutLocked key (h\<lparr>closed := True\<rparr>, m))"

section \<open>Do\<close>

text \<open>What a call of \<open>Do\<close> meets outside the handle: the context at the start and after the
  yield, the clock, whether another process waits for the file, the file lock, the opening of
  the database, and the mode of the write-ahead log after the callback.\<close>

record doEnv =
  ctxStart :: "err option"
  clock :: time
  wanted :: bool
  ctxYield :: "err option"
  flockRes :: "err option"
  openRes :: "err option"
  openClock :: time
  walErr :: "err option"

definition calm :: doEnv where
  "calm = \<lparr>ctxStart = None, clock = 0, wanted = False, ctxYield = None, flockRes = None,
           openRes = None, openClock = 0, walErr = None\<rparr>"

definition openLocked :: "doEnv \<Rightarrow> string \<Rightarrow> handle \<times> locktab \<Rightarrow> err option \<times> handle \<times> locktab" where
  "openLocked E key = (\<lambda>(h, m).
     (case acquire (flockRes E) key m of
        (Some e, m1) \<Rightarrow> (Some e, h, m1)
      | (None, m1) \<Rightarrow>
          (case openRes E of
             Some e \<Rightarrow> (Some e, h, release key m1)
           | None \<Rightarrow> (None, h\<lparr>db := True, since := openClock E\<rparr>, m1))))"

text \<open>The hand-off: whether the open database is to be given up before this call goes on.\<close>

definition handsOff :: "doEnv \<Rightarrow> handle \<Rightarrow> bool" where
  "handsOff E h \<longleftrightarrow> db h \<and> (wanted E \<or> clock E - since h > maxHold h)"

text \<open>\<open>yieldLocked\<close> when nothing else runs in the gap (\<open>HandleSystem\<close> has the gap itself).\<close>

definition yieldLocked :: "doEnv \<Rightarrow> handle \<Rightarrow> err option \<times> handle" where
  "yieldLocked E h =
     (if closed h then (Some (unavail h), h)
      else (case ctxYield E of Some e \<Rightarrow> (Some e, h) | None \<Rightarrow> (None, disarm h)))"

text \<open>Everything of \<open>Do\<close> before the callback: an early return, or the open database.\<close>

definition enter :: "doEnv \<Rightarrow> string \<Rightarrow> handle \<times> locktab \<Rightarrow> err option \<times> handle \<times> locktab" where
  "enter E key = (\<lambda>(h, m).
     (case ctxStart E of
        Some e \<Rightarrow> (Some e, h, m)
      | None \<Rightarrow>
          if closed h then (Some (unavail h), h, m)
          else
            (let h1 = disarm h;
                 (e, h2, m2) = (if handsOff E h1
                    then (let (h', m') = shutLocked key (h1, m); (e, h'') = yieldLocked E h' in (e, h'', m'))
                    else (None, h1, m))
             in case e of
                  Some e' \<Rightarrow> (Some e', h2, m2)
                | None \<Rightarrow> if \<not> db h2 then openLocked E key (h2, m2) else (None, h2, m2))))"

record 'f world =
  hnd :: handle
  tab :: locktab
  disk :: 'f

text \<open>\<open>Do\<close>: the callback \<open>fn\<close> works on the file and returns its error and what it captured; the
  captured values are \<open>None\<close> when it was not run.\<close>

definition Do :: "doEnv \<Rightarrow> string \<Rightarrow> ('f \<Rightarrow> err option \<times> 'a option \<times> 'f) \<Rightarrow> 'f world
    \<Rightarrow> err option \<times> 'a option \<times> 'f world" where
  "Do E key fn w =
     (case enter E key (hnd w, tab w) of
        (Some e, h, m) \<Rightarrow> (Some e, None, w\<lparr>hnd := h, tab := m\<rparr>)
      | (None, h, m) \<Rightarrow>
          (case fn (disk w) of
             (e, v, f) \<Rightarrow>
               (case asLocked e of Some e' \<Rightarrow> Some e' | None \<Rightarrow> walErr E, v,
                w\<lparr>hnd := arm h, tab := m, disk := f\<rparr>)))"

text \<open>The usual use: a callback that returns either an error or a value, and a caller that
  returns the error and a zero value.\<close>

definition bodyOf :: "('f, err, 'a) act \<Rightarrow> 'f \<Rightarrow> err option \<times> 'a option \<times> 'f" where
  "bodyOf m f = (case m f of (Inl e, f') \<Rightarrow> (Some e, None, f') | (Inr x, f') \<Rightarrow> (None, Some x, f'))"

definition perform :: "doEnv \<Rightarrow> string \<Rightarrow> ('f, err, 'a) act \<Rightarrow> ('f world, err, 'a) act" where
  "perform E key m w =
     (case Do E key (bodyOf m) w of
        (None, Some x, w') \<Rightarrow> (Inr x, w')
      | (Some e, _, w') \<Rightarrow> (Inl e, w')
      | (None, None, w') \<Rightarrow> (Inl (unavail (hnd w)), w'))"

definition Ensure :: "doEnv \<Rightarrow> string \<Rightarrow> ('f world, err, unit) act" where
  "Ensure E key = perform E key (ok ())"

section \<open>The handle between two critical sections\<close>

text \<open>\<open>pending\<close> counts the firings still to come, the running ones included.\<close>

definition timerOk :: "handle \<Rightarrow> bool" where
  "timerOk h \<longleftrightarrow> pending h = int (inflight h) + (if timerActive h then 1 else 0) \<and> (timerActive h \<longrightarrow> timerSet h)"

text \<open>When nobody holds the mutex: an open database has a wakeup coming that will recognise
  itself as current, and a closed handle has no open database.\<close>

definition handleOk :: "handle \<Rightarrow> bool" where
  "handleOk h \<longleftrightarrow> timerOk h \<and> (db h \<longrightarrow> gen h = armed h \<and> pending h \<ge> 1) \<and> (closed h \<longrightarrow> \<not> db h)"

lemma timerOk_disarm [simp]: "timerOk h \<Longrightarrow> timerOk (disarm h)"
  by (auto simp: timerOk_def disarm_def Let_def)

lemma disarm_simps [simp]:
  "db (disarm h) = db h" "closed (disarm h) = closed h" "inflight (disarm h) = inflight h"
  "unavail (disarm h) = unavail h" "maxHold (disarm h) = maxHold h" "since (disarm h) = since h"
  "armed (disarm h) = armed h" "gen (disarm h) = gen h + 1"
  by (auto simp: disarm_def Let_def)

lemma disarm_inactive: "timerOk h \<Longrightarrow> \<not> timerActive (disarm h)"
  by (auto simp: timerOk_def disarm_def Let_def)

lemma arm_simps [simp]:
  "db (arm h) = db h" "closed (arm h) = closed h" "inflight (arm h) = inflight h"
  "unavail (arm h) = unavail h" "gen (arm h) = gen h" "armed (arm h) = gen h" "timerActive (arm h)"
  "maxHold (arm h) = maxHold h" "since (arm h) = since h"
  by (auto simp: arm_def Let_def)

lemma timerOk_arm [simp]: "timerOk h \<Longrightarrow> timerOk (arm h)"
  by (auto simp: timerOk_def arm_def Let_def)

lemma pending_arm: "timerOk h \<Longrightarrow> pending (arm h) \<ge> 1"
  using timerOk_arm [of h] by (simp add: timerOk_def)

lemma handleOk_arm: "timerOk h \<Longrightarrow> (closed h \<longrightarrow> \<not> db h) \<Longrightarrow> handleOk (arm h)"
  by (simp add: handleOk_def pending_arm)

lemma handleOk_fire: "handleOk h \<Longrightarrow> handleOk (fire h)"
  by (auto simp: handleOk_def timerOk_def fire_def)

lemma handleOk_NewHandle: "handleOk (NewHandle opts)"
  by (simp add: handleOk_def timerOk_def NewHandle_def)

lemma shutLocked_simps [simp]:
  "\<not> db (fst (shutLocked key (h, m)))"
  "closed (fst (shutLocked key (h, m))) = closed h"
  "inflight (fst (shutLocked key (h, m))) = inflight h"
  "unavail (fst (shutLocked key (h, m))) = unavail h"
  by (simp_all add: shutLocked_def Let_def)

lemma shutLocked_res:
  "shutLocked key (h, m) = (h', m') \<Longrightarrow> \<not> db h' \<and> closed h' = closed h \<and> inflight h' = inflight h
     \<and> unavail h' = unavail h"
  by (auto simp: shutLocked_def Let_def split: if_splits)

lemma timerOk_shut: "timerOk h \<Longrightarrow> timerOk (fst (shutLocked key (h, m)))"
  using timerOk_disarm [of h] by (auto simp: shutLocked_def Let_def timerOk_def)

lemma handleOk_shut: "timerOk h \<Longrightarrow> handleOk (fst (shutLocked key (h, m)))"
  by (simp add: handleOk_def timerOk_shut)

lemma handleOk_onIdle:
  assumes "handleOk h" "0 < inflight h"
  shows "handleOk (fst (onIdle key (h, m)))"
proof -
  let ?h1 = "h\<lparr>inflight := inflight h - 1, pending := pending h - 1\<rparr>"
  have t: "timerOk ?h1" using assms by (auto simp: handleOk_def timerOk_def)
  show ?thesis
  proof (cases "pending ?h1 > 0 \<or> closed ?h1 \<or> gen ?h1 \<noteq> armed ?h1")
    case True
    with assms t show ?thesis by (auto simp: onIdle_def handleOk_def Let_def)
  next
    case False
    then have "onIdle key (h, m) = shutLocked key (?h1, m)" by (simp add: onIdle_def Let_def)
    with handleOk_shut [OF t] show ?thesis by simp
  qed
qed

lemma handleOk_Close: "handleOk h \<Longrightarrow> handleOk (fst (Close key (h, m)))"
  unfolding Close_def using handleOk_shut [of "h\<lparr>closed := True\<rparr>" key m]
  by (simp add: handleOk_def timerOk_def)

text \<open>Draining: once nobody calls \<open>Do\<close>, letting the timer expire and running the wakeups under
  way closes the database.\<close>

fun drain :: "string \<Rightarrow> nat \<Rightarrow> handle \<times> locktab \<Rightarrow> handle \<times> locktab" where
  "drain key 0 hm = hm"
| "drain key (Suc n) hm = drain key n (onIdle key hm)"

lemma drain_closes:
  "handleOk h \<Longrightarrow> \<not> timerActive h \<Longrightarrow> inflight h = n \<Longrightarrow> \<not> db (fst (drain key n (h, m)))"
proof (induction n arbitrary: h m)
  case 0
  then show ?case by (auto simp: handleOk_def timerOk_def)
next
  case (Suc n)
  let ?h1 = "h\<lparr>inflight := inflight h - 1, pending := pending h - 1\<rparr>"
  obtain h' m' where o: "onIdle key (h, m) = (h', m')" by fastforce
  have ok: "handleOk h'" using handleOk_onIdle [OF Suc.prems(1), of key m] Suc.prems(3) o by simp
  have inact: "\<not> timerActive h'" "inflight h' = n"
    using o Suc.prems by (auto simp: onIdle_def shutLocked_def disarm_def Let_def split: if_splits)
  show ?case using Suc.IH [OF ok inact, of m'] o by simp
qed

section \<open>The lock table\<close>

text \<open>The entry for \<open>key\<close> when \<open>n\<close> open handles of the process share the file.\<close>

definition entryFor :: "nat \<Rightarrow> nat option" where
  "entryFor n = (if n = 0 then None else Some n)"

lemma release_entry: "m key = entryFor (Suc n) \<Longrightarrow> release key m = m(key := entryFor n)"
  by (auto simp: release_def entryFor_def)

lemma acquire_entry:
  "m key = entryFor n \<Longrightarrow> acquire fl key m =
     (if n = 0 \<and> fl \<noteq> None then (fl, m) else (None, m(key := entryFor (Suc n))))"
  by (auto simp: acquire_def entryFor_def split: option.split)

text \<open>\<open>others\<close>: how many handles of the process other than this one hold the file.\<close>

definition tabOk :: "string \<Rightarrow> nat \<Rightarrow> handle \<Rightarrow> locktab \<Rightarrow> bool" where
  "tabOk key others h m \<longleftrightarrow> m key = entryFor (others + (if db h then 1 else 0))"

lemma tabOk_shut:
  "tabOk key others h m \<Longrightarrow> shutLocked key (h, m) = (h', m') \<Longrightarrow> tabOk key others h' m' \<and> m' = m(key := entryFor others)"
  by (auto simp: shutLocked_def tabOk_def Let_def release_entry fun_upd_idem split: if_splits)

lemma tabOk_open:
  assumes "tabOk key others h m" "\<not> db h" "openLocked E key (h, m) = (e, h', m')"
  shows "tabOk key others h' m' \<and> (db h' \<longleftrightarrow> e = None)
    \<and> (e = None \<longrightarrow> h' = h\<lparr>db := True, since := openClock E\<rparr>) \<and> (e \<noteq> None \<longrightarrow> h' = h)"
  using assms
  by (auto simp: openLocked_def tabOk_def acquire_entry release_entry entryFor_def
      split: option.splits if_splits prod.splits) (metis option.exhaust)+

section \<open>What Do guarantees\<close>

lemma enter_ok:
  assumes h: "handleOk h" and t: "tabOk key others h m" and e: "enter E key (h, m) = (e, h', m')"
  shows "tabOk key others h' m' \<and> closed h' = closed h
    \<and> (if e = None then timerOk h' \<and> db h' \<and> \<not> closed h' else handleOk h')"
proof (cases "ctxStart E \<noteq> None \<or> closed h")
  case True
  with h t e show ?thesis by (auto simp: enter_def split: option.splits)
next
  case False
  let ?h1 = "disarm h"
  have h1: "timerOk ?h1" "\<not> closed ?h1" "tabOk key others ?h1 m"
    using h t False by (simp_all add: handleOk_def tabOk_def)
  have opened: "tabOk key others h' m' \<and> closed h' = closed h
      \<and> (if e = None then timerOk h' \<and> db h' \<and> \<not> closed h' else handleOk h')"
    if k: "timerOk k" "\<not> db k" "\<not> closed k" "tabOk key others k m1" and o: "openLocked E key (k, m1) = (e, h', m')"
    for k m1
    using tabOk_open [OF k(4,2) o] k False by (auto simp: timerOk_def handleOk_def)
  show ?thesis
  proof (cases "handsOff E ?h1")
    case True
    obtain h2 m2 where s: "shutLocked key (?h1, m) = (h2, m2)" by fastforce
    have h2: "timerOk h2" "\<not> db h2" "\<not> closed h2" "tabOk key others h2 m2"
      using timerOk_shut [OF h1(1), of key m] shutLocked_res [OF s] h1(2) tabOk_shut [OF h1(3) s] s
      by auto
    show ?thesis
    proof (cases "ctxYield E")
      case None
      have "timerOk (disarm h2)" "\<not> db (disarm h2)" "\<not> closed (disarm h2)" "tabOk key others (disarm h2) m2"
        using h2 by (simp_all add: tabOk_def)
      moreover have "openLocked E key (disarm h2, m2) = (e, h', m')"
        using e False True s h2 None by (simp add: enter_def yieldLocked_def split: option.splits)
      ultimately show ?thesis by (rule opened)
    next
      case (Some x)
      then have "e = Some x" "h' = h2" "m' = m2"
        using e False True s h2 by (simp_all add: enter_def yieldLocked_def split: option.splits)
      with h2 False show ?thesis by (simp add: handleOk_def)
    qed
  next
    case nh: False
    show ?thesis
    proof (cases "db ?h1")
      case True
      then have "e = None" "h' = ?h1" "m' = m"
        using e False nh by (simp_all add: enter_def Let_def split: option.splits)
      with h1 True False show ?thesis by simp
    next
      case ndb: False
      then have "openLocked E key (?h1, m) = (e, h', m')"
        using e False nh by (simp add: enter_def Let_def split: option.splits)
      with h1 ndb show ?thesis by (intro opened)
    qed
  qed
qed

definition worldOk :: "string \<Rightarrow> nat \<Rightarrow> 'f world \<Rightarrow> bool" where
  "worldOk key others w \<longleftrightarrow> handleOk (hnd w) \<and> tabOk key others (hnd w) (tab w)"

text \<open>\<open>Do\<close> returns an error without running the callback, or runs it exactly once.\<close>

lemma Do_cases:
  assumes "Do E key fn w = (e, v, w')"
  shows "e \<noteq> None \<and> v = None \<and> disk w' = disk w
    \<or> (\<exists>e0. fn (disk w) = (e0, v, disk w') \<and> e = (case asLocked e0 of Some x \<Rightarrow> Some x | None \<Rightarrow> walErr E))"
  using assms by (auto simp: Do_def split: prod.splits option.splits)

lemma Do_worldOk:
  assumes "worldOk key others w" "Do E key fn w = (e, v, w')"
  shows "worldOk key others w' \<and> closed (hnd w') = closed (hnd w)"
proof -
  obtain e1 h m where en: "enter E key (hnd w, tab w) = (e1, h, m)" by (metis prod_cases3)
  note ok = enter_ok [OF _ _ en, of others]
  show ?thesis
  proof (cases e1)
    case (Some x)
    with assms en ok show ?thesis by (auto simp: Do_def worldOk_def)
  next
    case None
    with assms en ok have "timerOk h" "\<not> closed h" "tabOk key others h m" "closed h = closed (hnd w)"
      by (auto simp: worldOk_def)
    with assms en None show ?thesis
      by (auto simp: Do_def worldOk_def tabOk_def handleOk_arm split: prod.splits)
  qed
qed

lemma Do_calm:
  assumes "worldOk key others w" "\<not> closed (hnd w)"
  shows "\<exists>h m. Do calm key fn w =
    (case fn (disk w) of (e, v, f) \<Rightarrow> (asLocked e, v, w\<lparr>hnd := arm h, tab := m, disk := f\<rparr>))"
proof -
  obtain e1 h m where en: "enter calm key (hnd w, tab w) = (e1, h, m)" by (metis prod_cases3)
  have "e1 = None"
    using en assms
    by (auto simp: enter_def calm_def openLocked_def acquire_def yieldLocked_def Let_def
        split: if_splits option.splits prod.splits dest: shutLocked_res)
  with en show ?thesis
    by (auto simp: Do_def calm_def split: prod.split option.split)
qed

section \<open>The interface the stores use\<close>

text \<open>A store sees of the handle only this: \<open>perform\<close> runs a computation on the data at most
  once, and reports success only when it ran and succeeded.  An error may still leave the
  computation done: the chmod of the write-ahead log comes after it.\<close>

locale store_access =
  fixes run :: "('db conn, err, 'r) act \<Rightarrow> ('w, err, 'r) act"
    and data :: "'w \<Rightarrow> 'db conn"
  assumes run_cases: "run m w = (r, w') \<Longrightarrow>
      (\<exists>e. r = Inl e) \<and> data w' = data w
    \<or> (\<exists>r0. m (data w) = (r0, data w') \<and> (\<forall>x. r = Inr x \<longrightarrow> r0 = Inr x))"
begin

lemma run_idle:
  assumes "atomically F m f" "idle_conn (data w)" "run m w = (r, w')"
  shows "idle_conn (data w')"
  using run_cases [OF assms(3)] assms(1,2) by (auto simp: atomically_def)

text \<open>Success is the meaning of the computation; anything else is all or nothing.\<close>

lemma run_success:
  assumes "atomically F m f" "idle_conn (data w)" "run m w = (Inr x, w')"
  shows "f (committed (data w)) = Inr (committed (data w'), x)"
  using run_cases [OF assms(3)] atomically_Inr [OF assms(1,2)] by auto

lemma run_all_or_nothing:
  assumes "atomically F m f" "idle_conn (data w)" "run m w = (r, w')"
  shows "committed (data w') = committed (data w) \<or> (\<exists>x. f (committed (data w)) = Inr (committed (data w'), x))"
proof -
  from run_cases [OF assms(3)] show ?thesis
  proof (elim disjE exE conjE)
    fix r0 assume m: "m (data w) = (r0, data w')"
    show ?thesis
    proof (cases r0)
      case (Inl e)
      with m atomically_Inl [OF assms(1,2)] show ?thesis by blast
    next
      case (Inr x)
      with m atomically_Inr [OF assms(1,2)] show ?thesis by blast
    qed
  qed simp
qed

lemma run_invariant:
  assumes "atomically F m f" "idle_conn (data w)" "run m w = (r, w')"
    and "\<And>d d' x. I d \<Longrightarrow> f d = Inr (d', x) \<Longrightarrow> I d'" "I (committed (data w))"
  shows "I (committed (data w'))"
  using run_all_or_nothing [OF assms(1-3)] assms(4,5) by auto

end

lemma perform_cases:
  "perform E key m w = (r, w') \<Longrightarrow>
      (\<exists>e. r = Inl e) \<and> disk w' = disk w
    \<or> (\<exists>r0. m (disk w) = (r0, disk w') \<and> (\<forall>x. r = Inr x \<longrightarrow> r0 = Inr x))"
proof -
  assume p: "perform E key m w = (r, w')"
  obtain e v w1 where d: "Do E key (bodyOf m) w = (e, v, w1)" by (metis prod_cases3)
  from p d have w1: "w1 = w'" by (auto simp: perform_def split: option.splits)
  from Do_cases [OF d] p d w1 show ?thesis
    by (auto simp: perform_def bodyOf_def split: option.splits prod.splits sum.splits)
qed

interpretation duck: store_access "perform E key" "disk" for E key
  by unfold_locales (rule perform_cases)

section \<open>Properties\<close>

text \<open>Claim C7: every call of \<open>Do\<close>, whatever it meets outside (a cancelled context, a waiting
  process, a lock that cannot be had, a database that does not open, a callback that fails),
  keeps the handle consistent: the count of owed wakeups is exact, an open database has a
  current wakeup coming, the process's lock entry counts exactly its open handles, and a closed
  handle stays closed without an open database.\<close>

theorem Do_keeps_handle_consistent:
  assumes "worldOk key others w" "Do E key fn w = (e, v, w')"
  shows "pending (hnd w') = int (inflight (hnd w')) + (if timerActive (hnd w') then 1 else 0)
    \<and> (db (hnd w') \<longrightarrow> gen (hnd w') = armed (hnd w') \<and> pending (hnd w') \<ge> 1)
    \<and> tab w' key = entryFor (others + (if db (hnd w') then 1 else 0))
    \<and> (closed (hnd w) \<longrightarrow> closed (hnd w') \<and> \<not> db (hnd w') \<and> e \<noteq> None \<and> disk w' = disk w)"
proof -
  have "closed (hnd w) \<Longrightarrow> e \<noteq> None \<and> disk w' = disk w"
    using assms(2)
    by (auto simp: Do_def enter_def split: prod.splits option.splits if_splits; metis)
  with Do_worldOk [OF assms] show ?thesis
    by (auto simp: worldOk_def handleOk_def timerOk_def tabOk_def)
qed

definition freshWorld :: "'f \<Rightarrow> 'f world" where
  "freshWorld f = \<lparr>hnd = NewHandle \<lparr>Idle = 0, Timeout = 0, MaxHold = 0, Unavailable = None\<rparr>, tab = (\<lambda>_. None), disk = f\<rparr>"

lemma worldOk_freshWorld: "worldOk key 0 (freshWorld f)"
  by (simp add: worldOk_def freshWorld_def handleOk_NewHandle tabOk_def entryFor_def)
    (simp add: NewHandle_def)

lemma closed_freshWorld [simp]: "\<not> closed (hnd (freshWorld f))" "\<not> db (hnd (freshWorld f))" "disk (freshWorld f) = f"
  by (simp_all add: freshWorld_def NewHandle_def)

theorem Do_keeps_handle_consistent_witness:
  "\<exists>v w'. Do calm ''k'' (\<lambda>n. (None, Some n, n + 1)) (freshWorld (1::nat)) = (None, v, w')
     \<and> db (hnd w') \<and> tab w' ''k'' = Some 1 \<and> pending (hnd w') \<ge> 1"
proof -
  obtain e v w' where d: "Do calm ''k'' (\<lambda>n. (None, Some n, n + 1)) (freshWorld (1::nat)) = (e, v, w')"
    by (metis prod_cases3)
  have "e = None \<and> db (hnd w')"
    using d by (auto simp: Do_def enter_def calm_def freshWorld_def NewHandle_def handsOff_def openLocked_def
        acquire_def Let_def disarm_def arm_def)
  with Do_keeps_handle_consistent [OF worldOk_freshWorld d] d show ?thesis
    by (auto simp: entryFor_def)
qed

lemma Do_armed:
  assumes "worldOk key others w" "Do E key fn w = (e, v, w')" "ctxStart E = None" "db (hnd w')"
  shows "timerActive (hnd w')"
proof -
  obtain e1 h m where en: "enter E key (hnd w, tab w) = (e1, h, m)" by (metis prod_cases3)
  show ?thesis
  proof (cases e1)
    case None
    with assms(2) en show ?thesis by (auto simp: Do_def split: prod.splits)
  next
    case (Some x)
    with assms(2) en have "h = hnd w'" by (auto simp: Do_def)
    moreover have "\<not> db h"
    proof (cases "closed (hnd w)")
      case True
      with en assms(1,3) Some show ?thesis by (auto simp: enter_def worldOk_def handleOk_def)
    next
      case False
      have opened: "\<not> db h" if "openLocked E key (k, m1) = (Some x, h, m)" "\<not> db k" for k m1
        using that by (auto simp: openLocked_def split: prod.splits option.splits)
      from en assms(3) Some False show ?thesis
        by (auto simp: enter_def yieldLocked_def Let_def
            split: if_splits prod.splits option.splits dest: shutLocked_res opened)
    qed
    ultimately show ?thesis using assms(4) by simp
  qed
qed

lemma drain_stale:
  "handleOk h \<Longrightarrow> timerActive h \<Longrightarrow> inflight h = n \<Longrightarrow> db (fst (drain key n (h, m))) = db h"
proof (induction n arbitrary: h m)
  case 0
  then show ?case by simp
next
  case (Suc n)
  let ?h1 = "h\<lparr>inflight := n, pending := pending h - 1\<rparr>"
  have "pending ?h1 > 0" using Suc.prems by (simp add: handleOk_def timerOk_def)
  then have o: "onIdle key (h, m) = (?h1, m)" using Suc.prems(3) by (simp add: onIdle_def Let_def)
  have "handleOk ?h1" using handleOk_onIdle [OF Suc.prems(1), of key m] Suc.prems(3) o by simp
  from Suc.IH [OF this, of m] Suc.prems o show ?case by simp
qed

text \<open>Claim C8: after a call of \<open>Do\<close> that leaves the database open, the wakeups that were
  already under way are all recognised as stale and leave it open, and when the countdown the
  call started does expire, the database is closed once the wakeups have run: the file is
  neither pulled from under later work nor held for good.\<close>

theorem idle_database_is_closed_exactly_once_due:
  assumes "worldOk key others w" "Do E key fn w = (e, v, w')" "ctxStart E = None" "db (hnd w')"
  shows "db (fst (drain key (inflight (hnd w')) (hnd w', tab w')))
    \<and> \<not> db (fst (drain key (inflight (fire (hnd w'))) (fire (hnd w'), tab w')))"
proof -
  from Do_worldOk [OF assms(1,2)] have ok: "handleOk (hnd w')" by (simp add: worldOk_def)
  have act: "timerActive (hnd w')" using assms by (rule Do_armed)
  have "\<not> timerActive (fire (hnd w'))" by (simp add: fire_def)
  with drain_closes [OF handleOk_fire [OF ok]] drain_stale [OF ok act refl] assms(4)
  show ?thesis by blast
qed

theorem idle_database_is_closed_exactly_once_due_witness:
  "\<exists>w'. Do calm ''k'' (\<lambda>n. (None, Some n, n + 1)) (freshWorld (1::nat)) = (None, Some 1, w') \<and> db (hnd w')
     \<and> \<not> db (fst (drain ''k'' (inflight (fire (hnd w'))) (fire (hnd w'), tab w')))"
proof -
  obtain e v w' where d: "Do calm ''k'' (\<lambda>n. (None, Some n, n + 1)) (freshWorld (1::nat)) = (e, v, w')"
    by (metis prod_cases3)
  have "e = None \<and> v = Some 1 \<and> db (hnd w')"
    using d by (auto simp: Do_def enter_def calm_def freshWorld_def NewHandle_def handsOff_def openLocked_def
        acquire_def Let_def disarm_def arm_def)
  with idle_database_is_closed_exactly_once_due [OF worldOk_freshWorld d] d show ?thesis
    by (auto simp: calm_def)
qed

end
