(* ===== verification/HandleSystem.thy ===== *)
theory HandleSystem
  imports Handle
begin

text \<open>
  The handles of src/internal/duckdb/handle.go running together: any number of handles, in
  any number of processes, on any number of files, their calls of \<open>Do\<close> and \<open>Close\<close>, their
  idle timers, and outside users of the lock files (\<open>AcquireLock\<close>), interleaved at every
  point where the code gives up a mutex.  A step is one critical section: under the mutex of
  one handle, or under \<open>locks.mu\<close> within it.  \<open>phase\<close> says how far the call that holds the
  handle's mutex has come; \<open>yielding\<close> counts the calls that are in the gap of
  \<open>yieldLocked\<close>, which holds no mutex.  The advisory file lock is the operating system's:
  exclusive, held by one open file at a time.
\<close>

datatype phase = Free | Acquiring | Waiting | Locked | Acquired | Running

text \<open>Who holds the lock file of a path: the entry in a process's table, a handle that has just
  taken it and not yet entered it, or somebody outside.\<close>

datatype holder = Entry nat | Fd nat | Outside nat

record topology =
  proc_of :: "nat \<Rightarrow> nat"
  path_of :: "nat \<Rightarrow> string"

record sys =
  hs :: "nat \<Rightarrow> handle"
  phase :: "nat \<Rightarrow> phase"
  yielding :: "nat \<Rightarrow> nat"
  tabs :: "nat \<Rightarrow> locktab"
  flk :: "string \<Rightarrow> holder option"

text \<open>An operation on one handle and its process's lock table, and the file lock: \<open>release\<close>
  unlocks the file when it drops the entry.\<close>

definition onHandle :: "topology \<Rightarrow> nat \<Rightarrow> (string \<Rightarrow> handle \<times> locktab \<Rightarrow> handle \<times> locktab) \<Rightarrow> sys \<Rightarrow> sys" where
  "onHandle T i f s =
     (let k = path_of T i; p = proc_of T i; (h', m') = f k (hs s i, tabs s p)
      in s\<lparr>hs := (hs s)(i := h'), tabs := (tabs s)(p := m'),
           flk := (if tabs s p k \<noteq> None \<and> m' k = None then (flk s)(k := None) else flk s)\<rparr>)"

abbreviation entryOf :: "topology \<Rightarrow> sys \<Rightarrow> nat \<Rightarrow> nat option" where
  "entryOf T s i \<equiv> tabs s (proc_of T i) (path_of T i)"

definition setEntry :: "topology \<Rightarrow> nat \<Rightarrow> nat option \<Rightarrow> sys \<Rightarrow> sys" where
  "setEntry T i r s = s\<lparr>tabs := (tabs s)(proc_of T i := (tabs s (proc_of T i))(path_of T i := r))\<rparr>"

definition setPhase :: "nat \<Rightarrow> phase \<Rightarrow> sys \<Rightarrow> sys" where
  "setPhase i ph s = s\<lparr>phase := (phase s)(i := ph)\<rparr>"

definition setHandle :: "nat \<Rightarrow> handle \<Rightarrow> sys \<Rightarrow> sys" where
  "setHandle i h s = s\<lparr>hs := (hs s)(i := h)\<rparr>"

definition setFlock :: "string \<Rightarrow> holder option \<Rightarrow> sys \<Rightarrow> sys" where
  "setFlock k x s = s\<lparr>flk := (flk s)(k := x)\<rparr>"

definition setYielding :: "nat \<Rightarrow> nat \<Rightarrow> sys \<Rightarrow> sys" where
  "setYielding i n s = s\<lparr>yielding := (yielding s)(i := n)\<rparr>"

inductive step :: "topology \<Rightarrow> sys \<Rightarrow> sys \<Rightarrow> bool" for T where
  enter_handoff: "phase s i = Free \<Longrightarrow> \<not> closed (hs s i) \<Longrightarrow> db (hs s i) \<Longrightarrow>
     step T s (setYielding i (Suc (yielding s i)) (onHandle T i (\<lambda>k (h, m). shutLocked k (disarm h, m)) s))"
| enter_open: "phase s i = Free \<Longrightarrow> \<not> closed (hs s i) \<Longrightarrow> db (hs s i) \<Longrightarrow>
     step T s (setPhase i Running (setHandle i (disarm (hs s i)) s))"
| enter_shut: "phase s i = Free \<Longrightarrow> \<not> closed (hs s i) \<Longrightarrow> \<not> db (hs s i) \<Longrightarrow>
     step T s (setPhase i Acquiring (setHandle i (disarm (hs s i)) s))"
| yield_fail: "phase s i = Free \<Longrightarrow> yielding s i = Suc n \<Longrightarrow> step T s (setYielding i n s)"
| yield_resume: "phase s i = Free \<Longrightarrow> yielding s i = Suc n \<Longrightarrow> \<not> closed (hs s i) \<Longrightarrow>
     step T s (setYielding i n (setPhase i (if db (hs s i) then Running else Acquiring)
       (setHandle i (disarm (hs s i)) s)))"
| share: "phase s i = Acquiring \<Longrightarrow> entryOf T s i = Some r \<Longrightarrow>
     step T s (setPhase i Acquired (setEntry T i (Some (r + 1)) s))"
| miss: "phase s i = Acquiring \<Longrightarrow> entryOf T s i = None \<Longrightarrow> step T s (setPhase i Waiting s)"
| timeout: "phase s i = Waiting \<Longrightarrow> step T s (setPhase i Free s)"
| flock: "phase s i = Waiting \<Longrightarrow> flk s (path_of T i) = None \<Longrightarrow>
     step T s (setPhase i Locked (setFlock (path_of T i) (Some (Fd i)) s))"
| insert_shared: "phase s i = Locked \<Longrightarrow> entryOf T s i = Some r \<Longrightarrow>
     step T s (setPhase i Acquired (setFlock (path_of T i) None (setEntry T i (Some (r + 1)) s)))"
| insert_new: "phase s i = Locked \<Longrightarrow> entryOf T s i = None \<Longrightarrow>
     step T s (setPhase i Acquired (setFlock (path_of T i) (Some (Entry (proc_of T i))) (setEntry T i (Some 1) s)))"
| opened: "phase s i = Acquired \<Longrightarrow>
     step T s (setPhase i Running (setHandle i ((hs s i)\<lparr>db := True, since := t\<rparr>) s))"
| open_failed: "phase s i = Acquired \<Longrightarrow>
     step T s (setPhase i Free (onHandle T i (\<lambda>k (h, m). (h, release k m)) s))"
| finish: "phase s i = Running \<Longrightarrow> step T s (setPhase i Free (setHandle i (arm (hs s i)) s))"
| expire: "step T s (setHandle i (fire (hs s i)) s)"
| wakeup: "phase s i = Free \<Longrightarrow> 0 < inflight (hs s i) \<Longrightarrow> step T s (onHandle T i onIdle s)"
| close: "phase s i = Free \<Longrightarrow> step T s (onHandle T i Close s)"
| outside_lock: "flk s k = None \<Longrightarrow> step T s (setFlock k (Some (Outside n)) s)"
| outside_unlock: "flk s k = Some (Outside n) \<Longrightarrow> step T s (setFlock k None s)"

inductive reach :: "topology \<Rightarrow> sys \<Rightarrow> bool" for T where
  start: "(\<And>i. hs s i = NewHandle (opts i)) \<Longrightarrow> (\<And>i. phase s i = Free) \<Longrightarrow> (\<And>i. yielding s i = 0) \<Longrightarrow>
     (\<And>p. tabs s p = Map.empty) \<Longrightarrow> (\<And>k. flk s k = None) \<Longrightarrow> reach T s"
| step: "reach T s \<Longrightarrow> step T s s' \<Longrightarrow> reach T s'"

section \<open>The invariant\<close>

definition holds :: "sys \<Rightarrow> nat \<Rightarrow> bool" where
  "holds s i \<longleftrightarrow> db (hs s i) \<or> phase s i = Acquired"

definition holders :: "topology \<Rightarrow> sys \<Rightarrow> nat \<Rightarrow> string \<Rightarrow> nat set" where
  "holders T s p k = {i. proc_of T i = p \<and> path_of T i = k \<and> holds s i}"

text \<open>Each process's entry counts its holders of the file; the file lock is the entry's, or that
  of a handle about to enter it.\<close>

definition tabInv :: "topology \<Rightarrow> sys \<Rightarrow> bool" where
  "tabInv T s \<longleftrightarrow> (\<forall>p k. finite (holders T s p k) \<and> tabs s p k = entryFor (card (holders T s p k)))"

definition lockInv :: "topology \<Rightarrow> sys \<Rightarrow> bool" where
  "lockInv T s \<longleftrightarrow> (\<forall>p k. tabs s p k \<noteq> None \<longleftrightarrow> flk s k = Some (Entry p))
     \<and> (\<forall>i k. flk s k = Some (Fd i) \<longleftrightarrow> phase s i = Locked \<and> path_of T i = k)"

definition handleInv :: "sys \<Rightarrow> nat \<Rightarrow> bool" where
  "handleInv s i \<longleftrightarrow> timerOk (hs s i) \<and>
     (case phase s i of
        Free \<Rightarrow> handleOk (hs s i)
      | Running \<Rightarrow> db (hs s i) \<and> \<not> closed (hs s i)
      | _ \<Rightarrow> \<not> db (hs s i) \<and> \<not> closed (hs s i))"

definition sysInv :: "topology \<Rightarrow> sys \<Rightarrow> bool" where
  "sysInv T s \<longleftrightarrow> tabInv T s \<and> lockInv T s \<and> (\<forall>i. handleInv s i)"

lemmas set_defs = setEntry_def setPhase_def setHandle_def setFlock_def setYielding_def

lemma set_simps [simp]:
  "hs (setEntry T i r s) = hs s" "phase (setEntry T i r s) = phase s" "flk (setEntry T i r s) = flk s"
  "tabs (setEntry T i r s) = (tabs s)(proc_of T i := (tabs s (proc_of T i))(path_of T i := r))"
  "hs (setPhase i ph s) = hs s" "phase (setPhase i ph s) = (phase s)(i := ph)" "flk (setPhase i ph s) = flk s"
  "tabs (setPhase i ph s) = tabs s" "hs (setHandle i h s) = (hs s)(i := h)" "phase (setHandle i h s) = phase s"
  "flk (setHandle i h s) = flk s" "tabs (setHandle i h s) = tabs s"
  "hs (setFlock k x s) = hs s" "phase (setFlock k x s) = phase s" "flk (setFlock k x s) = (flk s)(k := x)"
  "tabs (setFlock k x s) = tabs s"
  "hs (setYielding i n s) = hs s" "phase (setYielding i n s) = phase s" "flk (setYielding i n s) = flk s"
  "tabs (setYielding i n s) = tabs s" "yielding (setYielding i n s) = (yielding s)(i := n)"
  by (simp_all add: set_defs)

lemma holders_cong: "(\<And>j. holds s' j = holds s j) \<Longrightarrow> holders T s' p k = holders T s p k"
  by (simp add: holders_def)

lemma holders_add:
  assumes "\<And>j. holds s' j \<longleftrightarrow> holds s j \<or> j = i" "\<not> holds s i"
  shows "holders T s' p k = (if p = proc_of T i \<and> k = path_of T i then insert i (holders T s p k) else holders T s p k)"
  using assms by (auto simp: holders_def)

lemma holders_del:
  assumes "\<And>j. holds s' j \<longleftrightarrow> holds s j \<and> j \<noteq> i" "holds s i"
  shows "holders T s' p k = (if p = proc_of T i \<and> k = path_of T i then holders T s p k - {i} else holders T s p k)"
  using assms by (auto simp: holders_def)

lemma entryFor_None [simp]: "entryFor n = None \<longleftrightarrow> n = 0"
  by (simp add: entryFor_def)

lemma tabInv_add:
  assumes "tabInv T s" "\<And>j. holds s' j \<longleftrightarrow> holds s j \<or> j = i" "\<not> holds s i"
    and "tabs s' = (tabs s)(proc_of T i := (tabs s (proc_of T i))(path_of T i := r))"
    and "r = (case entryOf T s i of None \<Rightarrow> Some 1 | Some n \<Rightarrow> Some (n + 1))"
  shows "tabInv T s'"
proof -
  have "i \<notin> holders T s (proc_of T i) (path_of T i)" using assms(3) by (simp add: holders_def)
  then have "r = entryFor (card (insert i (holders T s (proc_of T i) (path_of T i))))"
    using assms(1,5) by (auto simp: tabInv_def entryFor_def split: option.splits)
  with assms(1,4) show ?thesis
    by (auto simp: tabInv_def holders_add [OF assms(2,3)])
qed

lemma holder_entry: "tabInv T s \<Longrightarrow> holds s i \<Longrightarrow> entryOf T s i = entryFor (Suc (card (holders T s (proc_of T i) (path_of T i) - {i})))"
  using card.remove [of "holders T s (proc_of T i) (path_of T i)" i]
  by (simp add: tabInv_def holders_def)

lemma tabInv_del:
  assumes "tabInv T s" "\<And>j. holds s' j \<longleftrightarrow> holds s j \<and> j \<noteq> i" "holds s i"
    and "tabs s' = (tabs s)(proc_of T i := release (path_of T i) (tabs s (proc_of T i)))"
  shows "tabInv T s'"
proof -
  have "release (path_of T i) (tabs s (proc_of T i))
      = (tabs s (proc_of T i))(path_of T i := entryFor (card (holders T s (proc_of T i) (path_of T i) - {i})))"
    by (rule release_entry) (rule holder_entry [OF assms(1,3)])
  with assms(1,4) show ?thesis
    by (auto simp: tabInv_def holders_del [OF assms(2,3)])
qed


text \<open>The invariant follows from what a step changes: nothing about holders and locks, one holder
  less, or one more.\<close>

lemma handleInv_cong: "hs s' j = hs s j \<Longrightarrow> phase s' j = phase s j \<Longrightarrow> handleInv s' j = handleInv s j"
  by (simp only: handleInv_def)

lemma lockInv_tab: "lockInv T s \<Longrightarrow> tabs s q k \<noteq> None \<longleftrightarrow> flk s k = Some (Entry q)"
  by (simp only: lockInv_def)

lemma lockInv_fd: "lockInv T s \<Longrightarrow> flk s k = Some (Fd j) \<longleftrightarrow> phase s j = Locked \<and> path_of T j = k"
  by (simp only: lockInv_def)

lemma sysInvI:
  assumes "tabInv T s" "lockInv T s" "tabs s' = tabs s" "flk s' = flk s" "\<And>p k. holders T s' p k = holders T s p k"
    and "\<And>j. phase s' j = Locked \<longleftrightarrow> phase s j = Locked" "\<And>j. handleInv s' j"
  shows "sysInv T s'"
proof -
  have "tabInv T s'" using assms(1) by (simp add: tabInv_def assms(3,5))
  moreover have "lockInv T s'"
    using lockInv_tab [OF assms(2)] lockInv_fd [OF assms(2)] unfolding lockInv_def assms(3,4,6) by blast
  ultimately show ?thesis using assms(7) by (simp add: sysInv_def)
qed

lemma sysInv_frame:
  assumes "sysInv T s" "tabs s' = tabs s" "flk s' = flk s"
    and "\<And>j. j \<noteq> i \<Longrightarrow> hs s' j = hs s j \<and> phase s' j = phase s j"
    and "holds s' i = holds s i" "phase s' i = Locked \<longleftrightarrow> phase s i = Locked" "handleInv s' i"
  shows "sysInv T s'"
proof -
  have h: "holds s' j = holds s j" for j
    using assms(4) [of j] assms(5) by (cases "j = i") (simp_all add: holds_def)
  moreover have "phase s' j = Locked \<longleftrightarrow> phase s j = Locked" for j
    using assms(4) [of j] assms(6) by (cases "j = i") simp_all
  moreover have "handleInv s j" for j using assms(1) by (simp add: sysInv_def)
  then have "handleInv s' j" for j
    using assms(4) [of j] assms(7) handleInv_cong [of s' j s] by (cases "j = i") simp_all
  moreover from h have "\<And>p k. holders T s' p k = holders T s p k" by (rule holders_cong)
  moreover have "tabInv T s" "lockInv T s" using assms(1) by (simp_all add: sysInv_def)
  ultimately show ?thesis using assms(2,3) by (blast intro: sysInvI)
qed

lemma lockInv_entry: "lockInv T s \<Longrightarrow> tabs s p k = Some r \<Longrightarrow> flk s k = Some (Entry p)"
  unfolding lockInv_def by blast

lemma release_other: "k' \<noteq> k \<Longrightarrow> release k m k' = m k'"
  by (simp add: release_def split: option.split)

lemma lockInv_release:
  assumes "lockInv T s" "tabs s p k = Some r" "tabs s' = (tabs s)(p := release k (tabs s p))"
    and "flk s' = (if release k (tabs s p) k = None then (flk s)(k := None) else flk s)"
    and "\<And>j. phase s' j = Locked \<longleftrightarrow> phase s j = Locked"
  shows "lockInv T s'"
proof -
  have f: "flk s k = Some (Entry p)" using assms(1,2) by (rule lockInv_entry)
  have l: "tabs s q k' \<noteq> None \<longleftrightarrow> flk s k' = Some (Entry q)" for q k'
    using assms(1) by (simp add: lockInv_def)
  have l': "flk s k' = Some (Fd i) \<longleftrightarrow> phase s i = Locked \<and> path_of T i = k'" for i k'
    using assms(1) by (simp add: lockInv_def)
  have only: "tabs s q k \<noteq> None \<Longrightarrow> q = p" for q using l [of q k] f by simp
  have fd: "phase s i = Locked \<Longrightarrow> path_of T i \<noteq> k" for i using l' [of k i] f by simp
  have "(tabs s' q k' \<noteq> None) = (flk s' k' = Some (Entry q))" for q k'
  proof (cases "k' = k")
    case False
    then have "flk s' k' = flk s k'" "tabs s' q k' = tabs s q k'"
      by (simp_all add: assms(3,4) release_other)
    with l [of q k'] show ?thesis by simp
  next
    case True
    show ?thesis
    proof (cases "q = p")
      case False
      with only have "tabs s q k = None" by blast
      with False True f show ?thesis by (simp add: assms(3,4))
    next
      case q: True
      with True f show ?thesis by (simp add: assms(3,4))
    qed
  qed
  moreover have "(flk s' k' = Some (Fd i)) = (phase s' i = Locked \<and> path_of T i = k')" for i k'
  proof (cases "k' = k")
    case True
    with f have "flk s' k' \<noteq> Some (Fd i)" by (simp add: assms(4))
    with True fd [of i] show ?thesis by (auto simp: assms(5))
  next
    case False
    then have "flk s' k' = flk s k'" by (simp add: assms(4))
    with l' [of k' i] show ?thesis by (simp add: assms(5))
  qed
  ultimately show ?thesis by (simp add: lockInv_def)
qed

lemma sysInv_release:
  assumes "sysInv T s" "holds s i" "\<not> holds s' i"
    and "tabs s' = (tabs s)(proc_of T i := release (path_of T i) (tabs s (proc_of T i)))"
    and "flk s' = (if release (path_of T i) (tabs s (proc_of T i)) (path_of T i) = None
                   then (flk s)(path_of T i := None) else flk s)"
    and "\<And>j. j \<noteq> i \<Longrightarrow> hs s' j = hs s j \<and> phase s' j = phase s j"
    and "phase s' i \<noteq> Locked" "phase s i \<noteq> Locked" "handleInv s' i"
  shows "sysInv T s'"
proof -
  have inv: "tabInv T s" "lockInv T s" "\<And>j. handleInv s j" using assms(1) by (simp_all add: sysInv_def)
  have "holds s' j \<longleftrightarrow> holds s j \<and> j \<noteq> i" for j
    using assms(3,6) by (cases "j = i") (simp_all add: holds_def)
  from tabInv_del [OF inv(1) this assms(2,4)] have "tabInv T s'" .
  moreover have "phase s' j = Locked \<longleftrightarrow> phase s j = Locked" for j
    using assms(6-8) by (cases "j = i") simp_all
  with inv(2) holder_entry [OF inv(1) assms(2)] assms(4,5) have "lockInv T s'"
    by (intro lockInv_release [where s = s and s' = s' and r = "Suc (card (holders T s (proc_of T i) (path_of T i) - {i}))"])
      (simp_all add: entryFor_def)
  moreover have "handleInv s' j" for j
    using inv(3) [of j] assms(6) [of j] assms(9) handleInv_cong [of s' j s] by (cases "j = i") simp_all
  ultimately show ?thesis by (simp add: sysInv_def)
qed


lemma sysInv_add:
  assumes "sysInv T s" "\<not> holds s i" "phase s' i = Acquired" "hs s' = hs s"
    and "\<And>j. j \<noteq> i \<Longrightarrow> phase s' j = phase s j"
    and "tabs s' = (tabs s)(proc_of T i := (tabs s (proc_of T i))(path_of T i := r))"
    and "r = (case entryOf T s i of None \<Rightarrow> Some 1 | Some n \<Rightarrow> Some (n + 1))"
    and "lockInv T s'" "handleInv s' i"
  shows "sysInv T s'"
proof -
  have inv: "tabInv T s" "\<And>j. handleInv s j" using assms(1) by (simp_all add: sysInv_def)
  have "holds s' j \<longleftrightarrow> holds s j \<or> j = i" for j
    using assms(3-5) by (cases "j = i") (simp_all add: holds_def)
  from tabInv_add [OF inv(1) this assms(2,6,7)] have "tabInv T s'" .
  moreover have "handleInv s' j" for j
    using inv(2) [of j] assms(4) assms(5) [of j] assms(9) handleInv_cong [of s' j s] by (cases "j = i") simp_all
  ultimately show ?thesis using assms(8) by (simp add: sysInv_def)
qed

text \<open>A change at one path only.\<close>

lemma lockInv_at:
  assumes "lockInv T s" "\<And>k. k \<noteq> k0 \<Longrightarrow> flk s' k = flk s k" "\<And>p k. k \<noteq> k0 \<Longrightarrow> tabs s' p k = tabs s p k"
    and "\<And>j. path_of T j \<noteq> k0 \<Longrightarrow> phase s' j = Locked \<longleftrightarrow> phase s j = Locked"
    and "\<And>p. tabs s' p k0 \<noteq> None \<longleftrightarrow> flk s' k0 = Some (Entry p)"
    and "\<And>j. flk s' k0 = Some (Fd j) \<longleftrightarrow> phase s' j = Locked \<and> path_of T j = k0"
  shows "lockInv T s'"
  unfolding lockInv_def
proof (intro conjI allI)
  fix p k
  show "(tabs s' p k \<noteq> None) = (flk s' k = Some (Entry p))"
    using assms(2) [of k] assms(3) [of k p] assms(5) [of p] lockInv_tab [OF assms(1), of p k]
    by (cases "k = k0") simp_all
next
  fix j k
  show "(flk s' k = Some (Fd j)) = (phase s' j = Locked \<and> path_of T j = k)"
    using assms(2) [of k] assms(4) [of j] assms(6) [of j] lockInv_fd [OF assms(1), of k j]
    by (cases "k = k0") auto
qed

lemma lockInv_share:
  assumes "lockInv T s" "phase s i = Acquiring" "entryOf T s i = Some r"
  shows "lockInv T (setPhase i Acquired (setEntry T i (Some (r + 1)) s))"
proof (rule lockInv_at [OF assms(1), where ?k0.0 = "path_of T i"])
  fix p
  show "(tabs (setPhase i Acquired (setEntry T i (Some (r + 1)) s)) p (path_of T i) \<noteq> None)
    = (flk (setPhase i Acquired (setEntry T i (Some (r + 1)) s)) (path_of T i) = Some (Entry p))"
    using lockInv_tab [OF assms(1), of p "path_of T i"] assms(3) by (cases "p = proc_of T i") simp_all
next
  fix j
  show "(flk (setPhase i Acquired (setEntry T i (Some (r + 1)) s)) (path_of T i) = Some (Fd j))
    = (phase (setPhase i Acquired (setEntry T i (Some (r + 1)) s)) j = Locked \<and> path_of T j = path_of T i)"
    using lockInv_fd [OF assms(1), of "path_of T i" j] assms(2) by simp
qed (use assms(2) in auto)

lemma lockInv_insert:
  assumes "lockInv T s" "phase s i = Locked"
  shows "lockInv T (setPhase i Acquired (setFlock (path_of T i) (Some (Entry (proc_of T i))) (setEntry T i (Some 1) s)))"
    (is "lockInv T ?s")
proof (rule lockInv_at [OF assms(1), where ?k0.0 = "path_of T i"])
  have me: "flk s (path_of T i) = Some (Fd i)" using lockInv_fd [OF assms(1)] assms(2) by blast
  show "(tabs ?s p (path_of T i) \<noteq> None) = (flk ?s (path_of T i) = Some (Entry p))" for p
    using lockInv_tab [OF assms(1), of p "path_of T i"] me by simp
  show "(flk ?s (path_of T i) = Some (Fd j)) = (phase ?s j = Locked \<and> path_of T j = path_of T i)" for j
    using lockInv_fd [OF assms(1), of "path_of T i" j] me by auto
qed (use assms(2) in auto)

lemma lockInv_flock:
  assumes "lockInv T s" "phase s i = Waiting" "flk s (path_of T i) = None"
  shows "lockInv T (setPhase i Locked (setFlock (path_of T i) (Some (Fd i)) s))" (is "lockInv T ?s")
proof (rule lockInv_at [OF assms(1), where ?k0.0 = "path_of T i"])
  show "(tabs ?s p (path_of T i) \<noteq> None) = (flk ?s (path_of T i) = Some (Entry p))" for p
    using lockInv_tab [OF assms(1), of p "path_of T i"] assms(3) by simp
  show "(flk ?s (path_of T i) = Some (Fd j)) = (phase ?s j = Locked \<and> path_of T j = path_of T i)" for j
    using lockInv_fd [OF assms(1), of "path_of T i" j] assms(3) by auto
qed (use assms(2) in auto)

lemma lockInv_outside:
  assumes "lockInv T s" "flk s k = None \<or> (\<exists>n. flk s k = Some (Outside n))" "x = None \<or> (\<exists>n. x = Some (Outside n))"
  shows "lockInv T (setFlock k x s)"
proof (rule lockInv_at [OF assms(1), where ?k0.0 = k])
  show "(tabs (setFlock k x s) p k \<noteq> None) = (flk (setFlock k x s) k = Some (Entry p))" for p
    using lockInv_tab [OF assms(1), of p k] assms(2,3) by auto
  show "(flk (setFlock k x s) k = Some (Fd j)) = (phase (setFlock k x s) j = Locked \<and> path_of T j = k)" for j
    using lockInv_fd [OF assms(1), of k j] assms(2,3) by auto
qed auto

text \<open>Locks taken and given back outside: no handle is concerned.\<close>

lemma sysInv_outside:
  assumes "sysInv T s" "flk s k = None \<or> (\<exists>n. flk s k = Some (Outside n))" "x = None \<or> (\<exists>n. x = Some (Outside n))"
  shows "sysInv T (setFlock k x s)"
proof -
  have inv: "tabInv T s" "lockInv T s" "\<And>j. handleInv s j" using assms(1) by (simp_all add: sysInv_def)
  have "holders T (setFlock k x s) p k' = holders T s p k'" for p k' by (rule holders_cong) (simp add: holds_def)
  with inv(1) have "tabInv T (setFlock k x s)" by (simp add: tabInv_def)
  moreover have "lockInv T (setFlock k x s)" using inv(2) assms(2,3) by (rule lockInv_outside)
  moreover have "handleInv (setFlock k x s) j" for j
    using inv(3) [of j] handleInv_cong [of "setFlock k x s" j s] by simp
  ultimately show ?thesis by (simp add: sysInv_def)
qed


lemma onHandle_sel:
  assumes "f (path_of T i) (hs s i, tabs s (proc_of T i)) = (h', m')"
  shows "hs (onHandle T i f s) = (hs s)(i := h')" "tabs (onHandle T i f s) = (tabs s)(proc_of T i := m')"
    "phase (onHandle T i f s) = phase s"
    "flk (onHandle T i f s) = (if entryOf T s i \<noteq> None \<and> m' (path_of T i) = None
       then (flk s)(path_of T i := None) else flk s)"
  using assms by (simp_all add: onHandle_def Let_def)

text \<open>A critical section of a handle that is not in a call keeps the invariant when it leaves the
  handle consistent and gives the entry back exactly when it closes the database.\<close>

lemma sysInv_onHandle:
  assumes "sysInv T s" "phase s i = Free"
    and f: "f (path_of T i) (hs s i, tabs s (proc_of T i)) = (h', m')" and "handleOk h'"
    and "m' = tabs s (proc_of T i) \<and> db h' = db (hs s i)
       \<or> db (hs s i) \<and> \<not> db h' \<and> m' = release (path_of T i) (tabs s (proc_of T i))"
  shows "sysInv T (onHandle T i f s)"
  using assms(5)
proof (elim disjE conjE)
  assume m: "m' = tabs s (proc_of T i)" and d: "db h' = db (hs s i)"
  show ?thesis
    by (rule sysInv_frame [OF assms(1), where i = i])
      (use assms(2,4) m d in \<open>auto simp: onHandle_sel [where f = f, OF f] handleInv_def handleOk_def holds_def\<close>)
next
  assume d: "db (hs s i)" "\<not> db h'" and m: "m' = release (path_of T i) (tabs s (proc_of T i))"
  have h: "holds s i" using d by (simp add: holds_def)
  have "tabInv T s" using assms(1) by (simp add: sysInv_def)
  from holder_entry [OF this h] have e: "entryOf T s i \<noteq> None" by simp
  show ?thesis
  proof (rule sysInv_release [OF assms(1) h])
    show "flk (onHandle T i f s) = (if release (path_of T i) (tabs s (proc_of T i)) (path_of T i) = None
                   then (flk s)(path_of T i := None) else flk s)"
      using e by (simp only: onHandle_sel [where f = f, OF f] m simp_thms not_True_eq_False not_False_eq_True)
  qed (use assms(2,4) m d in \<open>auto simp: onHandle_sel [where f = f, OF f] handleInv_def handleOk_def holds_def\<close>)
qed

lemma shut_cases:
  "shutLocked k (h, m) = (h', m') \<Longrightarrow>
     (m' = m \<and> db h' = db h \<and> \<not> db h) \<or> (db h \<and> \<not> db h' \<and> m' = release k m)"
  by (auto simp: shutLocked_def Let_def split: if_splits)

lemma onIdle_cases:
  "onIdle k (h, m) = (h', m') \<Longrightarrow> (m' = m \<and> db h' = db h) \<or> (db h \<and> \<not> db h' \<and> m' = release k m)"
  by (auto simp: onIdle_def Let_def split: if_splits dest!: shut_cases)

lemma Close_cases:
  "Close k (h, m) = (h', m') \<Longrightarrow> (m' = m \<and> db h' = db h) \<or> (db h \<and> \<not> db h' \<and> m' = release k m)"
  by (auto simp: Close_def dest!: shut_cases)


section \<open>Every step keeps it\<close>

lemma handleInv_free: "sysInv T s \<Longrightarrow> phase s i = Free \<Longrightarrow> handleOk (hs s i)"
  by (simp add: sysInv_def handleInv_def) (metis phase.case(1))

lemma handleInv_timer: "sysInv T s \<Longrightarrow> timerOk (hs s i)"
  by (simp add: sysInv_def handleInv_def)

lemma sysInv_setYielding: "sysInv T s \<Longrightarrow> sysInv T (setYielding i n s)"
  by (rule sysInv_frame [where i = i])
    (auto simp: holds_def sysInv_def handleInv_cong [of "setYielding i n s" i s])

lemma step_sysInv:
  assumes "step T s s'" "sysInv T s"
  shows "sysInv T s'"
  using assms(1)
proof cases
  case (enter_handoff i)
  obtain h' m' where f: "(\<lambda>k (h, m). shutLocked k (disarm h, m)) (path_of T i) (hs s i, tabs s (proc_of T i)) = (h', m')"
    by fastforce
  have "handleOk h'" using handleOk_shut [of "disarm (hs s i)" "path_of T i" "tabs s (proc_of T i)"] f
      handleInv_timer [OF assms(2), of i] by simp
  moreover have "db (hs s i) \<and> \<not> db h' \<and> m' = release (path_of T i) (tabs s (proc_of T i))"
    using f enter_handoff shut_cases [of "path_of T i" "disarm (hs s i)"] by auto
  ultimately have "sysInv T (onHandle T i (\<lambda>k (h, m). shutLocked k (disarm h, m)) s)"
    using sysInv_onHandle [where f = "\<lambda>k (h, m). shutLocked k (disarm h, m)", OF assms(2) enter_handoff(2) f] by blast
  then show ?thesis unfolding enter_handoff(1) by (rule sysInv_setYielding)
next
  case (enter_open i)
  then show ?thesis using handleInv_timer [OF assms(2), of i]
    by (intro sysInv_frame [OF assms(2), where i = i]) (auto simp: holds_def handleInv_def)
next
  case (enter_shut i)
  then show ?thesis using handleInv_timer [OF assms(2), of i]
    by (intro sysInv_frame [OF assms(2), where i = i]) (auto simp: holds_def handleInv_def)
next
  case (yield_fail i n)
  then show ?thesis using handleInv_timer [OF assms(2), of i] handleInv_free [OF assms(2), of i]
    by (intro sysInv_frame [OF assms(2), where i = i]) (auto simp: holds_def handleInv_def)
next
  case (yield_resume i n)
  then show ?thesis using handleInv_timer [OF assms(2), of i]
    by (intro sysInv_frame [OF assms(2), where i = i]) (auto simp: holds_def handleInv_def)
next
  case (share i r)
  then show ?thesis
    by (intro sysInv_add [OF assms(2), where i = i and r = "Some (r + 1)"])
      (use assms(2) in \<open>auto simp: holds_def handleInv_def sysInv_def lockInv_share [simplified] dest!: spec [of _ i]\<close>)
next
  case (miss i)
  then show ?thesis using assms(2)
    by (intro sysInv_frame [OF assms(2), where i = i]) (auto simp: holds_def handleInv_def sysInv_def dest!: spec [of _ i])
next
  case (timeout i)
  then show ?thesis using assms(2)
    by (intro sysInv_frame [OF assms(2), where i = i])
      (auto simp: holds_def handleInv_def handleOk_def sysInv_def dest!: spec [of _ i])
next
  case (flock i)
  have inv: "tabInv T s" "lockInv T s" "\<And>j. handleInv s j" using assms(2) by (simp_all add: sysInv_def)
  have "holders T s' p k = holders T s p k" for p k by (rule holders_cong) (simp add: holds_def flock)
  with inv(1) flock have "tabInv T s'" by (simp add: tabInv_def)
  moreover have "lockInv T s'" using lockInv_flock [OF inv(2)] flock by simp
  moreover have "handleInv s' j" for j
    using inv(3) [of j] handleInv_cong [of s' j s] flock by (cases "j = i") (simp_all add: handleInv_def)
  ultimately show ?thesis by (simp add: sysInv_def)
next
  case (insert_shared i r)
  then have "lockInv T s" using assms(2) by (simp add: sysInv_def)
  from lockInv_tab [OF this, of "proc_of T i" "path_of T i"] lockInv_fd [OF this, of "path_of T i" i] insert_shared
  show ?thesis by simp
next
  case (insert_new i)
  then show ?thesis
    by (intro sysInv_add [OF assms(2), where i = i and r = "Some 1"])
      (use assms(2) in \<open>auto simp: holds_def handleInv_def sysInv_def lockInv_insert [simplified] dest!: spec [of _ i]\<close>)
next
  case (opened i t)
  then show ?thesis using assms(2)
    by (intro sysInv_frame [OF assms(2), where i = i])
      (auto simp: holds_def handleInv_def timerOk_def sysInv_def dest!: spec [of _ i])
next
  case (open_failed i)
  have h: "holds s i" using open_failed by (simp add: holds_def)
  have inv: "tabInv T s" "handleInv s i" using assms(2) by (simp_all add: sysInv_def)
  from holder_entry [OF inv(1) h] have e: "entryOf T s i \<noteq> None" by simp
  have sel: "hs s' = hs s" "tabs s' = (tabs s)(proc_of T i := release (path_of T i) (tabs s (proc_of T i)))"
    "phase s' = (phase s)(i := Free)"
    "flk s' = (if release (path_of T i) (tabs s (proc_of T i)) (path_of T i) = None
                   then (flk s)(path_of T i := None) else flk s)"
    using e by (simp_all add: open_failed(1) onHandle_def Let_def)
  show ?thesis
    by (rule sysInv_release [OF assms(2) h _ sel(2,4)])
      (use open_failed(2) inv(2) in \<open>simp_all add: sel holds_def handleInv_def handleOk_def\<close>)
next
  case (finish i)
  then show ?thesis using assms(2)
    by (intro sysInv_frame [OF assms(2), where i = i])
      (auto simp: holds_def handleInv_def handleOk_arm sysInv_def dest!: spec [of _ i])
next
  case (expire i)
  have [simp]: "db (fire (hs s i)) = db (hs s i)" "closed (fire (hs s i)) = closed (hs s i)"
    by (simp_all add: fire_def)
  have "handleInv s i" using assms(2) by (simp add: sysInv_def)
  then have "handleInv s' i"
    using handleOk_fire [of "hs s i"]
    by (cases "phase s i") (auto simp: expire handleInv_def timerOk_def fire_def)
  then show ?thesis unfolding expire
    by (intro sysInv_frame [OF assms(2), where i = i]) (simp_all add: holds_def)
next
  case (wakeup i)
  obtain h' m' where f: "onIdle (path_of T i) (hs s i, tabs s (proc_of T i)) = (h', m')" by fastforce
  have "handleOk h'"
    using handleOk_onIdle [OF handleInv_free [OF assms(2) wakeup(2)] wakeup(3), of "path_of T i" "tabs s (proc_of T i)"] f
    by simp
  with onIdle_cases [OF f] show ?thesis unfolding wakeup
    by (intro sysInv_onHandle [where f = onIdle, OF assms(2) wakeup(2) f])
next
  case (close i)
  obtain h' m' where f: "Close (path_of T i) (hs s i, tabs s (proc_of T i)) = (h', m')" by fastforce
  have "handleOk h'"
    using handleOk_Close [OF handleInv_free [OF assms(2) close(2)], of "path_of T i" "tabs s (proc_of T i)"] f
    by simp
  with Close_cases [OF f] show ?thesis unfolding close
    by (intro sysInv_onHandle [where f = Close, OF assms(2) close(2) f])
next
  case (outside_lock k n)
  then show ?thesis using sysInv_outside [OF assms(2)] by simp
next
  case (outside_unlock k n)
  then show ?thesis using sysInv_outside [OF assms(2)] by simp
qed

lemma reach_sysInv: "reach T s \<Longrightarrow> sysInv T s"
proof (induction rule: reach.induct)
  case (start s opts)
  have n: "\<not> db (hs s i) \<and> timerOk (hs s i) \<and> handleOk (hs s i)" for i
    using handleOk_NewHandle [of "opts i"] by (simp add: start(1) handleOk_def) (simp add: NewHandle_def)
  then have "holders T s p k = {}" for p k by (simp add: holders_def holds_def start)
  with n show ?case by (simp add: sysInv_def tabInv_def lockInv_def handleInv_def start entryFor_def)
next
  case (step s s')
  from step_sysInv [OF step(2) step.IH] show ?case .
qed


section \<open>Properties\<close>

text \<open>An uncontended call gets through: the six critical sections of \<open>Do\<close> on a closed file.\<close>

lemma reach_opens:
  assumes "reach T s" "phase s i = Free" "\<not> closed (hs s i)" "\<not> db (hs s i)"
    and "entryOf T s i = None" "flk s (path_of T i) = None"
  shows "\<exists>s'. reach T s' \<and> db (hs s' i) \<and> phase s' i = Free"
proof -
  define s1 where "s1 = setPhase i Acquiring (setHandle i (disarm (hs s i)) s)"
  define s2 where "s2 = setPhase i Waiting s1"
  define s3 where "s3 = setPhase i Locked (setFlock (path_of T i) (Some (Fd i)) s2)"
  define s4 where "s4 = setPhase i Acquired (setFlock (path_of T i) (Some (Entry (proc_of T i))) (setEntry T i (Some 1) s3))"
  define s5 where "s5 = setPhase i Running (setHandle i ((hs s4 i)\<lparr>db := True, since := 0\<rparr>) s4)"
  define s6 where "s6 = setPhase i Free (setHandle i (arm (hs s5 i)) s5)"
  have "reach T s1" unfolding s1_def using assms by (intro reach.step [OF assms(1)] step.enter_shut)
  then have "reach T s2" unfolding s2_def
    by (rule reach.step) (intro step.miss; simp add: s1_def assms)
  then have "reach T s3" unfolding s3_def
    by (rule reach.step) (intro step.flock; simp add: s1_def s2_def assms)
  then have "reach T s4" unfolding s4_def
    by (rule reach.step) (intro step.insert_new; simp add: s1_def s2_def s3_def assms)
  then have "reach T s5" unfolding s5_def
    by (rule reach.step) (intro step.opened; simp add: s4_def)
  then have "reach T s6" unfolding s6_def
    by (rule reach.step) (intro step.finish; simp add: s5_def)
  moreover have "db (hs s6 i)" "phase s6 i = Free" by (simp_all add: s6_def s5_def)
  ultimately show ?thesis by blast
qed

definition soleSys :: sys where
  "soleSys = \<lparr>hs = (\<lambda>i. NewHandle \<lparr>Idle = 0, Timeout = 0, MaxHold = 0, Unavailable = None\<rparr>),
     phase = (\<lambda>i. Free), yielding = (\<lambda>i. 0), tabs = (\<lambda>p. Map.empty), flk = (\<lambda>k. None)\<rparr>"

definition soleTop :: topology where
  "soleTop = \<lparr>proc_of = (\<lambda>i. i), path_of = (\<lambda>i. ''db'')\<rparr>"

lemma reach_soleSys: "reach T soleSys"
  by (rule reach.start) (simp_all add: soleSys_def)

lemma reach_sole_open: "\<exists>s. reach soleTop s \<and> db (hs s 0) \<and> phase s 0 = Free"
  by (rule reach_opens [OF reach_soleSys]) (simp_all add: soleSys_def NewHandle_def)

text \<open>Claim C4: whatever the interleaving of calls, hand-offs, idle closes, failures and outside
  users of the lock files, two handles that have the same file's database open belong to the
  same process, and then nobody else has the lock file: two processes never have one database
  open together.\<close>

theorem one_process_at_a_time:
  assumes "reach T s" "db (hs s i)" "db (hs s j)" "path_of T i = path_of T j"
  shows "proc_of T i = proc_of T j \<and> flk s (path_of T i) = Some (Entry (proc_of T i))"
proof -
  have inv: "tabInv T s" "lockInv T s" using reach_sysInv [OF assms(1)] by (simp_all add: sysInv_def)
  have "flk s (path_of T n) = Some (Entry (proc_of T n))" if "db (hs s n)" for n
    using holder_entry [OF inv(1), of n] lockInv_tab [OF inv(2), of "proc_of T n" "path_of T n"] that
    by (simp add: holds_def)
  from this [OF assms(2)] this [OF assms(3)] assms(4) show ?thesis by simp
qed

theorem one_process_at_a_time_witness:
  "\<exists>s. reach soleTop s \<and> db (hs s 0) \<and> flk s ''db'' = Some (Entry 0)"
proof -
  obtain s where s: "reach soleTop s" "db (hs s 0)" using reach_sole_open by blast
  from one_process_at_a_time [OF s(1,2,2) refl] s show ?thesis by (auto simp: soleTop_def)
qed

text \<open>Claim C6: the lock file of a path is held by a process exactly as long as one of its
  handles has the database open, or is between the lock and the opening: a database that is
  closed, or that could not be opened, leaks no lock, and the second look into the table after
  the lock is taken never finds an entry.\<close>

theorem lock_held_exactly_while_open:
  assumes "reach T s"
  shows "(flk s k = Some (Entry p) \<longleftrightarrow>
           (\<exists>i. proc_of T i = p \<and> path_of T i = k \<and> (db (hs s i) \<or> phase s i = Acquired)))
    \<and> (\<forall>i. phase s i = Locked \<longrightarrow> entryOf T s i = None)"
proof
  have inv: "tabInv T s" "lockInv T s" using reach_sysInv [OF assms] by (simp_all add: sysInv_def)
  have "finite (holders T s p k) \<and> tabs s p k = entryFor (card (holders T s p k))"
    using inv(1) by (simp add: tabInv_def)
  then have "tabs s p k \<noteq> None \<longleftrightarrow> holders T s p k \<noteq> {}" by auto
  with lockInv_tab [OF inv(2), of p k]
  show "flk s k = Some (Entry p) \<longleftrightarrow>
           (\<exists>i. proc_of T i = p \<and> path_of T i = k \<and> (db (hs s i) \<or> phase s i = Acquired))"
    by (auto simp: holders_def holds_def)
  show "\<forall>i. phase s i = Locked \<longrightarrow> entryOf T s i = None"
  proof (intro allI impI)
    fix i assume "phase s i = Locked"
    with lockInv_fd [OF inv(2), of "path_of T i" i] have "flk s (path_of T i) = Some (Fd i)" by blast
    with lockInv_tab [OF inv(2), of "proc_of T i" "path_of T i"] show "entryOf T s i = None" by simp
  qed
qed

theorem lock_held_exactly_while_open_witness:
  "\<exists>s. reach soleTop s \<and> flk s ''db'' = Some (Entry 0)"
proof -
  obtain s where s: "reach soleTop s" "db (hs s 0)" using reach_sole_open by blast
  from lock_held_exactly_while_open [OF s(1), of "''db''" 0] s show ?thesis by (auto simp: soleTop_def)
qed

text \<open>\<open>closed\<close> is never reset, and a closed handle is never in a call that could open it.\<close>

lemma closed_shut [simp]: "shutLocked k (h, m) = (h', m') \<Longrightarrow> closed h' = closed h"
  by (drule shutLocked_res) simp

lemma closed_onIdle: "onIdle k (h, m) = (h', m') \<Longrightarrow> closed h' = closed h"
  by (auto simp: onIdle_def Let_def split: if_splits dest: shutLocked_res)

lemma closed_Close: "Close k (h, m) = (h', m') \<Longrightarrow> closed h'"
  by (auto simp: Close_def dest: shutLocked_res)

lemma closed_fire [simp]: "closed (fire h) = closed h"
  by (simp add: fire_def)

lemma onHandle_closed:
  assumes "\<And>h' m'. f (path_of T i) (hs s i, tabs s (proc_of T i)) = (h', m') \<Longrightarrow> closed (hs s i) \<Longrightarrow> closed h'"
    and "closed (hs s j)"
  shows "closed (hs (onHandle T i f s) j)"
  using assms by (auto simp: onHandle_def Let_def split: prod.split)

lemma step_closed: "step T s s' \<Longrightarrow> closed (hs s i) \<Longrightarrow> closed (hs s' i)"
  by (induction rule: step.induct)
    (auto intro!: onHandle_closed dest: closed_onIdle closed_Close shutLocked_res)

text \<open>Claim C5: a handle that has been closed stays closed through everything that can still
  happen (calls in the gap of a hand-off, timers under way, other handles), has no database
  open, and holds no entry for the file.\<close>

theorem closed_handle_never_reopens:
  assumes "reach T s" "closed (hs s i)" "(step T)\<^sup>*\<^sup>* s s'"
  shows "closed (hs s' i) \<and> \<not> db (hs s' i) \<and> phase s' i = Free"
proof -
  have "reach T s' \<and> closed (hs s' i)" using assms(3,1,2)
    by (induction rule: rtranclp_induct) (auto intro: reach.step step_closed)
  moreover from this have "sysInv T s'" by (simp add: reach_sysInv)
  then have "handleInv s' i" by (simp add: sysInv_def)
  ultimately show ?thesis by (cases "phase s' i") (auto simp: handleInv_def handleOk_def)
qed

theorem closed_handle_never_reopens_witness:
  "\<exists>s. reach soleTop s \<and> closed (hs s 0) \<and> \<not> db (hs s 0)"
proof -
  obtain s where s: "reach soleTop s" "db (hs s 0)" "phase s 0 = Free" using reach_sole_open by blast
  have r: "reach soleTop (onHandle soleTop 0 Close s)" by (rule reach.step [OF s(1) step.close [OF s(3)]])
  have "closed (hs (onHandle soleTop 0 Close s) 0)"
    by (auto simp: onHandle_def Let_def split: prod.split dest: closed_Close)
  from closed_handle_never_reopens [OF r this rtranclp.rtrancl_refl] r show ?thesis by blast
qed

end
