(* ===== verification/Stores.thy ===== *)
theory Stores
  imports Handle "HOL-Library.Char_ord" "HOL-Library.List_Lexorder"
begin

text \<open>
  What the stores of src/kv, src/journal and src/configdb have in common: a store is a handle,
  absent when the pointer is nil; a method returns the store's unavailable error when it is
  absent and runs its callback through \<open>Do\<close> otherwise.  A row is deleted, selected and
  inserted as the SQL texts of these packages say.  \<open>call\<close> is what one call meets: the handle's
  environment, the engine's faults, the clock that \<open>time.Now\<close> reads, and how many numbers of a sequence
  transactions that came to nothing have used up: an engine need not give those out again.
\<close>

record call =
  env :: doEnv
  engine :: faults
  now :: time
  lockPath :: string
  spent :: nat

record 'd store =
  present :: bool
  opened :: "'d conn world"

definition tablesOf :: "'d store \<Rightarrow> 'd conn" where
  "tablesOf s = disk (opened s)"

definition within :: "err \<Rightarrow> call \<Rightarrow> ('d conn, err, 'a) act \<Rightarrow> ('d store, err, 'a) act" where
  "within unavailable c m s =
     (if \<not> present s then (Inl unavailable, s)
      else (case perform (env c) (lockPath c) m (opened s) of (r, w) \<Rightarrow> (r, s\<lparr>opened := w\<rparr>)))"

lemma within_cases:
  "within u c m s = (r, s') \<Longrightarrow>
      (\<exists>e. r = Inl e) \<and> tablesOf s' = tablesOf s
    \<or> (\<exists>r0. m (tablesOf s) = (r0, tablesOf s') \<and> (\<forall>x. r = Inr x \<longrightarrow> r0 = Inr x))"
  by (auto simp: within_def tablesOf_def split: if_splits prod.splits dest: duck.run_cases)

lemma within_present: "within u c m s = (r, s') \<Longrightarrow> present s' = present s"
  by (auto simp: within_def split: if_splits prod.splits)

interpretation stored: store_access "within u c" tablesOf for u c
  by unfold_locales (rule within_cases)

text \<open>\<open>duckdb.NullTime\<close> and the zero value that \<open>sql.NullTime\<close> scans a NULL to.\<close>

definition NullTime :: "time \<Rightarrow> time option" where
  "NullTime t = (if IsZero t then None else Some t)"

definition scanTime :: "time option \<Rightarrow> time" where
  "scanTime x = or_default x zero_time"

lemma scanTime_NullTime [simp]: "scanTime (NullTime t) = t"
  by (simp add: scanTime_def NullTime_def IsZero_def)

text \<open>\<open>DELETE FROM ... WHERE\<close> with \<open>RowsAffected\<close>.\<close>

definition deleteWhere :: "('r \<Rightarrow> bool) \<Rightarrow> 'r list \<Rightarrow> err + ('r list \<times> int)" where
  "deleteWhere P t = Inr (filter (\<lambda>r. \<not> P r) t, int (length (filter P t)))"

text \<open>\<open>INSERT\<close> into a table with the primary key \<open>key\<close>.\<close>

definition insertKeyed :: "('r \<Rightarrow> 'k) \<Rightarrow> 'r \<Rightarrow> 'r list \<Rightarrow> err + ('r list \<times> unit)" where
  "insertKeyed key r t =
     (if key r \<in> key ` set t then Inl (SqlErr ''Constraint Error: Duplicate key'') else Inr (t @ [r], ()))"

definition keyed :: "('r \<Rightarrow> 'k) \<Rightarrow> 'r list \<Rightarrow> bool" where
  "keyed key t \<longleftrightarrow> distinct (map key t)"

lemma keyed_delete: "keyed key t \<Longrightarrow> deleteWhere P t = Inr (t', n) \<Longrightarrow> keyed key t'"
  by (auto simp: deleteWhere_def keyed_def distinct_map_filter_key)

lemma keyed_insert: "keyed key t \<Longrightarrow> insertKeyed key r t = Inr (t', u) \<Longrightarrow> keyed key t'"
  by (auto simp: insertKeyed_def keyed_def split: if_splits)

lemma keyed_filter: "keyed key t \<Longrightarrow> keyed key (filter P t)"
  by (simp add: keyed_def distinct_map_filter_key)

lemma keyed_unique: "keyed key t \<Longrightarrow> r \<in> set t \<Longrightarrow> r' \<in> set t \<Longrightarrow> key r = key r' \<Longrightarrow> r = r'"
  by (auto simp: keyed_def distinct_map inj_on_def)

lemma find_keyed:
  "keyed key t \<Longrightarrow> find (\<lambda>r. key r = k) t = Some r \<longleftrightarrow> r \<in> set t \<and> key r = k"
  by (induction t) (auto simp: keyed_def)

text \<open>A store for a witness: present, unlocked, idle, with the given tables.\<close>

definition freshStore :: "'d \<Rightarrow> 'd store" where
  "freshStore d = \<lparr>present = True, opened = freshWorld \<lparr>committed = d, pendingTx = None, calls = 0\<rparr>\<rparr>"

definition calmAt :: "time \<Rightarrow> call" where
  "calmAt t = \<lparr>env = calm, engine = noFaults, now = t, lockPath = ''db'', spent = 0\<rparr>"

lemma calmAt_simps [simp]:
  "env (calmAt t) = calm" "engine (calmAt t) = noFaults" "now (calmAt t) = t" "lockPath (calmAt t) = ''db''"
  "spent (calmAt t) = 0"
  by (simp_all add: calmAt_def)

definition storeOk :: "'d store \<Rightarrow> bool" where
  "storeOk s \<longleftrightarrow> present s \<and> worldOk ''db'' 0 (opened s) \<and> \<not> closed (hnd (opened s)) \<and> idle_conn (tablesOf s)"

lemma storeOk_freshStore [simp]: "storeOk (freshStore d)"
  by (simp add: storeOk_def freshStore_def tablesOf_def worldOk_freshWorld idle_conn_def)

lemma committed_freshStore [simp]: "committed (tablesOf (freshStore d)) = d" "idle_conn (tablesOf (freshStore d))"
  by (simp_all add: freshStore_def tablesOf_def idle_conn_def)

text \<open>A call that meets nothing unusual runs its callback and reports its result.\<close>

lemma perform_calm:
  assumes "worldOk key others w" "\<not> closed (hnd w)" "m (disk w) = (r, f)"
  shows "\<exists>w'. perform calm key m w = (case r of Inl e \<Rightarrow> Inl (the (asLocked (Some e))) | Inr x \<Rightarrow> Inr x, w')
    \<and> disk w' = f \<and> worldOk key others w' \<and> \<not> closed (hnd w')"
proof -
  obtain h t where d: "Do calm key (bodyOf m) w =
      (case bodyOf m (disk w) of (e, v, f) \<Rightarrow> (asLocked e, v, w\<lparr>hnd := arm h, tab := t, disk := f\<rparr>))"
    using Do_calm [OF assms(1,2)] by blast
  let ?w = "w\<lparr>hnd := arm h, tab := t, disk := f\<rparr>"
  have b: "bodyOf m (disk w) = (case r of Inl e \<Rightarrow> (Some e, None, f) | Inr x \<Rightarrow> (None, Some x, f))"
    using assms(3) by (simp add: bodyOf_def split: sum.split)
  have "\<exists>e v. Do calm key (bodyOf m) w = (e, v, ?w)" using d b by (auto split: sum.splits)
  with Do_worldOk [OF assms(1)] assms(2) have "worldOk key others ?w \<and> \<not> closed (hnd ?w)" by blast
  moreover have "perform calm key m w = (case r of Inl e \<Rightarrow> Inl (the (asLocked (Some e))) | Inr x \<Rightarrow> Inr x, ?w)"
    using d b by (cases r) (auto simp: perform_def asLocked_def split: if_splits)
  ultimately show ?thesis by auto
qed

lemma within_run:
  assumes "storeOk s" "m (tablesOf s) = (Inr x, c')" "idle_conn c'"
  shows "\<exists>s'. within u (calmAt t) m s = (Inr x, s') \<and> storeOk s' \<and> tablesOf s' = c'"
proof -
  obtain w' where "perform calm ''db'' m (opened s) = (Inr x, w')" "disk w' = c'"
      "worldOk ''db'' 0 w'" "\<not> closed (hnd w')"
    using perform_calm [of "''db''" 0 "opened s" m] assms by (fastforce simp: storeOk_def tablesOf_def)
  with assms show ?thesis by (auto simp: within_def storeOk_def tablesOf_def)
qed

lemma within_calm:
  assumes "storeOk s" "atomically noFaults m f" "f (committed (tablesOf s)) = Inr (d, x)"
  shows "\<exists>s'. within u (calmAt t) m s = (Inr x, s') \<and> storeOk s' \<and> committed (tablesOf s') = d"
proof -
  obtain c' where m: "m (tablesOf s) = (Inr x, c')" "idle_conn c'" "committed c' = d"
    using atomically_noFaults [OF assms(2) _ assms(3)] assms(1) by (auto simp: storeOk_def)
  from within_run [where m = m, OF assms(1) m(1,2)] m(3) show ?thesis by blast
qed

section \<open>Opening and closing\<close>

text \<open>
  \<open>Open\<close> of the packages: a handle with the caller's tuning whose database can be opened with the
  schema, and \<open>Close\<close>.  The world after a failed \<open>Open\<close> is returned too: the lock table is the process's.
\<close>

definition storeOpen :: "err \<Rightarrow> call \<Rightarrow> tuneOption option list \<Rightarrow> locktab \<Rightarrow> 'd conn
    \<Rightarrow> (err + 'd store) \<times> 'd conn world" where
  "storeOpen unavailable c opts m d =
     (case Ensure (env c) (lockPath c)
         \<lparr>hnd = NewHandle (OptionsFrom (Build opts) unavailable), tab = m, disk = d\<rparr> of
        (Inl e, w) \<Rightarrow> (Inl e, w)
      | (Inr _, w) \<Rightarrow> (Inr \<lparr>present = True, opened = w\<rparr>, w))"

definition storeClose :: "string \<Rightarrow> 'd store \<Rightarrow> 'd store" where
  "storeClose path s =
     (if \<not> present s then s
      else (case Close path (hnd (opened s), tab (opened s)) of
              (h, m) \<Rightarrow> s\<lparr>opened := (opened s)\<lparr>hnd := h, tab := m\<rparr>\<rparr>))"

text \<open>An opened store has a consistent handle, is not closed, and holds what was in the file.\<close>

lemma storeOpen_ready:
  assumes "m (lockPath c) = entryFor others" and "storeOpen u c opts m d = (Inr s, w)"
  shows "present s \<and> worldOk (lockPath c) others (opened s) \<and> \<not> closed (hnd (opened s)) \<and> tablesOf s = d"
proof -
  let ?w0 = "\<lparr>hnd = NewHandle (OptionsFrom (Build opts) u), tab = m, disk = d\<rparr>"
  from assms(2) have e: "Ensure (env c) (lockPath c) ?w0 = (Inr (), w)" and s: "s = \<lparr>present = True, opened = w\<rparr>"
    by (auto simp: storeOpen_def split: prod.splits sum.splits)
  obtain eo v w1 where d: "Do (env c) (lockPath c) (bodyOf (ok ())) ?w0 = (eo, v, w1)" by (metis prod_cases3)
  from e d have w1: "w1 = w" by (auto simp: Ensure_def perform_def split: option.splits)
  have "worldOk (lockPath c) others ?w0"
    using assms(1) handleOk_NewHandle by (simp add: worldOk_def tabOk_def) (simp add: NewHandle_def)
  from Do_worldOk [OF this d] w1 have "worldOk (lockPath c) others w" "\<not> closed (hnd w)"
    by (simp_all add: NewHandle_def)
  moreover have "disk w = d"
    using perform_cases [OF e [unfolded Ensure_def]] by auto
  ultimately show ?thesis by (simp add: s tablesOf_def)
qed

text \<open>Closing gives the database and the lock entry back and keeps the tables.\<close>

lemma storeClose_releases:
  assumes "present s" and "worldOk path others (opened s)"
  shows "tab (opened (storeClose path s)) path = entryFor others
    \<and> \<not> db (hnd (opened (storeClose path s))) \<and> closed (hnd (opened (storeClose path s)))
    \<and> tablesOf (storeClose path s) = tablesOf s"
proof -
  obtain h m where cl: "shutLocked path ((hnd (opened s))\<lparr>closed := True\<rparr>, tab (opened s)) = (h, m)"
    by (metis prod.exhaust)
  have "tabOk path others ((hnd (opened s))\<lparr>closed := True\<rparr>) (tab (opened s))"
    using assms(2) by (simp add: worldOk_def tabOk_def)
  from tabOk_shut [OF this cl] have "m path = entryFor others" by simp
  with shutLocked_res [OF cl] cl assms(1) show ?thesis
    by (simp add: storeClose_def Close_def tablesOf_def)
qed

end
