(* ===== verification/Journal.thy ===== *)
theory Journal
  imports Stores "HOL-Library.Multiset"
begin

text \<open>
  The activity log of src/journal/journal.go: its two tables, the statements that its methods
  run on them (the rewrite of a table by \<open>rewriteTable\<close> included, over a catalog of tables by
  name), and the methods of \<open>Store\<close>.  \<open>ts\<close> is what the engine keeps of a timestamp, \<open>js\<close> the
  JSON codec of attribute maps, and \<open>arr\<close> the order in which the engine delivers rows before
  an \<open>ORDER BY\<close>, which says nothing about ties.  An attribute map is the list of its members.
\<close>

section \<open>Data\<close>

type_synonym attrs = "(string \<times> string) list"

record json =
  Marshal :: "attrs \<Rightarrow> string option"
  Unmarshal :: "string \<Rightarrow> attrs option"

record runrow =
  rid :: int
  rparent :: "int option"
  rkind :: string
  rname :: string
  rstarted :: time
  rfinished :: "time option"
  rcount :: "int option"
  rerror :: "string option"
  rattrs :: "string option"

record recrow =
  recId :: int
  recRun :: int
  recTs :: "time option"
  recAttrs :: "string option"

record run =
  ID :: int
  ParentID :: int
  Kind :: string
  Name :: string
  Started :: time
  Finished :: time
  Count :: int
  Error :: string
  Attrs :: attrs

record logRecord =
  Ts :: time
  LAttrs :: attrs

text \<open>A catalog of tables by name, for the statements that make and drop tables.\<close>

type_synonym 'r catalog = "string \<rightharpoonup> 'r list"

record jdb =
  runsCat :: "runrow catalog"
  recsCat :: "recrow catalog"
  runSeq :: int
  recSeq :: int

definition runsOf :: "jdb \<Rightarrow> runrow list" where
  "runsOf d = or_default (runsCat d ''runs'') []"

definition recsOf :: "jdb \<Rightarrow> recrow list" where
  "recsOf d = or_default (recsCat d ''records'') []"

definition setRuns :: "runrow list \<Rightarrow> jdb \<Rightarrow> jdb" where
  "setRuns t d = d\<lparr>runsCat := (runsCat d)(''runs'' \<mapsto> t)\<rparr>"

definition setRecs :: "recrow list \<Rightarrow> jdb \<Rightarrow> jdb" where
  "setRecs t d = d\<lparr>recsCat := (recsCat d)(''records'' \<mapsto> t)\<rparr>"

definition journalErrUnavailable :: err where
  "journalErrUnavailable = ErrUnavailable ''journal ''"

type_synonym 'a jop = "(jdb store, err, 'a) act"

definition NullInt :: "int \<Rightarrow> int option" where
  "NullInt v = (if v = 0 then None else Some v)"

definition NullStr :: "string \<Rightarrow> string option" where
  "NullStr v = (if v = [] then None else Some v)"

definition marshalAttrs :: "json \<Rightarrow> attrs \<Rightarrow> string option" where
  "marshalAttrs js m = (if length m = 0 then None else Marshal js m)"

definition unmarshalAttrs :: "json \<Rightarrow> string \<Rightarrow> attrs" where
  "unmarshalAttrs js s =
     (if s = [] then [] else case Unmarshal js s of None \<Rightarrow> [] | Some m \<Rightarrow> m)"

section \<open>Statements\<close>

text \<open>A value put into an \<open>INTEGER\<close> column.\<close>

definition castInt32 :: "int \<Rightarrow> err + int" where
  "castInt32 v = (if - (2 ^ 31) \<le> v \<and> v < 2 ^ 31 then Inr v else Inl (SqlErr ''Conversion Error''))"

text \<open>
  \<open>INSERT INTO runs ... RETURNING id\<close>: the id is the next of the sequence, which has passed over the \<open>g\<close>
  numbers that transactions rolled back since have used up.  (The ids of records, which no method reads,
  are numbered without such gaps.)
\<close>

definition insertRun :: "nat \<Rightarrow> runrow \<Rightarrow> jdb \<Rightarrow> err + (jdb \<times> int)" where
  "insertRun g r d =
     (let i = runSeq d + int g in
      case (case rcount r of None \<Rightarrow> Inr None | Some n \<Rightarrow> (case castInt32 n of Inl e \<Rightarrow> Inl e | Inr m \<Rightarrow> Inr (Some m))) of
        Inl e \<Rightarrow> Inl e
      | Inr n \<Rightarrow>
          (case insertKeyed rid (r\<lparr>rid := i, rcount := n\<rparr>) (runsOf d) of
             Inl e \<Rightarrow> Inl e
           | Inr (t, _) \<Rightarrow> Inr ((setRuns t d)\<lparr>runSeq := i + 1\<rparr>, i)))"

text \<open>\<open>recordInsert\<close>: the text of the statement; it runs only with one argument per placeholder.\<close>

definition recordInsertPrefix :: string where
  "recordInsertPrefix = ''INSERT INTO records (run_id, ts, attrs) VALUES ''"

definition recordChunk :: nat where
  "recordChunk = 200"

fun rowGroups :: "nat \<Rightarrow> string" where
  "rowGroups 0 = []"
| "rowGroups (Suc 0) = ''(?, ?, ?)''"
| "rowGroups (Suc n) = rowGroups n @ '','' @ ''(?, ?, ?)''"

definition recordInsert :: "nat \<Rightarrow> string" where
  "recordInsert rows = recordInsertPrefix @ rowGroups rows"

definition fullRecordInsert :: string where
  "fullRecordInsert = recordInsert recordChunk"

type_synonym recArgs = "(int \<times> time option \<times> string option) list"

fun recRows :: "(time \<Rightarrow> time) \<Rightarrow> int \<Rightarrow> recArgs \<Rightarrow> recrow list" where
  "recRows ts i [] = []"
| "recRows ts i ((own, t, a) # args) =
     \<lparr>recId = i, recRun = own, recTs = map_option ts t, recAttrs = a\<rparr> # recRows ts (i + 1) args"

definition insertRecs :: "(time \<Rightarrow> time) \<Rightarrow> string \<Rightarrow> recArgs \<Rightarrow> jdb \<Rightarrow> err + (jdb \<times> unit)" where
  "insertRecs ts q args d =
     (if count_list q (CHR ''?'') \<noteq> 3 * length args then Inl (SqlErr ''Invalid Input Error: wrong number of parameters'')
      else Inr ((setRecs (recsOf d @ recRows ts (recSeq d) args) d)\<lparr>recSeq := recSeq d + int (length args)\<rparr>, ()))"

definition deleteRuns :: "(runrow \<Rightarrow> bool) \<Rightarrow> jdb \<Rightarrow> jdb" where
  "deleteRuns P d = setRuns (filter (\<lambda>r. \<not> P r) (runsOf d)) d"

definition deleteRecs :: "(recrow \<Rightarrow> bool) \<Rightarrow> jdb \<Rightarrow> jdb" where
  "deleteRecs P d = setRecs (filter (\<lambda>r. \<not> P r) (recsOf d)) d"

text \<open>Statements on tables as wholes.\<close>

datatype ddl =
    DropIfExists string
  | CreateTable string
  | InsertSelect string string
  | DropTable string
  | AlterRename string string

fun runDDL :: "ddl \<Rightarrow> 'r catalog \<Rightarrow> err + 'r catalog" where
  "runDDL (DropIfExists t) c = Inr (c(t := None))"
| "runDDL (CreateTable t) c = (if c t \<noteq> None then Inl (SqlErr ''Catalog Error: already exists'') else Inr (c(t \<mapsto> [])))"
| "runDDL (InsertSelect t f) c =
     (case (c t, c f) of (Some x, Some y) \<Rightarrow> Inr (c(t \<mapsto> x @ y)) | _ \<Rightarrow> Inl (SqlErr ''Catalog Error: does not exist''))"
| "runDDL (DropTable t) c = (if c t = None then Inl (SqlErr ''Catalog Error: does not exist'') else Inr (c(t := None)))"
| "runDDL (AlterRename f t) c =
     (case c f of
        None \<Rightarrow> Inl (SqlErr ''Catalog Error: does not exist'')
      | Some x \<Rightarrow> if c t \<noteq> None then Inl (SqlErr ''Catalog Error: already exists'') else Inr (c(f := None, t \<mapsto> x)))"

definition rewriteTable :: "string \<Rightarrow> ddl list" where
  "rewriteTable table =
     (let fresh = table @ ''_compact'' in
      [DropIfExists fresh, CreateTable fresh, InsertSelect fresh table, DropTable table, AlterRename fresh table])"

datatype compactStmt = OnRecords ddl | OnRuns ddl

definition compaction :: "compactStmt list" where
  "compaction = map OnRecords (rewriteTable ''records'') @ map OnRuns (rewriteTable ''runs'')"

fun runCompact :: "compactStmt \<Rightarrow> jdb \<Rightarrow> err + (jdb \<times> unit)" where
  "runCompact (OnRecords s) d =
     (case runDDL s (recsCat d) of Inl e \<Rightarrow> Inl e | Inr c \<Rightarrow> Inr (d\<lparr>recsCat := c\<rparr>, ()))"
| "runCompact (OnRuns s) d =
     (case runDDL s (runsCat d) of Inl e \<Rightarrow> Inl e | Inr c \<Rightarrow> Inr (d\<lparr>runsCat := c\<rparr>, ()))"

text \<open>Which top-level runs go: \<open>olderThan\<close> and \<open>beyondNewest\<close>, on the tables of the statement
  they are part of.\<close>

type_synonym doom = "jdb \<Rightarrow> runrow \<Rightarrow> bool"

definition olderThan :: "(time \<Rightarrow> time) \<Rightarrow> time \<Rightarrow> doom" where
  "olderThan ts before d r \<longleftrightarrow> rparent r = None \<and> rstarted r < ts before"

definition newestFirst :: "runrow list \<Rightarrow> runrow list" where
  "newestFirst t = rev (sort_key rstarted (sort_key rid (filter (\<lambda>r. rparent r = None) t)))"

definition beyondNewest :: "nat \<Rightarrow> doom" where
  "beyondNewest n d r \<longleftrightarrow> rparent r = None \<and> rid r \<notin> rid ` set (take n (newestFirst (runsOf d)))"

definition doomedIds :: "doom \<Rightarrow> jdb \<Rightarrow> int list" where
  "doomedIds P d = map rid (filter (P d) (runsOf d))"

definition evictStatements :: "doom \<Rightarrow> (jdb \<Rightarrow> jdb) list" where
  "evictStatements P =
     [\<lambda>d. deleteRecs (\<lambda>x. recRun x \<in> set (map rid (filter (\<lambda>r. P d r \<or>
            (case rparent r of None \<Rightarrow> False | Some p \<Rightarrow> p \<in> set (doomedIds P d))) (runsOf d)))) d,
      \<lambda>d. deleteRuns (\<lambda>r. case rparent r of None \<Rightarrow> False | Some p \<Rightarrow> p \<in> set (doomedIds P d)) d,
      \<lambda>d. deleteRuns (P d) d]"

fun runAll :: "(jdb conn, err, unit) act list \<Rightarrow> (jdb conn, err, unit) act" where
  "runAll [] = ok ()"
| "runAll (m # ms) = andThen m (\<lambda>_. runAll ms)"

section \<open>Methods\<close>

definition journal_Open :: "call \<Rightarrow> tuneOption option list \<Rightarrow> locktab \<Rightarrow> jdb conn
    \<Rightarrow> (err + jdb store) \<times> jdb conn world" where
  "journal_Open = storeOpen journalErrUnavailable"

definition journal_Close :: "string \<Rightarrow> jdb store \<Rightarrow> jdb store" where
  "journal_Close = storeClose"

definition journal_StartRun :: "(time \<Rightarrow> time) \<Rightarrow> json \<Rightarrow> call \<Rightarrow> string \<Rightarrow> string \<Rightarrow> attrs \<Rightarrow> int jop" where
  "journal_StartRun ts js c kind nm as = within journalErrUnavailable c
     (exec (engine c) (insertRun (spent c) \<lparr>rid = 0, rparent = None, rkind = kind, rname = nm, rstarted = ts (now c),
        rfinished = None, rcount = None, rerror = None, rattrs = marshalAttrs js as\<rparr>))"

definition childSum :: "int \<Rightarrow> runrow list \<Rightarrow> int" where
  "childSum i t = sum_list (map (\<lambda>r. or_default (rcount r) 0) (filter (\<lambda>r. rparent r = Some i) t))"

definition finishRunStmt :: "(time \<Rightarrow> time) \<Rightarrow> time \<Rightarrow> int \<Rightarrow> jdb \<Rightarrow> err + (jdb \<times> unit)" where
  "finishRunStmt ts t i d =
     (if i \<notin> rid ` set (runsOf d) then Inr (d, ())
      else case castInt32 (childSum i (runsOf d)) of
        Inl e \<Rightarrow> Inl e
      | Inr n \<Rightarrow> Inr (setRuns (map (\<lambda>r. if rid r = i then r\<lparr>rfinished := Some (ts t), rcount := Some n\<rparr> else r) (runsOf d)) d, ()))"

definition journal_FinishRun :: "(time \<Rightarrow> time) \<Rightarrow> call \<Rightarrow> int \<Rightarrow> unit jop" where
  "journal_FinishRun ts c i s =
     (if \<not> present s then (Inl journalErrUnavailable, s)
      else if i = 0 then (Inr (), s)
      else within journalErrUnavailable c (exec (engine c) (finishRunStmt ts (now c) i)) s)"

text \<open>The loop of \<open>insertRecords\<close>: \<open>start\<close> advances by \<open>recordChunk\<close>, so what is left is
  \<open>records[start:]\<close>.\<close>

function insertRecords :: "(time \<Rightarrow> time) \<Rightarrow> json \<Rightarrow> faults \<Rightarrow> int \<Rightarrow> logRecord list \<Rightarrow> (jdb conn, err, unit) act" where
  "insertRecords ts js F runID records =
     (if length records = 0 then ok ()
      else (let chunk = take recordChunk records;
                q = (if length chunk \<noteq> recordChunk then recordInsert (length chunk) else fullRecordInsert);
                args = map (\<lambda>r. (runID, NullTime (Ts r), marshalAttrs js (LAttrs r))) chunk
            in andThen (exec F (insertRecs ts q args)) (\<lambda>_. insertRecords ts js F runID (drop recordChunk records))))"
  by pat_completeness auto
termination
  by (relation "measure (\<lambda>(_, _, _, _, rs). length rs)") (auto simp: recordChunk_def)

declare insertRecords.simps [simp del]

definition runRow :: "(time \<Rightarrow> time) \<Rightarrow> json \<Rightarrow> run \<Rightarrow> runrow" where
  "runRow ts js r =
     \<lparr>rid = 0, rparent = NullInt (ParentID r), rkind = Kind r, rname = Name r, rstarted = ts (Started r),
      rfinished = Some (ts (Finished r)), rcount = Some (Count r), rerror = NullStr (Error r),
      rattrs = marshalAttrs js (Attrs r)\<rparr>"

definition journal_Add :: "(time \<Rightarrow> time) \<Rightarrow> json \<Rightarrow> call \<Rightarrow> run \<Rightarrow> logRecord list \<Rightarrow> int jop" where
  "journal_Add ts js c r records = within journalErrUnavailable c
     (inTx (engine c)
        (andThen (exec (engine c) (insertRun (spent c) (runRow ts js r))) (\<lambda>i.
         andThen (insertRecords ts js (engine c) i records) (\<lambda>_. ok i))))"

definition deleteStatements :: "int \<Rightarrow> (jdb \<Rightarrow> jdb) list" where
  "deleteStatements i =
     [\<lambda>d. deleteRecs (\<lambda>x. recRun x = i \<or> recRun x \<in> set (map rid (filter (\<lambda>r. rparent r = Some i) (runsOf d)))) d,
      deleteRuns (\<lambda>r. rparent r = Some i),
      deleteRuns (\<lambda>r. rid r = i)]"

definition journal_Delete :: "call \<Rightarrow> int \<Rightarrow> unit jop" where
  "journal_Delete c i s =
     (if \<not> present s then (Inl journalErrUnavailable, s)
      else if i = 0 then (Inr (), s)
      else within journalErrUnavailable c
        (inTx (engine c) (runAll (map (update (engine c)) (deleteStatements i)))) s)"

text \<open>The callback of \<open>evict\<close>, with the value it has captured when it returns.\<close>

definition evictBody :: "faults \<Rightarrow> doom \<Rightarrow> jdb conn \<Rightarrow> err option \<times> int option \<times> jdb conn" where
  "evictBody F P c =
     (case query F (\<lambda>d. int (length (filter (P d) (runsOf d)))) c of
        (Inl e, c1) \<Rightarrow> (Some e, Some 0, c1)
      | (Inr doomedRuns, c1) \<Rightarrow>
          if doomedRuns = 0 then (None, Some 0, c1)
          else (case inTx F (andThen (runAll (map (update F) (evictStatements P))) (\<lambda>_.
                        runAll (map (\<lambda>st. exec F (runCompact st)) compaction))) c1 of
                  (Inl e, c2) \<Rightarrow> (Some e, Some 0, c2)
                | (Inr _, c2) \<Rightarrow>
                    (case update F (\<lambda>d. d) c2 of
                       (Inl e, c3) \<Rightarrow> (Some e, Some doomedRuns, c3)
                     | (Inr _, c3) \<Rightarrow> (None, Some doomedRuns, c3))))"

definition evict :: "call \<Rightarrow> doom \<Rightarrow> jdb store \<Rightarrow> (int \<times> err option) \<times> jdb store" where
  "evict c P s =
     (case Do (env c) (lockPath c) (evictBody (engine c) P) (opened s) of
        (e, v, w) \<Rightarrow> ((or_default v 0, e), s\<lparr>opened := w\<rparr>))"

definition journal_Prune :: "(time \<Rightarrow> time) \<Rightarrow> call \<Rightarrow> time \<Rightarrow> jdb store \<Rightarrow> (int \<times> err option) \<times> jdb store" where
  "journal_Prune ts c before s =
     (if \<not> present s then ((0, Some journalErrUnavailable), s)
      else if IsZero before then ((0, None), s)
      else evict c (olderThan ts before) s)"

definition journal_Retain :: "call \<Rightarrow> int \<Rightarrow> jdb store \<Rightarrow> (int \<times> err option) \<times> jdb store" where
  "journal_Retain c maxRuns s =
     (if \<not> present s then ((0, Some journalErrUnavailable), s)
      else if maxRuns \<le> 0 then ((0, None), s)
      else evict c (beyondNewest (nat maxRuns)) s)"

definition scanRun :: "json \<Rightarrow> runrow \<Rightarrow> run" where
  "scanRun js r =
     \<lparr>ID = rid r, ParentID = 0, Kind = rkind r, Name = rname r, Started = rstarted r,
      Finished = scanTime (rfinished r), Count = or_default (rcount r) 0, Error = or_default (rerror r) [],
      Attrs = unmarshalAttrs js (or_default (rattrs r) [])\<rparr>"

definition queryRuns :: "json \<Rightarrow> call \<Rightarrow> (jdb \<Rightarrow> runrow list) \<Rightarrow> run list jop" where
  "queryRuns js c q = within journalErrUnavailable c
     (andThen (query (engine c) q) (\<lambda>rows. ok (map (scanRun js) rows)))"

definition journal_Recent :: "json \<Rightarrow> (runrow list \<Rightarrow> runrow list) \<Rightarrow> call \<Rightarrow> int \<Rightarrow> run list jop" where
  "journal_Recent js arr c limit =
     (let limit' = (if limit \<le> 0 then 20 else limit) in
      queryRuns js c (\<lambda>d. take (nat limit') (sort_key (\<lambda>r. - rstarted r) (arr (filter (\<lambda>r. rparent r = None) (runsOf d))))))"

definition journal_Children :: "json \<Rightarrow> (runrow list \<Rightarrow> runrow list) \<Rightarrow> call \<Rightarrow> int \<Rightarrow> run list jop" where
  "journal_Children js arr c parentID =
     queryRuns js c (\<lambda>d. sort_key rstarted (arr (filter (\<lambda>r. rparent r = Some parentID) (runsOf d))))"

definition journal_Get :: "json \<Rightarrow> call \<Rightarrow> int \<Rightarrow> run option jop" where
  "journal_Get js c i =
     andThen (queryRuns js c (\<lambda>d. filter (\<lambda>r. rid r = i) (runsOf d))) (\<lambda>runs.
       ok (case runs of [] \<Rightarrow> None | r # _ \<Rightarrow> Some r))"

definition scanRecord :: "json \<Rightarrow> recrow \<Rightarrow> logRecord" where
  "scanRecord js r = \<lparr>Ts = scanTime (recTs r), LAttrs = unmarshalAttrs js (or_default (recAttrs r) [])\<rparr>"

text \<open>\<open>ORDER BY ts DESC\<close>: NULL sorts last, as the engine's default has it.\<close>

definition tsKey :: "recrow \<Rightarrow> bool \<times> int" where
  "tsKey r = (case recTs r of None \<Rightarrow> (True, 0) | Some t \<Rightarrow> (False, - t))"

definition byTsDesc :: "recrow list \<Rightarrow> recrow list" where
  "byTsDesc t = sort_key (\<lambda>r. snd (tsKey r)) (filter (\<lambda>r. \<not> fst (tsKey r)) t) @ filter (\<lambda>r. fst (tsKey r)) t"

definition journal_Records :: "json \<Rightarrow> (recrow list \<Rightarrow> recrow list) \<Rightarrow> call \<Rightarrow> int \<Rightarrow> logRecord list jop" where
  "journal_Records js arr c runID = within journalErrUnavailable c
     (andThen (query (engine c) (\<lambda>d. byTsDesc (arr (filter (\<lambda>r. recRun r = runID) (recsOf d))))) (\<lambda>rows.
      ok (map (scanRecord js) rows)))"


section \<open>Tables and statements\<close>

lemma tables_simps [simp]:
  "runsOf (setRuns t d) = t" "recsOf (setRuns t d) = recsOf d"
  "recsOf (setRecs u d) = u" "runsOf (setRecs u d) = runsOf d"
  "runSeq (setRuns t d) = runSeq d" "recSeq (setRuns t d) = recSeq d"
  "runSeq (setRecs u d) = runSeq d" "recSeq (setRecs u d) = recSeq d"
  "runsOf (d\<lparr>runSeq := i\<rparr>) = runsOf d" "recsOf (d\<lparr>runSeq := i\<rparr>) = recsOf d"
  "runsOf (d\<lparr>recSeq := i\<rparr>) = runsOf d" "recsOf (d\<lparr>recSeq := i\<rparr>) = recsOf d"
  by (simp_all add: runsOf_def recsOf_def setRuns_def setRecs_def)

lemma setRecs_twice [simp]: "setRecs t (setRecs u d) = setRecs t d"
  "setRecs t (d\<lparr>recSeq := i\<rparr>) = (setRecs t d)\<lparr>recSeq := i\<rparr>"
  by (simp_all add: setRecs_def)

definition tablesExist :: "jdb \<Rightarrow> bool" where
  "tablesExist d \<longleftrightarrow> runsCat d ''runs'' \<noteq> None \<and> recsCat d ''records'' \<noteq> None"

lemma tablesExist_set [simp]: "tablesExist d \<Longrightarrow> tablesExist (setRuns t d)" "tablesExist d \<Longrightarrow> tablesExist (setRecs u d)"
  "tablesExist (d\<lparr>runSeq := i\<rparr>) = tablesExist d" "tablesExist (d\<lparr>recSeq := i\<rparr>) = tablesExist d"
  by (simp_all add: tablesExist_def setRuns_def setRecs_def)

lemma count_rowGroups: "count_list (rowGroups n) (CHR ''?'') = 3 * n"
  by (induction n rule: rowGroups.induct) simp_all

lemma count_recordInsert: "count_list (recordInsert n) (CHR ''?'') = 3 * n"
  by (simp add: recordInsert_def recordInsertPrefix_def count_rowGroups)

lemma recRows_append: "recRows ts i (xs @ ys) = recRows ts i xs @ recRows ts (i + int (length xs)) ys"
  by (induction ts i xs rule: recRows.induct) (simp_all add: algebra_simps)

lemma recRows_owner: "x \<in> set (recRows ts i args) \<Longrightarrow> recRun x \<in> fst ` set args"
  by (induction ts i args rule: recRows.induct) auto

definition recArgsOf :: "json \<Rightarrow> int \<Rightarrow> logRecord list \<Rightarrow> recArgs" where
  "recArgsOf js i rs = map (\<lambda>r. (i, NullTime (Ts r), marshalAttrs js (LAttrs r))) rs"

definition addRecs :: "(time \<Rightarrow> time) \<Rightarrow> recArgs \<Rightarrow> jdb \<Rightarrow> jdb" where
  "addRecs ts args d = (setRecs (recsOf d @ recRows ts (recSeq d) args) d)\<lparr>recSeq := recSeq d + int (length args)\<rparr>"

lemma addRecs_append: "addRecs ts ys (addRecs ts xs d) = addRecs ts (xs @ ys) d"
  by (simp add: addRecs_def recRows_append)

lemma addRecs_Nil: "tablesExist d \<Longrightarrow> addRecs ts [] d = d"
  by (cases d) (auto simp: addRecs_def setRecs_def recsOf_def tablesExist_def)

text \<open>Chunking is invisible: however many records there are, all of them are inserted, in order,
  with one argument per placeholder of each statement.\<close>

lemma insertRecords_implements:
  "\<exists>f. implements F (insertRecords ts js F i rs) f \<and> (\<forall>d. tablesExist d \<longrightarrow> f d = Inr (addRecs ts (recArgsOf js i rs) d, ()))"
proof (induction ts js F i rs rule: insertRecords.induct)
  case (1 ts js F i rs)
  show ?case
  proof (cases "length rs = 0")
    case True
    then have "insertRecords ts js F i rs = ok ()" by (simp add: insertRecords.simps)
    then have "implements F (insertRecords ts js F i rs) (\<lambda>d. Inr (d, ()))" by (simp only: implements_ok)
    moreover have "tablesExist d \<Longrightarrow> Inr (d, ()) = Inr (addRecs ts (recArgsOf js i rs) d, ())" for d
      using True by (simp add: recArgsOf_def addRecs_Nil)
    ultimately show ?thesis by blast
  next
    case False
    let ?chunk = "take recordChunk rs"
    let ?q = "if length ?chunk \<noteq> recordChunk then recordInsert (length ?chunk) else fullRecordInsert"
    let ?args = "map (\<lambda>r. (i, NullTime (Ts r), marshalAttrs js (LAttrs r))) ?chunk"
    have q: "insertRecs ts ?q ?args d = Inr (addRecs ts (recArgsOf js i ?chunk) d, ())" for d
      by (simp add: insertRecs_def fullRecordInsert_def count_recordInsert addRecs_def recArgsOf_def)
    from "1.IH" [OF False refl refl refl] obtain f where f:
      "implements F (insertRecords ts js F i (drop recordChunk rs)) f"
      "\<And>d. tablesExist d \<Longrightarrow> f d = Inr (addRecs ts (recArgsOf js i (drop recordChunk rs)) d, ())" by blast
    have step: "insertRecords ts js F i rs
        = andThen (exec F (insertRecs ts ?q ?args)) (\<lambda>_. insertRecords ts js F i (drop recordChunk rs))"
      using False by (subst insertRecords.simps) (simp add: Let_def)
    have "implements F (insertRecords ts js F i rs) (seqF (insertRecs ts ?q ?args) (\<lambda>_. f))"
      unfolding step by (rule implements_andThen [OF implements_exec f(1)])
    moreover have "seqF (insertRecs ts ?q ?args) (\<lambda>_. f) d = Inr (addRecs ts (recArgsOf js i rs) d, ())"
      if "tablesExist d" for d
    proof -
      have "tablesExist (addRecs ts (recArgsOf js i ?chunk) d)" using that by (simp add: addRecs_def)
      moreover have "recArgsOf js i ?chunk @ recArgsOf js i (drop recordChunk rs) = recArgsOf js i rs"
        by (simp add: recArgsOf_def flip: map_append)
      ultimately show ?thesis unfolding seqF_def q by (simp add: f(2) addRecs_append)
    qed
    ultimately show ?thesis by blast
  qed
qed

lemma runAll_updates: "implements F (runAll (map (update F) fs)) (\<lambda>d. Inr (fold (\<lambda>f d. f d) fs d, ()))"
proof (induction fs)
  case Nil
  show ?case by (auto simp: implements_def)
next
  case (Cons f fs)
  have "implements F (andThen (update F f) (\<lambda>_. runAll (map (update F) fs)))
      (seqF (\<lambda>d. Inr (f d, ())) (\<lambda>_ d. Inr (fold (\<lambda>f d. f d) fs d, ())))"
    by (rule implements_andThen [OF implements_update Cons.IH])
  then show ?case by (simp add: seqF_def [abs_def])
qed

section \<open>Compaction\<close>

fun runDDLs :: "ddl list \<Rightarrow> 'r catalog \<Rightarrow> err + 'r catalog" where
  "runDDLs [] c = Inr c"
| "runDDLs (s # ss) c = (case runDDL s c of Inl e \<Rightarrow> Inl e | Inr c' \<Rightarrow> runDDLs ss c')"

text \<open>Rewriting a table leaves its rows as they were, and no spare table, whatever an earlier,
  interrupted one left behind.\<close>

lemma rewriteTable_id:
  assumes "c table = Some rows"
  shows "runDDLs (rewriteTable table) c = Inr (c(table @ ''_compact'' := None))"
  using assms by (auto simp: rewriteTable_def Let_def fun_eq_iff)

definition withoutSpares :: "jdb \<Rightarrow> jdb" where
  "withoutSpares d = d\<lparr>runsCat := (runsCat d)(''runs_compact'' := None), recsCat := (recsCat d)(''records_compact'' := None)\<rparr>"

lemma withoutSpares_simps [simp]:
  "runsOf (withoutSpares d) = runsOf d" "recsOf (withoutSpares d) = recsOf d"
  "runSeq (withoutSpares d) = runSeq d" "recSeq (withoutSpares d) = recSeq d"
  "tablesExist (withoutSpares d) = tablesExist d"
  by (simp_all add: withoutSpares_def runsOf_def recsOf_def tablesExist_def)

fun foldCompact :: "compactStmt list \<Rightarrow> jdb \<Rightarrow> err + (jdb \<times> unit)" where
  "foldCompact [] d = Inr (d, ())"
| "foldCompact (s # ss) d = (case runCompact s d of Inl e \<Rightarrow> Inl e | Inr (d', _) \<Rightarrow> foldCompact ss d')"

lemma foldCompact_append:
  "foldCompact (xs @ ys) d = (case foldCompact xs d of Inl e \<Rightarrow> Inl e | Inr (d', _) \<Rightarrow> foldCompact ys d')"
  by (induction xs arbitrary: d) (auto split: sum.splits)

lemma foldCompact_records:
  "foldCompact (map OnRecords ss) d = (case runDDLs ss (recsCat d) of Inl e \<Rightarrow> Inl e | Inr c \<Rightarrow> Inr (d\<lparr>recsCat := c\<rparr>, ()))"
  by (induction ss arbitrary: d) (auto split: sum.splits)

lemma foldCompact_runs:
  "foldCompact (map OnRuns ss) d = (case runDDLs ss (runsCat d) of Inl e \<Rightarrow> Inl e | Inr c \<Rightarrow> Inr (d\<lparr>runsCat := c\<rparr>, ()))"
  by (induction ss arbitrary: d) (auto split: sum.splits)

lemma compaction_id: "tablesExist d \<Longrightarrow> foldCompact compaction d = Inr (withoutSpares d, ())"
  unfolding compaction_def foldCompact_append foldCompact_records foldCompact_runs
  by (auto simp: tablesExist_def rewriteTable_id withoutSpares_def)

lemma runAll_compact: "implements F (runAll (map (\<lambda>st. exec F (runCompact st)) ss)) (foldCompact ss)"
proof (induction ss)
  case Nil
  show ?case by (auto simp: implements_def)
next
  case (Cons s ss)
  have "implements F (andThen (exec F (runCompact s)) (\<lambda>_. runAll (map (\<lambda>st. exec F (runCompact st)) ss)))
      (seqF (runCompact s) (\<lambda>_. foldCompact ss))"
    by (rule implements_andThen [OF implements_exec Cons.IH])
  moreover have "seqF (runCompact s) (\<lambda>_. foldCompact ss) = foldCompact (s # ss)"
    by (rule ext) (simp add: seqF_def split: sum.split prod.split)
  ultimately show ?case by (simp only: list.map runAll.simps)
qed


section \<open>The invariant\<close>

text \<open>Runs have distinct ids, all drawn from the sequence, and every record belongs to a run.\<close>

definition jdbOk :: "jdb \<Rightarrow> bool" where
  "jdbOk d \<longleftrightarrow> tablesExist d \<and> keyed rid (runsOf d) \<and> (\<forall>r \<in> set (runsOf d). 0 < rid r \<and> rid r < runSeq d) \<and> 0 < runSeq d
     \<and> (\<forall>x \<in> set (recsOf d). recRun x \<in> rid ` set (runsOf d))"

lemma jdbOk_ids:
  "jdbOk d \<longleftrightarrow> tablesExist d \<and> keyed rid (runsOf d) \<and> (\<forall>i \<in> rid ` set (runsOf d). 0 < i \<and> i < runSeq d) \<and> 0 < runSeq d
     \<and> (\<forall>x \<in> set (recsOf d). recRun x \<in> rid ` set (runsOf d))"
  by (simp add: jdbOk_def)

text \<open>No run's parent is missing or nested itself.\<close>

definition nestedOk :: "jdb \<Rightarrow> bool" where
  "nestedOk d \<longleftrightarrow> (\<forall>r \<in> set (runsOf d). \<forall>p. rparent r = Some p \<longrightarrow>
     (\<exists>r' \<in> set (runsOf d). rid r' = p \<and> rparent r' = None))"

lemma rcount_same: "rcount r = n \<Longrightarrow> r\<lparr>rid := i, rcount := n\<rparr> = r\<lparr>rid := i\<rparr>"
  by (cases r) simp

lemma insertRun_ok:
  assumes "jdbOk d" "insertRun g r d = Inr (d', i)"
  shows "i = runSeq d + int g \<and> d' = (setRuns (runsOf d @ [r\<lparr>rid := i\<rparr>]) d)\<lparr>runSeq := i + 1\<rparr> \<and> i \<notin> rid ` set (runsOf d)"
proof -
  have "runSeq d + int g \<notin> rid ` set (runsOf d)" using assms(1) by (auto simp: jdbOk_def)
  with assms(2) show ?thesis
    by (auto simp: insertRun_def insertKeyed_def castInt32_def Let_def rcount_same
        split: option.splits if_splits sum.splits)
qed

lemma jdbOk_addRun:
  assumes "jdbOk d" "i = runSeq d + int g"
  shows "jdbOk ((setRuns (runsOf d @ [r\<lparr>rid := i\<rparr>]) d)\<lparr>runSeq := i + 1\<rparr>)"
proof -
  have "rid x < i" "0 < rid x" if "x \<in> set (runsOf d)" for x
    using assms that by (fastforce simp: jdbOk_def)+
  moreover have "0 < i" using assms by (simp add: jdbOk_def)
  ultimately show ?thesis using assms(1) by (fastforce simp: jdbOk_def keyed_def)
qed

lemma jdbOk_insertRun: "jdbOk d \<Longrightarrow> insertRun g r d = Inr (d', i) \<Longrightarrow> jdbOk d'"
  using insertRun_ok [of d g r d' i] jdbOk_addRun [of d i g r] by simp

lemma jdbOk_addRecs: "jdbOk d \<Longrightarrow> i \<in> rid ` set (runsOf d) \<Longrightarrow> jdbOk (addRecs ts (recArgsOf js i rs) d)"
  by (auto simp: jdbOk_def addRecs_def recArgsOf_def dest!: recRows_owner)

definition addF :: "nat \<Rightarrow> (time \<Rightarrow> time) \<Rightarrow> json \<Rightarrow> run \<Rightarrow> logRecord list \<Rightarrow> jdb \<Rightarrow> jdb" where
  "addF g ts js r records d =
     (let i = runSeq d + int g in
      addRecs ts (recArgsOf js i records) ((setRuns (runsOf d @ [(runRow ts js r)\<lparr>rid := i\<rparr>]) d)\<lparr>runSeq := i + 1\<rparr>))"

lemma Add_atomic:
  "\<exists>f. atomically F (inTx F (andThen (exec F (insertRun g (runRow ts js r))) (\<lambda>i.
         andThen (insertRecords ts js F i records) (\<lambda>_. ok i)))) f
     \<and> (\<forall>d d' i. jdbOk d \<longrightarrow> f d = Inr (d', i) \<longrightarrow> i = runSeq d + int g \<and> d' = addF g ts js r records d)
     \<and> (\<forall>d. jdbOk d \<longrightarrow> - (2 ^ 31) \<le> Count r \<longrightarrow> Count r < 2 ^ 31 \<longrightarrow> f d = Inr (addF g ts js r records d, runSeq d + int g))"
proof -
  have "\<forall>i. \<exists>f. implements F (insertRecords ts js F i records) f
      \<and> (\<forall>d. tablesExist d \<longrightarrow> f d = Inr (addRecs ts (recArgsOf js i records) d, ()))"
    using insertRecords_implements by blast
  from choice [OF this] obtain h where h: "\<And>i. implements F (insertRecords ts js F i records) (h i)"
      "\<And>i d. tablesExist d \<Longrightarrow> h i d = Inr (addRecs ts (recArgsOf js i records) d, ())"
    by blast
  define f where "f = seqF (insertRun g (runRow ts js r)) (\<lambda>i. seqF (h i) (\<lambda>_ d. Inr (d, i)))"
  have "implements F (andThen (exec F (insertRun g (runRow ts js r))) (\<lambda>i.
         andThen (insertRecords ts js F i records) (\<lambda>_. ok i))) f"
    unfolding f_def by (intro implements_andThen implements_exec h(1) implements_ok)
  then have "atomically F (inTx F (andThen (exec F (insertRun g (runRow ts js r))) (\<lambda>i.
         andThen (insertRecords ts js F i records) (\<lambda>_. ok i)))) f" by (rule atomically_inTx)
  moreover have "i = runSeq d + int g \<and> d' = addF g ts js r records d" if d: "jdbOk d" and f: "f d = Inr (d', i)" for d d' i
  proof -
    from f obtain d1 j where 1: "insertRun g (runRow ts js r) d = Inr (d1, j)" "seqF (h j) (\<lambda>_ d. Inr (d, j)) d1 = Inr (d', i)"
      by (auto simp: f_def seqF_def split: sum.splits)
    from insertRun_ok [OF d 1(1)] have "tablesExist d1" using d by (auto simp: jdbOk_def)
    with 1(2) insertRun_ok [OF d 1(1)] show ?thesis by (auto simp: seqF_def h(2) addF_def Let_def)
  qed
  moreover have "f d = Inr (addF g ts js r records d, runSeq d + int g)"
    if d: "jdbOk d" and c: "- (2 ^ 31) \<le> Count r" "Count r < 2 ^ 31" for d
  proof -
    have "runSeq d + int g \<notin> rid ` set (runsOf d)" using d by (auto simp: jdbOk_def)
    then have "insertRun g (runRow ts js r) d
        = Inr ((setRuns (runsOf d @ [(runRow ts js r)\<lparr>rid := runSeq d + int g\<rparr>]) d)\<lparr>runSeq := runSeq d + int g + 1\<rparr>, runSeq d + int g)"
      using c by (simp add: insertRun_def insertKeyed_def castInt32_def Let_def runRow_def)
    moreover have "tablesExist ((setRuns (runsOf d @ [(runRow ts js r)\<lparr>rid := runSeq d + int g\<rparr>]) d)\<lparr>runSeq := runSeq d + int g + 1\<rparr>)"
      using d by (simp add: jdbOk_def)
    ultimately show ?thesis by (simp add: f_def seqF_def h(2) addF_def Let_def)
  qed
  ultimately show ?thesis by blast
qed

lemma jdbOk_addF: "jdbOk d \<Longrightarrow> jdbOk (addF g ts js r records d)"
  unfolding addF_def Let_def by (intro jdbOk_addRecs jdbOk_addRun refl) simp_all

lemma jdbOk_deletes:
  assumes "jdbOk d" "\<And>x. x \<in> set (recsOf d) \<Longrightarrow> \<not> Q x \<Longrightarrow> \<exists>r \<in> set (runsOf d). rid r = recRun x \<and> \<not> P r"
  shows "jdbOk (deleteRuns P (deleteRecs Q d))"
proof -
  have "recRun x \<in> rid ` set (runsOf (deleteRuns P (deleteRecs Q d)))"
    if "x \<in> set (recsOf (deleteRuns P (deleteRecs Q d)))" for x
    using assms(2) [of x] that by (force simp: deleteRuns_def deleteRecs_def)
  moreover have "tablesExist d" "keyed rid (runsOf d)" "\<forall>r \<in> set (runsOf d). 0 < rid r \<and> rid r < runSeq d" "0 < runSeq d"
    using assms(1) by (simp_all add: jdbOk_def)
  ultimately show ?thesis by (simp add: jdbOk_def deleteRuns_def deleteRecs_def keyed_filter)
qed

lemma keyed_rid: "jdbOk d \<Longrightarrow> r \<in> set (runsOf d) \<Longrightarrow> r' \<in> set (runsOf d) \<Longrightarrow> rid r = rid r' \<Longrightarrow> r = r'"
  by (rule keyed_unique [of rid]) (simp_all add: jdbOk_def)

lemma deleteRuns_deleteRuns: "deleteRuns P (deleteRuns Q d) = deleteRuns (\<lambda>r. P r \<or> Q r) d"
  by (simp add: deleteRuns_def setRuns_def runsOf_def conj_commute)

text \<open>The three deletions of \<open>Delete\<close> and of \<open>evict\<close> together.\<close>

definition deleteF :: "int \<Rightarrow> jdb \<Rightarrow> jdb" where
  "deleteF i d =
     (let gone = (\<lambda>r. rid r = i \<or> rparent r = Some i) in
      deleteRuns gone (deleteRecs (\<lambda>x. recRun x = i \<or> (\<exists>r \<in> set (runsOf d). rid r = recRun x \<and> rparent r = Some i)) d))"

lemma delete_fold: "fold (\<lambda>f d. f d) (deleteStatements i) d = deleteF i d"
proof -
  let ?A = "\<lambda>x. recRun x = i \<or> recRun x \<in> set (map rid (filter (\<lambda>r. rparent r = Some i) (runsOf d)))"
  have "fold (\<lambda>f d. f d) (deleteStatements i) d
      = deleteRuns (\<lambda>r. rid r = i \<or> rparent r = Some i) (deleteRecs ?A d)"
    by (simp add: deleteStatements_def deleteRuns_deleteRuns)
  also have "?A = (\<lambda>x. recRun x = i \<or> (\<exists>r \<in> set (runsOf d). rid r = recRun x \<and> rparent r = Some i))"
    by (rule ext) force
  finally show ?thesis by (simp only: deleteF_def Let_def)
qed

lemma jdbOk_deleteF:
  assumes "jdbOk d"
  shows "jdbOk (deleteF i d)"
  unfolding deleteF_def Let_def
proof (rule jdbOk_deletes [OF assms])
  fix x assume x: "x \<in> set (recsOf d)" "\<not> (recRun x = i \<or> (\<exists>r \<in> set (runsOf d). rid r = recRun x \<and> rparent r = Some i))"
  then obtain r where "r \<in> set (runsOf d)" "rid r = recRun x" using assms by (auto simp: jdbOk_def)
  with x show "\<exists>r \<in> set (runsOf d). rid r = recRun x \<and> \<not> (rid r = i \<or> rparent r = Some i)" by auto
qed

text \<open>The runs that an eviction takes: the doomed and their children.\<close>

definition takenBy :: "doom \<Rightarrow> jdb \<Rightarrow> runrow \<Rightarrow> bool" where
  "takenBy P d r \<longleftrightarrow> P d r \<or> (\<exists>r' \<in> set (runsOf d). P d r' \<and> rparent r = Some (rid r'))"

definition evictF :: "doom \<Rightarrow> jdb \<Rightarrow> jdb" where
  "evictF P d =
     deleteRuns (takenBy P d) (deleteRecs (\<lambda>x. \<exists>r \<in> set (runsOf d). rid r = recRun x \<and> takenBy P d r) d)"

text \<open>A predicate on top-level runs that deletions of nested runs and of records do not change.\<close>

definition topOnly :: "doom \<Rightarrow> bool" where
  "topOnly P \<longleftrightarrow> (\<forall>d r. P d r \<longrightarrow> rparent r = None)
     \<and> (\<forall>d d'. filter (\<lambda>r. rparent r = None) (runsOf d) = filter (\<lambda>r. rparent r = None) (runsOf d') \<longrightarrow> P d = P d')"

lemma topOnlyD: "topOnly P \<Longrightarrow> filter (\<lambda>r. rparent r = None) (runsOf d) = filter (\<lambda>r. rparent r = None) (runsOf d')
     \<Longrightarrow> P d = P d'"
  unfolding topOnly_def by blast

lemma topOnly_olderThan: "topOnly (olderThan ts before)"
  by (auto simp: topOnly_def olderThan_def fun_eq_iff)

lemma topOnly_beyondNewest: "topOnly (beyondNewest n)"
  by (auto simp: topOnly_def beyondNewest_def newestFirst_def fun_eq_iff)

lemma evict_fold:
  assumes "topOnly P"
  shows "fold (\<lambda>f d. f d) (evictStatements P) d = evictF P d"
proof -
  let ?child = "\<lambda>r. case rparent r of None \<Rightarrow> False | Some p \<Rightarrow> p \<in> set (doomedIds P d)"
  let ?d1 = "deleteRecs (\<lambda>x. recRun x \<in> set (map rid (filter (\<lambda>r. P d r \<or> ?child r) (runsOf d)))) d"
  have child: "?child r = (\<exists>r' \<in> set (runsOf d). P d r' \<and> rparent r = Some (rid r'))" for r
    by (auto simp: doomedIds_def split: option.split)
  have P1: "P ?d1 = P d" by (rule topOnlyD [OF assms]) (simp add: deleteRecs_def)
  have runs1: "runsOf ?d1 = runsOf d" by (simp add: deleteRecs_def)
  have "doomedIds P x = doomedIds P d" if "P x = P d" "runsOf x = runsOf d" for x by (simp add: doomedIds_def that)
  from this [OF P1 runs1] have ids: "doomedIds P ?d1 = doomedIds P d" .
  have "filter (\<lambda>r. rparent r = None) (runsOf (deleteRuns ?child ?d1)) = filter (\<lambda>r. rparent r = None) (runsOf d)"
    by (auto simp: deleteRuns_def deleteRecs_def intro: filter_cong)
  then have P2: "P (deleteRuns ?child ?d1) = P d" by (rule topOnlyD [OF assms])
  have "fold (\<lambda>f d. f d) (evictStatements P) d = deleteRuns (P d) (deleteRuns ?child ?d1)"
    by (simp only: evictStatements_def fold_simps ids P2)
  also have "\<dots> = deleteRuns (takenBy P d) ?d1"
    by (simp add: deleteRuns_deleteRuns child takenBy_def [abs_def])
  also have "?d1 = deleteRecs (\<lambda>x. \<exists>r \<in> set (runsOf d). rid r = recRun x \<and> takenBy P d r) d"
    by (rule arg_cong [where f = "\<lambda>Q. deleteRecs Q d"]) (auto simp: child takenBy_def fun_eq_iff image_iff; metis)
  finally show ?thesis by (simp add: evictF_def)
qed

lemma jdbOk_evictF:
  assumes "jdbOk d"
  shows "jdbOk (evictF P d)"
  unfolding evictF_def
proof (rule jdbOk_deletes [OF assms])
  fix x assume x: "x \<in> set (recsOf d)" "\<not> (\<exists>r \<in> set (runsOf d). rid r = recRun x \<and> takenBy P d r)"
  then obtain r where "r \<in> set (runsOf d)" "rid r = recRun x" using assms by (auto simp: jdbOk_def)
  with x show "\<exists>r \<in> set (runsOf d). rid r = recRun x \<and> \<not> takenBy P d r" by auto
qed

lemma jdbOk_withoutSpares: "jdbOk d \<Longrightarrow> jdbOk (withoutSpares d)"
  by (simp add: jdbOk_def)


section \<open>What the methods do\<close>

definition doomedCount :: "doom \<Rightarrow> jdb \<Rightarrow> int" where
  "doomedCount P d = int (length (filter (P d) (runsOf d)))"

lemma evictTx_atomic:
  assumes "topOnly P"
  shows "\<exists>f. atomically F (inTx F (andThen (runAll (map (update F) (evictStatements P))) (\<lambda>_.
              runAll (map (\<lambda>st. exec F (runCompact st)) compaction)))) f
    \<and> (\<forall>d. tablesExist d \<longrightarrow> f d = Inr (withoutSpares (evictF P d), ()))"
proof -
  have "atomically F (inTx F (andThen (runAll (map (update F) (evictStatements P))) (\<lambda>_.
              runAll (map (\<lambda>st. exec F (runCompact st)) compaction))))
      (seqF (\<lambda>d. Inr (fold (\<lambda>f d. f d) (evictStatements P) d, ())) (\<lambda>_. foldCompact compaction))"
    by (intro atomically_inTx implements_andThen runAll_updates runAll_compact)
  moreover have "tablesExist (evictF P d)" if "tablesExist d" for d
    using that by (simp add: evictF_def deleteRuns_def deleteRecs_def)
  ultimately show ?thesis
    by (intro exI conjI) (assumption, simp add: seqF_def evict_fold [OF assms] compaction_id)
qed

lemma query_Inl: "query F q c = (Inl e, d) \<Longrightarrow> idle_conn c \<Longrightarrow> idle_conn d \<and> committed d = committed c"
  using atomically_Inl [OF atomically_query] by blast

lemma query_Inr: "query F q c = (Inr x, d) \<Longrightarrow> idle_conn c \<Longrightarrow> idle_conn d \<and> committed d = committed c \<and> x = q (committed c)"
  using atomically_Inr [OF atomically_query] by fastforce

lemma update_id: "update F (\<lambda>d. d) c = (r, d) \<Longrightarrow> idle_conn c \<Longrightarrow> idle_conn d \<and> committed d = committed c"
  using atomically_Inl [OF atomically_update, of c F "\<lambda>d. d" _ d] atomically_Inr [OF atomically_update, of c F "\<lambda>d. d" _ d]
  by (cases r) simp_all

lemma evictBody_cases:
  assumes "evictBody F P c = (e, v, c')" "idle_conn c" "tablesExist (committed c)" "topOnly P"
  shows "idle_conn c' \<and> ((committed c' = committed c \<and> v = Some 0 \<and> (e = None \<longrightarrow> doomedCount P (committed c) = 0))
    \<or> (committed c' = withoutSpares (evictF P (committed c)) \<and> v = Some (doomedCount P (committed c))))"
proof -
  obtain q c1 where q: "query F (\<lambda>d. int (length (filter (P d) (runsOf d)))) c = (q, c1)" by fastforce
  show ?thesis
  proof (cases q)
    case (Inl x)
    with q query_Inl [of F _ c x c1] assms(1,2) show ?thesis by (auto simp: evictBody_def)
  next
    case (Inr n)
    with query_Inr [of F _ c n c1] q assms(2)
    have c1: "idle_conn c1" "committed c1 = committed c" "n = doomedCount P (committed c)"
      by (auto simp: doomedCount_def)
    show ?thesis
    proof (cases "n = 0")
      case True
      with assms(1) q Inr c1 show ?thesis by (auto simp: evictBody_def)
    next
      case False
      let ?tx = "inTx F (andThen (runAll (map (update F) (evictStatements P))) (\<lambda>_.
              runAll (map (\<lambda>st. exec F (runCompact st)) compaction)))"
      obtain f where f: "atomically F ?tx f" "\<And>d. tablesExist d \<Longrightarrow> f d = Inr (withoutSpares (evictF P d), ())"
        using evictTx_atomic [OF assms(4)] by blast
      obtain t c2 where t: "?tx c1 = (t, c2)" by fastforce
      show ?thesis
      proof (cases t)
        case (Inl x)
        with t have "?tx c1 = (Inl x, c2)" by simp
        from atomically_Inl [OF f(1) c1(1) this] have "idle_conn c2" "committed c2 = committed c" using c1 by simp_all
        with assms(1) q Inr False t Inl c1 show ?thesis by (auto simp: evictBody_def)
      next
        case u: (Inr u)
        with t have "?tx c1 = (Inr u, c2)" by simp
        from atomically_Inr [OF f(1) c1(1) this] f(2) [OF assms(3)]
        have c2: "idle_conn c2" "committed c2 = withoutSpares (evictF P (committed c))" using c1 by simp_all
        obtain k c3 where k: "update F (\<lambda>d. d) c2 = (k, c3)" by fastforce
        from update_id [OF k c2(1)] c2 have "idle_conn c3" "committed c3 = withoutSpares (evictF P (committed c))" by simp_all
        with assms(1) q Inr False t u k c1 show ?thesis by (cases k) (simp_all add: evictBody_def)
      qed
    qed
  qed
qed

text \<open>The count that \<open>evict\<close> returns is what it removed, also when it returns an error.\<close>

lemma evict_cases:
  assumes "evict c P s = ((k, e), s')" "idle_conn (tablesOf s)" "tablesExist (committed (tablesOf s))" "topOnly P"
  shows "idle_conn (tablesOf s')
    \<and> ((committed (tablesOf s') = committed (tablesOf s) \<and> k = 0 \<and> (e = None \<longrightarrow> doomedCount P (committed (tablesOf s)) = 0))
       \<or> (committed (tablesOf s') = withoutSpares (evictF P (committed (tablesOf s))) \<and> k = doomedCount P (committed (tablesOf s))))"
proof -
  obtain e1 v w where d: "Do (env c) (lockPath c) (evictBody (engine c) P) (opened s) = (e1, v, w)" by (metis prod_cases3)
  with assms(1) have r: "k = or_default v 0" "e = e1" "s' = s\<lparr>opened := w\<rparr>" by (simp_all add: evict_def)
  from Do_cases [OF d] show ?thesis
  proof (elim disjE exE conjE)
    assume "e1 \<noteq> None" "v = None" "disk w = disk (opened s)"
    with r assms(2) show ?thesis by (auto simp: tablesOf_def)
  next
    fix e0 assume b: "evictBody (engine c) P (disk (opened s)) = (e0, v, disk w)"
      and e1: "e1 = (case asLocked e0 of None \<Rightarrow> walErr (env c) | Some x \<Rightarrow> Some x)"
    have "e1 = None \<Longrightarrow> e0 = None" using e1 by (auto split: option.splits)
    with evictBody_cases [OF b] assms(2-4) r show ?thesis by (auto simp: tablesOf_def)
  qed
qed

lemma jdbOk_evict:
  assumes "evict c P s = ((k, e), s')" "idle_conn (tablesOf s)" "jdbOk (committed (tablesOf s))" "topOnly P"
  shows "idle_conn (tablesOf s') \<and> jdbOk (committed (tablesOf s'))"
  using evict_cases [OF assms(1,2) _ assms(4)] assms(3) jdbOk_withoutSpares jdbOk_evictF
  by (auto simp: jdbOk_def)

lemma finishRun_atomic: "atomically F (exec F (finishRunStmt ts t i)) (finishRunStmt ts t i)"
  by (rule atomically_exec)

lemma jdbOk_finish: "jdbOk d \<Longrightarrow> finishRunStmt ts t i d = Inr (d', u) \<Longrightarrow> jdbOk d'"
proof -
  assume d: "jdbOk d" and f: "finishRunStmt ts t i d = Inr (d', u)"
  show "jdbOk d'"
  proof (cases "i \<in> rid ` set (runsOf d)")
    case False
    with f d show ?thesis by (simp add: finishRunStmt_def)
  next
    case True
    with f obtain n where d': "d' = setRuns (map (\<lambda>r. if rid r = i then r\<lparr>rfinished := Some (ts t), rcount := Some n\<rparr> else r) (runsOf d)) d"
      by (auto simp: finishRunStmt_def split: sum.splits)
    have "rid (if rid r = i then r\<lparr>rfinished := Some (ts t), rcount := Some n\<rparr> else r) = rid r" for r :: runrow by simp
    then have "map rid (map (\<lambda>r. if rid r = i then r\<lparr>rfinished := Some (ts t), rcount := Some n\<rparr> else r) (runsOf d)) = map rid (runsOf d)"
      by (simp add: o_def)
    then have m: "map rid (runsOf d') = map rid (runsOf d)" by (simp add: d')
    from arg_cong [where f = set, OF m] have i: "rid ` set (runsOf d') = rid ` set (runsOf d)" by (simp only: set_map)
    have "tablesExist d'" "runSeq d' = runSeq d" "recsOf d' = recsOf d" using d by (simp_all add: d' jdbOk_def)
    with d show ?thesis unfolding jdbOk_ids keyed_def m i by simp
  qed
qed

datatype jOp =
    JStart string string attrs
  | JFinish int
  | JAdd run "logRecord list"
  | JDelete int
  | JPrune time
  | JRetain int

fun journal_call :: "(time \<Rightarrow> time) \<Rightarrow> json \<Rightarrow> call \<Rightarrow> jOp \<Rightarrow> jdb store \<Rightarrow> jdb store" where
  "journal_call ts js c (JStart kind nm as) s = snd (journal_StartRun ts js c kind nm as s)"
| "journal_call ts js c (JFinish i) s = snd (journal_FinishRun ts c i s)"
| "journal_call ts js c (JAdd r rs) s = snd (journal_Add ts js c r rs s)"
| "journal_call ts js c (JDelete i) s = snd (journal_Delete c i s)"
| "journal_call ts js c (JPrune t) s = snd (journal_Prune ts c t s)"
| "journal_call ts js c (JRetain n) s = snd (journal_Retain c n s)"

lemma within_jdbOk:
  assumes "atomically (engine c) m f" "\<And>d d' x. jdbOk d \<Longrightarrow> f d = Inr (d', x) \<Longrightarrow> jdbOk d'"
    and "idle_conn (tablesOf s)" "jdbOk (committed (tablesOf s))"
  shows "idle_conn (tablesOf (snd (within u c m s))) \<and> jdbOk (committed (tablesOf (snd (within u c m s))))"
proof -
  obtain r s' where w: "within u c m s = (r, s')" by fastforce
  from stored.run_idle [OF assms(1,3) w] stored.run_invariant [where I = jdbOk, OF assms(1,3) w assms(2) assms(4)]
  show ?thesis by (simp add: w)
qed

lemma delete_atomic:
  "atomically F (inTx F (runAll (map (update F) (deleteStatements i)))) (\<lambda>d. Inr (deleteF i d, ()))"
  using atomically_inTx [OF runAll_updates, of F "deleteStatements i"] by (simp only: delete_fold)

lemma journal_call_ok:
  assumes "idle_conn (tablesOf s)" "jdbOk (committed (tablesOf s))"
  shows "idle_conn (tablesOf (journal_call ts js c op s)) \<and> jdbOk (committed (tablesOf (journal_call ts js c op s)))"
proof (cases op)
  case (JStart kind nm as)
  show ?thesis unfolding JStart journal_call.simps journal_StartRun_def
    by (rule within_jdbOk [OF atomically_exec jdbOk_insertRun assms])
next
  case (JFinish i)
  have "idle_conn (tablesOf (snd (within journalErrUnavailable c (exec (engine c) (finishRunStmt ts (now c) i)) s)))
      \<and> jdbOk (committed (tablesOf (snd (within journalErrUnavailable c (exec (engine c) (finishRunStmt ts (now c) i)) s))))"
    by (rule within_jdbOk [OF finishRun_atomic _ assms]) (erule (1) jdbOk_finish)
  with assms show ?thesis by (simp add: JFinish journal_FinishRun_def)
next
  case (JAdd r rs)
  from Add_atomic [of "engine c" "spent c" ts js r rs] show ?thesis
  proof (elim exE conjE)
    fix f
    assume a: "atomically (engine c) (inTx (engine c) (andThen (exec (engine c) (insertRun (spent c) (runRow ts js r))) (\<lambda>i.
         andThen (insertRecords ts js (engine c) i rs) (\<lambda>_. ok i)))) f"
      and f: "\<forall>d d' i. jdbOk d \<longrightarrow> f d = Inr (d', i) \<longrightarrow> i = runSeq d + int (spent c) \<and> d' = addF (spent c) ts js r rs d"
    have "jdbOk d'" if "jdbOk d" "f d = Inr (d', x)" for d d' x
      using f [rule_format, OF that] jdbOk_addF [OF that(1)] by simp
    from within_jdbOk [OF a this assms, where u = journalErrUnavailable] show ?thesis
      by (simp only: JAdd journal_call.simps journal_Add_def)
  qed
next
  case (JDelete i)
  have "idle_conn (tablesOf (snd (within journalErrUnavailable c (inTx (engine c) (runAll (map (update (engine c)) (deleteStatements i)))) s)))
      \<and> jdbOk (committed (tablesOf (snd (within journalErrUnavailable c (inTx (engine c) (runAll (map (update (engine c)) (deleteStatements i)))) s))))"
    by (rule within_jdbOk [OF delete_atomic _ assms]) (auto intro: jdbOk_deleteF)
  with assms show ?thesis by (simp add: JDelete journal_Delete_def)
next
  case (JPrune t)
  obtain k e s' where ev: "evict c (olderThan ts t) s = ((k, e), s')" by (metis prod_cases3 prod.exhaust)
  from jdbOk_evict [OF ev assms topOnly_olderThan] ev assms show ?thesis
    by (simp add: JPrune journal_Prune_def)
next
  case (JRetain n)
  obtain k e s' where ev: "evict c (beyondNewest (nat n)) s = ((k, e), s')" by (metis prod_cases3 prod.exhaust)
  from jdbOk_evict [OF ev assms topOnly_beyondNewest] ev assms show ?thesis
    by (simp add: JRetain journal_Retain_def)
qed


section \<open>Properties\<close>

definition sampleRun :: "int \<Rightarrow> int option \<Rightarrow> time \<Rightarrow> int option \<Rightarrow> runrow" where
  "sampleRun i p t n = \<lparr>rid = i, rparent = p, rkind = ''sync'', rname = ''r'', rstarted = t, rfinished = None,
     rcount = n, rerror = None, rattrs = None\<rparr>"

definition sampleJournal :: jdb where
  "sampleJournal =
     \<lparr>runsCat = [''runs'' \<mapsto> [sampleRun 1 None 10 None, sampleRun 2 (Some 1) 11 (Some 3), sampleRun 3 (Some 1) 12 (Some 4),
                  sampleRun 4 None 20 None, sampleRun 5 (Some 4) 21 (Some 5)]],
      recsCat = [''records'' \<mapsto> [\<lparr>recId = 1, recRun = 2, recTs = Some 11, recAttrs = None\<rparr>,
                  \<lparr>recId = 2, recRun = 5, recTs = None, recAttrs = None\<rparr>]],
      runSeq = 6, recSeq = 3\<rparr>"

lemma jdbOk_sample: "jdbOk sampleJournal"
  by (simp add: jdbOk_def sampleJournal_def tablesExist_def keyed_def runsOf_def recsOf_def sampleRun_def)

definition noJson :: json where
  "noJson = \<lparr>Marshal = (\<lambda>_. None), Unmarshal = (\<lambda>_. None)\<rparr>"

text \<open>Claim C20: every writing method, whatever it meets, leaves a journal in which run ids are
  distinct and below the sequence and in which every record belongs to a run that exists: no
  interruption of \<open>Add\<close>, \<open>Delete\<close>, \<open>Prune\<close> or \<open>Retain\<close> orphans a record or reuses an id.\<close>

theorem journal_no_orphan_records:
  assumes "idle_conn (tablesOf s)" "jdbOk (committed (tablesOf s))"
    and "d' = committed (tablesOf (journal_call ts js c op s))"
  shows "distinct (map rid (runsOf d')) \<and> (\<forall>r \<in> set (runsOf d'). rid r < runSeq d')
    \<and> recRun ` set (recsOf d') \<subseteq> rid ` set (runsOf d')"
  using journal_call_ok [OF assms(1,2), of ts js c op] assms(3) by (auto simp: jdbOk_def keyed_def)

theorem journal_no_orphan_records_witness:
  "recRun ` set (recsOf (committed (tablesOf (journal_call (\<lambda>t. t) noJson (calmAt 30) (JDelete 1) (freshStore sampleJournal)))))
     \<subseteq> rid ` set (runsOf (committed (tablesOf (journal_call (\<lambda>t. t) noJson (calmAt 30) (JDelete 1) (freshStore sampleJournal)))))"
proof -
  have "jdbOk (committed (tablesOf (freshStore sampleJournal)))" by (simp add: jdbOk_sample)
  from journal_no_orphan_records [OF committed_freshStore(2) this refl] show ?thesis by blast
qed

text \<open>The order of \<open>Retain\<close>: later start, then larger id.\<close>

definition newer :: "runrow \<Rightarrow> runrow \<Rightarrow> bool" where
  "newer r r' \<longleftrightarrow> rstarted r > rstarted r' \<or> rstarted r = rstarted r' \<and> rid r > rid r'"

lemma insort_newer:
  assumes "sorted_wrt (\<lambda>r r'. newer r' r) xs" "\<forall>y \<in> set xs. rid x < rid y"
  shows "sorted_wrt (\<lambda>r r'. newer r' r) (insort_key rstarted x xs)"
  using assms
proof (induction xs)
  case (Cons y ys)
  show ?case
  proof (cases "rstarted x \<le> rstarted y")
    case True
    have "newer y x" using True Cons.prems(2) by (auto simp: newer_def)
    moreover have "newer z x" if "z \<in> set ys" for z
    proof -
      have "newer z y" using Cons.prems(1) that by simp
      with True Cons.prems(2) that show ?thesis by (auto simp: newer_def)
    qed
    ultimately show ?thesis using True Cons.prems(1) by simp
  next
    case False
    have "sorted_wrt (\<lambda>r r'. newer r' r) (insort_key rstarted x ys)" using Cons by simp
    moreover have "newer x y" using False by (simp add: newer_def)
    ultimately show ?thesis using False Cons.prems(1) by (simp add: set_insort_key)
  qed
qed simp

lemma sort_newer:
  "sorted_wrt (\<lambda>r r'. rid r < rid r') xs \<Longrightarrow> sorted_wrt (\<lambda>r r'. newer r' r) (sort_key rstarted xs)"
proof (induction xs)
  case (Cons x xs)
  then show ?case unfolding sort_key_simps by (intro insort_newer) simp_all
qed simp

lemma sorted_wrt_ids:
  assumes "distinct (map rid xs)"
  shows "sorted_wrt (\<lambda>r r'. rid r < rid r') (sort_key rid xs)"
proof -
  have "sorted (map rid (sort_key rid xs))" "distinct (map rid (sort_key rid xs))"
    using assms by (simp_all add: distinct_map)
  then have "sorted_wrt (<) (map rid (sort_key rid xs))" by (simp add: strict_sorted_iff)
  then show ?thesis by (simp add: sorted_wrt_map)
qed

lemma newestFirst_sorted:
  assumes "keyed rid t"
  shows "sorted_wrt newer (newestFirst t)"
proof -
  have "distinct (map rid (filter (\<lambda>r. rparent r = None) t))"
    using assms by (simp add: keyed_def distinct_map_filter_key)
  from sort_newer [OF sorted_wrt_ids [OF this]] show ?thesis
    by (simp add: newestFirst_def sorted_wrt_rev)
qed

lemma set_newestFirst [simp]: "set (newestFirst t) = {r \<in> set t. rparent r = None}"
  "length (newestFirst t) = length (filter (\<lambda>r. rparent r = None) t)"
  by (simp_all add: newestFirst_def)

lemma distinct_newestFirst: "keyed rid t \<Longrightarrow> distinct (newestFirst t)"
  by (auto simp: newestFirst_def keyed_def distinct_map)


text \<open>The eviction of \<open>Retain\<close> in terms of what is kept.\<close>

lemma beyondNewest_kept:
  assumes "jdbOk d" "r \<in> set (runsOf d)"
  shows "beyondNewest n d r \<longleftrightarrow> rparent r = None \<and> r \<notin> set (take n (newestFirst (runsOf d)))"
proof -
  have "set (take n (newestFirst (runsOf d))) \<subseteq> set (runsOf d)" by (auto dest: in_set_takeD)
  then have "rid r \<in> rid ` set (take n (newestFirst (runsOf d))) \<longleftrightarrow> r \<in> set (take n (newestFirst (runsOf d)))"
    using keyed_rid [OF assms] by (auto simp: image_iff)
  then show ?thesis by (simp add: beyondNewest_def)
qed

lemma retain_taken:
  assumes "jdbOk d" "kept = set (take n (newestFirst (runsOf d)))" "r \<in> set (runsOf d)"
  shows "\<not> takenBy (beyondNewest n) d r \<longleftrightarrow>
     (case rparent r of None \<Rightarrow> r \<in> kept
      | Some p \<Rightarrow> (\<forall>r' \<in> set (runsOf d). rid r' = p \<and> rparent r' = None \<longrightarrow> r' \<in> kept))"
  using beyondNewest_kept [OF assms(1)] assms(2,3) by (auto simp: takenBy_def split: option.split)

text \<open>What an eviction that returns without error has left: rows that were not taken.\<close>

lemma evict_filters:
  assumes "evict c P s = ((k, None), s')" and "idle_conn (tablesOf s)" and "jdbOk d" and "topOnly P"
    and "d = committed (tablesOf s)" and "d' = committed (tablesOf s')"
  shows "runsOf d' = filter (\<lambda>r. \<not> takenBy P d r) (runsOf d)"
    and "k = doomedCount P d"
    and "recsOf d' = filter (\<lambda>x. \<not> (\<exists>r \<in> set (runsOf d). rid r = recRun x \<and> takenBy P d r)) (recsOf d)"
proof -
  have "tablesExist (committed (tablesOf s))" using assms(3,5) by (simp add: jdbOk_def)
  from evict_cases [OF assms(1,2) this assms(4)]
  consider "d' = d" "k = 0" "doomedCount P d = 0" | "d' = withoutSpares (evictF P d)" "k = doomedCount P d"
    using assms(5,6) by auto
  then have "runsOf d' = filter (\<lambda>r. \<not> takenBy P d r) (runsOf d) \<and> k = doomedCount P d
    \<and> recsOf d' = filter (\<lambda>x. \<not> (\<exists>r \<in> set (runsOf d). rid r = recRun x \<and> takenBy P d r)) (recsOf d)"
  proof cases
    case 1
    then have "\<forall>r \<in> set (runsOf d). \<not> P d r" by (simp add: doomedCount_def filter_empty_conv)
    then have no: "\<forall>r \<in> set (runsOf d). \<not> takenBy P d r" by (auto simp: takenBy_def)
    then have "filter (\<lambda>r. \<not> takenBy P d r) (runsOf d) = runsOf d"
      "filter (\<lambda>x. \<not> (\<exists>r \<in> set (runsOf d). rid r = recRun x \<and> takenBy P d r)) (recsOf d) = recsOf d"
      by (simp_all add: filter_id_conv)
    with 1 show ?thesis by simp
  qed (simp add: evictF_def deleteRuns_def deleteRecs_def)
  then show "runsOf d' = filter (\<lambda>r. \<not> takenBy P d r) (runsOf d)"
    and "k = doomedCount P d"
    and "recsOf d' = filter (\<lambda>x. \<not> (\<exists>r \<in> set (runsOf d). rid r = recRun x \<and> takenBy P d r)) (recsOf d)"
    by simp_all
qed

text \<open>The top-level runs, and those among the newest \<open>n\<close>.\<close>

definition topRuns :: "runrow list \<Rightarrow> runrow list" where
  "topRuns = filter (\<lambda>r. rparent r = None)"

definition newestTops :: "nat \<Rightarrow> jdb \<Rightarrow> runrow set" where
  "newestTops n d = set (take n (newestFirst (runsOf d)))"

lemma newestTops_sub: "newestTops n d \<subseteq> set (topRuns (runsOf d))"
  by (auto simp: newestTops_def topRuns_def dest: in_set_takeD)

lemma kept_tops:
  assumes "jdbOk d" and "runsOf d' = filter (\<lambda>r. \<not> takenBy (beyondNewest n) d r) (runsOf d)"
  shows "topRuns (runsOf d') = filter (\<lambda>r. r \<in> newestTops n d) (topRuns (runsOf d))"
proof -
  have "(rparent r = None \<and> \<not> takenBy (beyondNewest n) d r) = (rparent r = None \<and> r \<in> newestTops n d)"
    if "r \<in> set (runsOf d)" for r
    using retain_taken [OF assms(1) refl that, of n] by (cases "rparent r") (simp_all add: newestTops_def)
  then show ?thesis unfolding assms(2) topRuns_def by (auto simp: conj_commute intro!: filter_cong)
qed

lemma kept_count:
  assumes "jdbOk d" and "tops' = filter (\<lambda>r. r \<in> newestTops n d) (topRuns (runsOf d))"
  shows "set tops' = newestTops n d" and "length tops' = min n (length (topRuns (runsOf d)))"
    and "doomedCount (beyondNewest n) d = int (length (topRuns (runsOf d))) - int (length tops')"
proof -
  have key: "keyed rid (runsOf d)" "distinct (newestFirst (runsOf d))"
    using assms(1) distinct_newestFirst by (auto simp: jdbOk_def)
  then have dist: "distinct (topRuns (runsOf d))" by (auto simp: topRuns_def keyed_def distinct_map)
  show s: "set tops' = newestTops n d" using newestTops_sub [of n d] by (auto simp: assms(2))
  have "distinct tops'" using dist by (simp add: assms(2))
  then have "length tops' = card (newestTops n d)" by (simp add: distinct_card flip: s)
  also have "\<dots> = length (take n (newestFirst (runsOf d)))"
    using key(2) by (simp add: newestTops_def distinct_card)
  finally show "length tops' = min n (length (topRuns (runsOf d)))" by (simp add: topRuns_def min.commute)
  have "beyondNewest n d r \<longleftrightarrow> rparent r = None \<and> r \<notin> newestTops n d" if "r \<in> set (runsOf d)" for r
    using beyondNewest_kept [OF assms(1) that] by (simp add: newestTops_def)
  then have "filter (beyondNewest n d) (runsOf d) = filter (\<lambda>r. r \<notin> newestTops n d) (topRuns (runsOf d))"
    by (auto simp: topRuns_def conj_commute intro!: filter_cong)
  moreover have "length tops' + length (filter (\<lambda>r. r \<notin> newestTops n d) (topRuns (runsOf d)))
      = length (topRuns (runsOf d))"
    unfolding assms(2) by (rule sum_length_filter_compl)
  ultimately show "doomedCount (beyondNewest n) d = int (length (topRuns (runsOf d))) - int (length tops')"
    by (simp add: doomedCount_def)
qed

lemma kept_newer:
  assumes "jdbOk d" and "r \<in> newestTops n d" and "r' \<in> set (topRuns (runsOf d)) - newestTops n d"
  shows "newer r r'"
proof -
  have key: "keyed rid (runsOf d)" using assms(1) by (simp add: jdbOk_def)
  have "r' \<in> set (newestFirst (runsOf d))" using assms(3) by (simp add: topRuns_def)
  moreover have "set (newestFirst (runsOf d)) = newestTops n d \<union> set (drop n (newestFirst (runsOf d)))"
    unfolding newestTops_def by (metis append_take_drop_id set_append)
  ultimately have "r' \<in> set (drop n (newestFirst (runsOf d)))" using assms(3) by blast
  then show ?thesis
    using set_take_sorted_drop [OF newestFirst_sorted [OF key]] assms(2) unfolding newestTops_def by blast
qed

lemma kept_records:
  assumes "jdbOk d" and "runsOf d' = filter (\<lambda>r. \<not> takenBy P d r) (runsOf d)"
  shows "filter (\<lambda>x. \<not> (\<exists>r \<in> set (runsOf d). rid r = recRun x \<and> takenBy P d r)) (recsOf d)
    = filter (\<lambda>x. recRun x \<in> rid ` set (runsOf d')) (recsOf d)"
proof (rule filter_cong [OF refl])
  fix x assume "x \<in> set (recsOf d)"
  then obtain r where r: "r \<in> set (runsOf d)" "rid r = recRun x" using assms(1) by (auto simp: jdbOk_def)
  have u: "r' = r" if "r' \<in> set (runsOf d)" "rid r' = recRun x" for r'
    using keyed_rid [OF assms(1) that(1) r(1)] that(2) r(2) by simp
  have "(\<exists>r \<in> set (runsOf d). rid r = recRun x \<and> takenBy P d r) \<longleftrightarrow> takenBy P d r" using r u by blast
  moreover have "recRun x \<in> rid ` set (runsOf d') \<longleftrightarrow> \<not> takenBy P d r"
  proof
    assume "recRun x \<in> rid ` set (runsOf d')"
    then obtain r' where "r' \<in> set (runsOf d)" "\<not> takenBy P d r'" "rid r' = recRun x" by (auto simp: assms(2))
    with u show "\<not> takenBy P d r" by blast
  next
    assume "\<not> takenBy P d r"
    with r(1) have "r \<in> set (runsOf d')" by (simp add: assms(2))
    with r(2) show "recRun x \<in> rid ` set (runsOf d')" by (metis imageI)
  qed
  ultimately show "(\<not> (\<exists>r \<in> set (runsOf d). rid r = recRun x \<and> takenBy P d r)) = (recRun x \<in> rid ` set (runsOf d'))"
    by simp
qed

text \<open>Claim C17: \<open>Retain\<close> keeps exactly the newest runs.  When it returns without error, what is
  left is the \<open>n\<close> newest top-level runs (all, when there are no more), every child of a kept
  run, and every record of a run that is left; each top-level run that went is older than each
  that stayed; and the count returned is the number of top-level runs that went.\<close>

theorem retain_keeps_newest:
  assumes "idle_conn (tablesOf s)" "jdbOk (committed (tablesOf s))" "0 < n"
    and "journal_Retain c n s = ((k, None), s')"
    and "d = committed (tablesOf s)" "d' = committed (tablesOf s')"
    and "tops = filter (\<lambda>r. rparent r = None)"
    and "kept = set (tops (runsOf d'))"
  shows "length (tops (runsOf d')) = min (nat n) (length (tops (runsOf d)))
    \<and> k = int (length (tops (runsOf d))) - int (length (tops (runsOf d')))
    \<and> (\<forall>r \<in> kept. \<forall>r' \<in> set (tops (runsOf d)) - kept. newer r r')
    \<and> runsOf d' = filter (\<lambda>r. case rparent r of None \<Rightarrow> r \<in> kept
        | Some p \<Rightarrow> \<forall>r' \<in> set (runsOf d). rid r' = p \<and> rparent r' = None \<longrightarrow> r' \<in> kept) (runsOf d)
    \<and> recsOf d' = filter (\<lambda>x. recRun x \<in> rid ` set (runsOf d')) (recsOf d)"
proof -
  let ?P = "beyondNewest (nat n)"
  have ok: "jdbOk d" using assms by simp
  have tops: "tops = topRuns" using assms(7) by (simp add: topRuns_def)
  have "present s" using assms(4) by (auto simp: journal_Retain_def split: if_splits)
  with assms(3,4) have ev: "evict c ?P s = ((k, None), s')" by (simp add: journal_Retain_def)
  note D = evict_filters [OF ev assms(1) ok topOnly_beyondNewest assms(5,6)]
  note tops' = kept_tops [OF ok D(1)]
  have kept: "kept = newestTops (nat n) d" using kept_count(1) [OF ok tops'] by (simp add: assms(8) tops)
  have "runsOf d' = filter (\<lambda>r. case rparent r of None \<Rightarrow> r \<in> kept
        | Some p \<Rightarrow> \<forall>r' \<in> set (runsOf d). rid r' = p \<and> rparent r' = None \<longrightarrow> r' \<in> kept) (runsOf d)"
    unfolding D(1) kept newestTops_def
    by (rule filter_cong [OF refl]) (rule retain_taken [OF ok refl])
  moreover have "\<forall>r \<in> kept. \<forall>r' \<in> set (tops (runsOf d)) - kept. newer r r'"
    unfolding kept tops using kept_newer [OF ok] by blast
  moreover have "recsOf d' = filter (\<lambda>x. recRun x \<in> rid ` set (runsOf d')) (recsOf d)"
    unfolding D(3) by (rule kept_records [OF ok D(1)])
  moreover have "length (tops (runsOf d')) = min (nat n) (length (tops (runsOf d)))"
    unfolding tops by (rule kept_count(2) [OF ok tops'])
  moreover have "k = int (length (tops (runsOf d))) - int (length (tops (runsOf d')))"
    unfolding tops D(2) by (rule kept_count(3) [OF ok tops'])
  ultimately show ?thesis by (intro conjI)
qed


lemma evictBody_noFaults:
  assumes "idle_conn c" "tablesExist (committed c)" "topOnly P"
  shows "\<exists>c'. evictBody noFaults P c = (None, Some (doomedCount P (committed c)), c')"
proof -
  let ?q = "\<lambda>d. int (length (filter (P d) (runsOf d)))"
  have "\<exists>c1. query noFaults ?q c = (Inr (?q (committed c)), c1) \<and> idle_conn c1 \<and> committed c1 = committed c"
    by (rule atomically_noFaults [OF atomically_query assms(1)]) (rule refl)
  then obtain c1 where "query noFaults ?q c = (Inr (?q (committed c)), c1) \<and> idle_conn c1 \<and> committed c1 = committed c" ..
  then have q: "query noFaults ?q c = (Inr (doomedCount P (committed c)), c1)" "idle_conn c1" "committed c1 = committed c"
    by (simp_all add: doomedCount_def)
  show ?thesis
  proof (cases "doomedCount P (committed c) = 0")
    case True
    with q(1) show ?thesis by (simp add: evictBody_def)
  next
    case False
    let ?tx = "inTx noFaults (andThen (runAll (map (update noFaults) (evictStatements P))) (\<lambda>_.
              runAll (map (\<lambda>st. exec noFaults (runCompact st)) compaction)))"
    obtain f where f: "atomically noFaults ?tx f" "\<And>d. tablesExist d \<Longrightarrow> f d = Inr (withoutSpares (evictF P d), ())"
      using evictTx_atomic [OF assms(3)] by blast
    obtain c2 where t: "?tx c1 = (Inr (), c2)" "idle_conn c2"
      using atomically_noFaults [OF f(1) q(2), of "withoutSpares (evictF P (committed c))" "()"] f(2) [OF assms(2)] q(3)
      by auto
    have "\<exists>c3. update noFaults (\<lambda>d. d) c2 = (Inr (), c3) \<and> idle_conn c3 \<and> committed c3 = committed c2"
      by (rule atomically_noFaults [OF atomically_update t(2)]) (rule refl)
    then obtain c3 where "update noFaults (\<lambda>d. d) c2 = (Inr (), c3)" by blast
    with q(1) t False show ?thesis by (simp add: evictBody_def)
  qed
qed

lemma evict_calm:
  assumes "storeOk s" "tablesExist (committed (tablesOf s))" "topOnly P"
  shows "\<exists>s'. evict (calmAt t) P s = ((doomedCount P (committed (tablesOf s)), None), s')"
proof -
  obtain c' where b: "evictBody noFaults P (disk (opened s)) = (None, Some (doomedCount P (committed (tablesOf s))), c')"
    using evictBody_noFaults [OF _ assms(2,3)] assms(1) by (auto simp: storeOk_def tablesOf_def)
  have "worldOk ''db'' 0 (opened s)" "\<not> closed (hnd (opened s))" using assms(1) by (simp_all add: storeOk_def)
  from Do_calm [OF this, of "evictBody noFaults P"] b show ?thesis by (auto simp: evict_def)
qed

theorem retain_keeps_newest_witness:
  "\<exists>s'. journal_Retain (calmAt 30) 1 (freshStore sampleJournal) = ((1, None), s')
     \<and> length (filter (\<lambda>r. rparent r = None) (runsOf (committed (tablesOf s')))) = 1"
proof -
  have ok: "jdbOk (committed (tablesOf (freshStore sampleJournal)))" by (simp add: jdbOk_sample)
  have "doomedCount (beyondNewest 1) sampleJournal = 1"
    by (simp add: doomedCount_def beyondNewest_def newestFirst_def sampleJournal_def runsOf_def sampleRun_def)
  moreover obtain s' where "evict (calmAt 30) (beyondNewest 1) (freshStore sampleJournal)
      = ((doomedCount (beyondNewest 1) (committed (tablesOf (freshStore sampleJournal))), None), s')"
    using evict_calm [OF storeOk_freshStore _ topOnly_beyondNewest] ok by (metis jdbOk_def)
  ultimately have run: "journal_Retain (calmAt 30) 1 (freshStore sampleJournal) = ((1, None), s')"
    by (simp add: journal_Retain_def) (simp add: freshStore_def)
  from retain_keeps_newest [OF committed_freshStore(2) ok _ run refl refl refl refl] run
  show ?thesis by (simp add: sampleJournal_def runsOf_def sampleRun_def)
qed

section \<open>Reading back\<close>

text \<open>What is asked of the JSON codec on an attribute map that is stored.\<close>

definition codecOk :: "json \<Rightarrow> attrs \<Rightarrow> bool" where
  "codecOk js m \<longleftrightarrow> m = [] \<or> (case Marshal js m of None \<Rightarrow> False | Some x \<Rightarrow> x \<noteq> [] \<and> Unmarshal js x = Some m)"

lemma attrs_roundtrip: "codecOk js m \<Longrightarrow> unmarshalAttrs js (or_default (marshalAttrs js m) []) = m"
  by (auto simp: codecOk_def marshalAttrs_def unmarshalAttrs_def split: option.splits)

definition storedRecord :: "(time \<Rightarrow> time) \<Rightarrow> logRecord \<Rightarrow> logRecord" where
  "storedRecord ts r = r\<lparr>Ts := (if Ts r = 0 then 0 else ts (Ts r))\<rparr>"

lemma scan_recRows:
  "\<forall>r \<in> set rs. codecOk js (LAttrs r) \<Longrightarrow> map (scanRecord js) (recRows ts k (recArgsOf js i rs)) = map (storedRecord ts) rs"
  by (induction rs arbitrary: k)
    (auto simp: recArgsOf_def scanRecord_def attrs_roundtrip storedRecord_def NullTime_def scanTime_def IsZero_def)

lemma mset_byTsDesc: "mset (byTsDesc t) = mset t"
  unfolding byTsDesc_def by (simp add: add.commute)

lemma sorted_byTsDesc:
  assumes "\<forall>x \<in> set t. recTs x \<noteq> Some 0"
  shows "sorted_wrt (\<lambda>x y. Ts y = 0 \<or> Ts x \<noteq> 0 \<and> Ts y \<le> Ts x) (map (scanRecord js) (byTsDesc t))"
proof -
  let ?A = "sort_key (\<lambda>r. snd (tsKey r)) (filter (\<lambda>r. \<not> fst (tsKey r)) t)"
  have key: "\<not> fst (tsKey r) \<Longrightarrow> Ts (scanRecord js r) = - snd (tsKey r) \<and> recTs r \<noteq> None"
    "fst (tsKey r) \<Longrightarrow> Ts (scanRecord js r) = 0" for r
    by (auto simp: tsKey_def scanRecord_def scanTime_def split: option.splits)
  have timed: "Ts (scanRecord js r) \<noteq> 0" if "r \<in> set ?A" for r
    using assms that by (auto simp: tsKey_def scanRecord_def scanTime_def split: option.splits)
  have "sorted (map (\<lambda>r. snd (tsKey r)) ?A)" by simp
  then have "sorted_wrt (\<lambda>x y. snd (tsKey x) \<le> snd (tsKey y)) ?A" by (simp add: sorted_wrt_map)
  then have "sorted_wrt (\<lambda>x y. Ts (scanRecord js x) \<noteq> 0 \<and> Ts (scanRecord js y) \<le> Ts (scanRecord js x)) ?A"
    by (rule sorted_wrt_mono_rel [rotated]) (use timed in \<open>simp add: key\<close>)
  then have "sorted_wrt (\<lambda>x y. Ts y = 0 \<or> Ts x \<noteq> 0 \<and> Ts y \<le> Ts x) (map (scanRecord js) ?A)"
    unfolding sorted_wrt_map by (rule sorted_wrt_mono_rel [rotated]) simp
  moreover have "sorted_wrt (\<lambda>x y. Ts y = 0 \<or> Ts x \<noteq> 0 \<and> Ts y \<le> Ts x) (map (scanRecord js) (filter (\<lambda>r. fst (tsKey r)) t))"
    unfolding sorted_wrt_map by (rule sorted_wrt_mono_rel [of _ "\<lambda>_ _. True"]) (simp_all add: key sorted_wrt_iff_nth_less)
  ultimately show ?thesis by (auto simp: byTsDesc_def sorted_wrt_append key)
qed

lemma recRows_times:
  "\<forall>x \<in> set rs. Ts x \<noteq> 0 \<longrightarrow> ts (Ts x) \<noteq> 0 \<Longrightarrow> y \<in> set (recRows ts k (recArgsOf js i rs)) \<Longrightarrow> recTs y \<noteq> Some 0"
  by (induction rs arbitrary: k) (auto simp: recArgsOf_def NullTime_def IsZero_def split: if_splits)

lemma addF_simps:
  "runsOf (addF g ts js r rs d) = runsOf d @ [(runRow ts js r)\<lparr>rid := runSeq d + int g\<rparr>]"
  "recsOf (addF g ts js r rs d) = recsOf d @ recRows ts (recSeq d) (recArgsOf js (runSeq d + int g) rs)"
  by (simp_all add: addF_def addRecs_def Let_def)

lemma recRows_own: "x \<in> set (recRows ts k (recArgsOf js i rs)) \<Longrightarrow> recRun x = i"
  by (drule recRows_owner) (auto simp: recArgsOf_def)

lemma Add_cases:
  assumes "idle_conn (tablesOf s)" "jdbOk (committed (tablesOf s))" "journal_Add ts js c r rs s = (res, s')"
  shows "idle_conn (tablesOf s')
    \<and> (committed (tablesOf s') = committed (tablesOf s) \<and> (\<exists>e. res = Inl e)
       \<or> committed (tablesOf s') = addF (spent c) ts js r rs (committed (tablesOf s)))
    \<and> (\<forall>i. res = Inr i \<longrightarrow> i = runSeq (committed (tablesOf s)) + int (spent c)
         \<and> committed (tablesOf s') = addF (spent c) ts js r rs (committed (tablesOf s)))"
proof -
  let ?m = "inTx (engine c) (andThen (exec (engine c) (insertRun (spent c) (runRow ts js r))) (\<lambda>i.
         andThen (insertRecords ts js (engine c) i rs) (\<lambda>_. ok i)))"
  from Add_atomic [of "engine c" "spent c" ts js r rs] obtain f where f: "atomically (engine c) ?m f"
    and post: "\<forall>d d' i. jdbOk d \<longrightarrow> f d = Inr (d', i) \<longrightarrow> i = runSeq d + int (spent c) \<and> d' = addF (spent c) ts js r rs d" by (elim exE conjE)
  have w: "within journalErrUnavailable c ?m s = (res, s')" using assms(3) by (simp add: journal_Add_def)
  from stored.run_idle [OF f assms(1) w] have "idle_conn (tablesOf s')" .
  moreover have "i = runSeq (committed (tablesOf s)) + int (spent c) \<and> committed (tablesOf s') = addF (spent c) ts js r rs (committed (tablesOf s))"
    if "res = Inr i" for i
    using post [rule_format, OF assms(2) stored.run_success [OF f assms(1) w [unfolded that]]] .
  moreover from stored.run_all_or_nothing [OF f assms(1) w] have "committed (tablesOf s') = committed (tablesOf s)
      \<or> committed (tablesOf s') = addF (spent c) ts js r rs (committed (tablesOf s))"
    using post assms(2) by blast
  ultimately show ?thesis by (cases res) auto
qed

text \<open>Claim C18: \<open>Add\<close> is all or nothing whatever fails, at whichever of its statements and however
  many chunks the records take: either the journal is as before and an error is returned, or it
  has one run more, under the next id of the sequence that is not used up, with all the records in order.\<close>

theorem add_all_or_nothing:
  assumes "idle_conn (tablesOf s)" "jdbOk (committed (tablesOf s))" "journal_Add ts js c r rs s = (res, s')"
    and "d = committed (tablesOf s)" "d' = committed (tablesOf s')" "i = runSeq d + int (spent c)"
  shows "d' = d \<and> (\<exists>e. res = Inl e)
    \<or> runsOf d' = runsOf d @ [(runRow ts js r)\<lparr>rid := i\<rparr>]
      \<and> recsOf d' = recsOf d @ recRows ts (recSeq d) (map (\<lambda>x. (i, NullTime (Ts x), marshalAttrs js (LAttrs x))) rs)
      \<and> ((\<exists>e. res = Inl e) \<or> res = Inr i)"
  using Add_cases [OF assms(1-3)] assms(4-6) by (cases res) (auto simp: addF_simps recArgsOf_def)

definition sampleItem :: run where
  "sampleItem = \<lparr>ID = 0, ParentID = 1, Kind = ''sync'', Name = ''feed'', Started = 40, Finished = 50, Count = 2,
     Error = [], Attrs = [(''a'', ''1'')]\<rparr>"

definition sampleRecords :: "logRecord list" where
  "sampleRecords = [\<lparr>Ts = 0, LAttrs = [(''a'', ''1'')]\<rparr>, \<lparr>Ts = 41, LAttrs = []\<rparr>, \<lparr>Ts = 45, LAttrs = [(''a'', ''1'')]\<rparr>]"

definition oneJson :: json where
  "oneJson = \<lparr>Marshal = (\<lambda>_. Some ''{...}''), Unmarshal = (\<lambda>_. Some [(''a'', ''1'')])\<rparr>"

lemma Add_sample:
  "\<exists>s1. journal_Add (\<lambda>t. t) oneJson (calmAt 60) sampleItem sampleRecords (freshStore sampleJournal) = (Inr 6, s1) \<and> storeOk s1"
proof -
  let ?m = "inTx noFaults (andThen (exec noFaults (insertRun 0 (runRow (\<lambda>t. t) oneJson sampleItem))) (\<lambda>i.
         andThen (insertRecords (\<lambda>t. t) oneJson noFaults i sampleRecords) (\<lambda>_. ok i)))"
  from Add_atomic [of noFaults 0 "\<lambda>t. t" oneJson sampleItem sampleRecords] obtain f where f: "atomically noFaults ?m f"
    and g: "\<forall>d. jdbOk d \<longrightarrow> - (2 ^ 31) \<le> Count sampleItem \<longrightarrow> Count sampleItem < 2 ^ 31
        \<longrightarrow> f d = Inr (addF 0 (\<lambda>t. t) oneJson sampleItem sampleRecords d, runSeq d + int 0)" by (elim exE conjE)
  have "f sampleJournal = Inr (addF 0 (\<lambda>t. t) oneJson sampleItem sampleRecords sampleJournal, runSeq sampleJournal)"
    using g jdbOk_sample by (simp add: sampleItem_def)
  with within_calm [OF storeOk_freshStore f, of sampleJournal] show ?thesis
    by (simp add: journal_Add_def sampleJournal_def) blast
qed

theorem add_all_or_nothing_witness:
  "\<exists>s1. journal_Add (\<lambda>t. t) oneJson (calmAt 60) sampleItem sampleRecords (freshStore sampleJournal) = (Inr 6, s1)
     \<and> length (recsOf (committed (tablesOf s1))) = 5"
proof -
  obtain s1 where a: "journal_Add (\<lambda>t. t) oneJson (calmAt 60) sampleItem sampleRecords (freshStore sampleJournal) = (Inr 6, s1)"
    using Add_sample by blast
  have "jdbOk (committed (tablesOf (freshStore sampleJournal)))" by (simp add: jdbOk_sample)
  from add_all_or_nothing [OF committed_freshStore(2) this a refl refl refl] a show ?thesis
    by (auto simp: sampleRecords_def sampleJournal_def recsOf_def)
qed

text \<open>Claim C19: what \<open>Add\<close> has stored is read back, but for the parent: \<open>Get\<close> finds the run with all its
  fields except \<open>ParentID\<close>, which it gives as 0 whatever was stored; \<open>Records\<close> returns exactly its records,
  those with a time first, in descending order, and then those without.  Times are as the engine keeps them;
  the attribute maps are ones that the codec decodes as it encoded them.\<close>

theorem add_then_read:
  assumes "idle_conn (tablesOf s)" "jdbOk (committed (tablesOf s))"
    and codec: "codecOk js (Attrs r)" "\<forall>x \<in> set rs. codecOk js (LAttrs x)"
    and arr: "\<forall>t. mset (arr t) = mset t"
    and times: "\<forall>x \<in> set rs. Ts x \<noteq> 0 \<longrightarrow> ts (Ts x) \<noteq> 0"
    and add: "journal_Add ts js c1 r rs s = (Inr i, s1)"
    and got: "journal_Get js c2 i s1 = (Inr found, s2)"
    and recs: "journal_Records js arr c3 i s1 = (Inr out, s3)"
  shows "found = Some (r\<lparr>ID := i, ParentID := 0, Started := ts (Started r), Finished := ts (Finished r)\<rparr>)
    \<and> mset out = mset (map (storedRecord ts) rs)
    \<and> sorted_wrt (\<lambda>x y. Ts y = 0 \<or> Ts x \<noteq> 0 \<and> Ts y \<le> Ts x) out"
proof -
  let ?d = "committed (tablesOf s)"
  have A: "idle_conn (tablesOf s1)" "i = runSeq ?d + int (spent c1)" "committed (tablesOf s1) = addF (spent c1) ts js r rs ?d"
    using Add_cases [OF assms(1,2) add] by simp_all
  have runs: "\<forall>x \<in> set (runsOf ?d). rid x \<noteq> i" using assms(2) A(2) by (auto simp: jdbOk_def)
  moreover have "\<forall>x \<in> set (recsOf ?d). recRun x \<in> rid ` set (runsOf ?d)" using assms(2) by (simp add: jdbOk_def)
  ultimately have fresh: "\<forall>x \<in> set (runsOf ?d). rid x \<noteq> i" "\<forall>x \<in> set (recsOf ?d). recRun x \<noteq> i"
    by fastforce+
  obtain rows where "queryRuns js c2 (\<lambda>d. filter (\<lambda>r. rid r = i) (runsOf d)) s1 = (Inr rows, s2)"
    and f: "found = (case rows of [] \<Rightarrow> None | r # _ \<Rightarrow> Some r)"
    using got by (auto simp: journal_Get_def andThen_Inr)
  then have "within journalErrUnavailable c2 (andThen (query (engine c2) (\<lambda>d. filter (\<lambda>r. rid r = i) (runsOf d)))
      (\<lambda>rows. ok (map (scanRun js) rows))) s1 = (Inr rows, s2)" by (simp add: queryRuns_def)
  from stored.run_cases [OF this] obtain q c' where
    "query (engine c2) (\<lambda>d. filter (\<lambda>r. rid r = i) (runsOf d)) (tablesOf s1) = (Inr q, c')" "rows = map (scanRun js) q"
    by (auto simp: andThen_Inr)
  with query_Inr [OF this(1) A(1)] have "rows = map (scanRun js) (filter (\<lambda>r. rid r = i) (runsOf (addF (spent c1) ts js r rs ?d)))"
    using A(3) by simp
  also have "filter (\<lambda>r. rid r = i) (runsOf (addF (spent c1) ts js r rs ?d)) = [(runRow ts js r)\<lparr>rid := i\<rparr>]"
    using fresh(1) A(2) by (simp add: addF_simps)
  finally have 1: "found = Some (r\<lparr>ID := i, ParentID := 0, Started := ts (Started r), Finished := ts (Finished r)\<rparr>)"
    using f attrs_roundtrip [OF codec(1)] by (simp add: scanRun_def runRow_def NullStr_def scanTime_def)
  let ?q = "\<lambda>d. byTsDesc (arr (filter (\<lambda>r. recRun r = i) (recsOf d)))"
  from recs have "within journalErrUnavailable c3 (andThen (query (engine c3) ?q) (\<lambda>rows. ok (map (scanRecord js) rows))) s1
      = (Inr out, s3)" by (simp add: journal_Records_def)
  from stored.run_cases [OF this] obtain q c' where
    "query (engine c3) ?q (tablesOf s1) = (Inr q, c')" "out = map (scanRecord js) q"
    by (auto simp: andThen_Inr)
  with query_Inr [OF this(1) A(1)] have out: "out = map (scanRecord js) (?q (addF (spent c1) ts js r rs ?d))" using A(3) by simp
  have rows: "filter (\<lambda>x. recRun x = i) (recsOf (addF (spent c1) ts js r rs ?d)) = recRows ts (recSeq ?d) (recArgsOf js i rs)"
    using fresh(2) A(2) recRows_own by (auto simp: addF_simps filter_empty_conv filter_id_conv)
  from rows have "mset out = mset (map (scanRecord js) (recRows ts (recSeq ?d) (recArgsOf js i rs)))"
    unfolding out mset_map mset_byTsDesc arr [rule_format] by simp
  then have 2: "mset out = mset (map (storedRecord ts) rs)" by (simp only: scan_recRows [OF codec(2)])
  let ?F = "filter (\<lambda>x. recRun x = i) (recsOf (addF (spent c1) ts js r rs ?d))"
  have "set (arr ?F) = set ?F" using arr by (metis set_mset_mset)
  then have "\<forall>x \<in> set (arr ?F). recTs x \<noteq> Some 0"
    using rows recRows_times [OF times] by auto
  from 1 2 sorted_byTsDesc [OF this, of js] show ?thesis by (simp only: out)
qed


lemma query_calm:
  assumes "storeOk s"
  shows "\<exists>s'. within u (calmAt t) (andThen (query noFaults q) (\<lambda>x. ok (g x))) s = (Inr (g (q (committed (tablesOf s)))), s') \<and> storeOk s'"
proof -
  have "andThen (query noFaults q) (\<lambda>x. ok (g x)) (tablesOf s)
      = (Inr (g (q (committed (tablesOf s)))), (tablesOf s)\<lparr>calls := Suc (calls (tablesOf s))\<rparr>)"
    using assms by (simp add: andThen_def query_def exec_def noFaults_def storeOk_def idle_conn_def)
  moreover have "idle_conn ((tablesOf s)\<lparr>calls := Suc (calls (tablesOf s))\<rparr>)"
    using assms by (simp add: storeOk_def idle_conn_def)
  ultimately show ?thesis using within_run [where m = "andThen (query noFaults q) (\<lambda>x. ok (g x))", OF assms] by blast
qed

theorem add_then_read_witness:
  "\<exists>s1 s2 s3 out. journal_Add (\<lambda>t. t) oneJson (calmAt 60) sampleItem sampleRecords (freshStore sampleJournal) = (Inr 6, s1)
     \<and> journal_Get oneJson (calmAt 61) 6 s1 = (Inr (Some (sampleItem\<lparr>ID := 6, ParentID := 0\<rparr>)), s2)
     \<and> journal_Records oneJson rev (calmAt 62) 6 s1 = (Inr out, s3) \<and> mset out = mset sampleRecords"
proof -
  obtain s1 where a: "journal_Add (\<lambda>t. t) oneJson (calmAt 60) sampleItem sampleRecords (freshStore sampleJournal) = (Inr 6, s1)"
      "storeOk s1" using Add_sample by blast
  obtain found s2 where g: "journal_Get oneJson (calmAt 61) 6 s1 = (Inr found, s2)"
    using query_calm [OF a(2), of journalErrUnavailable 61 "\<lambda>d. filter (\<lambda>r. rid r = 6) (runsOf d)" "map (scanRun oneJson)"]
    by (auto simp: journal_Get_def queryRuns_def andThen_def)
  obtain out s3 where r: "journal_Records oneJson rev (calmAt 62) 6 s1 = (Inr out, s3)"
    using query_calm [OF a(2), of journalErrUnavailable 62 "\<lambda>d. byTsDesc (rev (filter (\<lambda>r. recRun r = 6) (recsOf d)))" "map (scanRecord oneJson)"]
    by (auto simp: journal_Records_def)
  have ok: "jdbOk (committed (tablesOf (freshStore sampleJournal)))" by (simp add: jdbOk_sample)
  have "map (storedRecord (\<lambda>t. t)) sampleRecords = sampleRecords" by (simp add: sampleRecords_def storedRecord_def)
  with add_then_read [OF committed_freshStore(2) ok _ _ _ _ a(1) g r] a(1) g r show ?thesis
    by (simp add: codecOk_def oneJson_def sampleItem_def sampleRecords_def)
qed

text \<open>\<open>FinishRun\<close> on a run that exists, when it succeeds, stamps it and sets its count to
  the sum of its children's counts, changing nothing else; with an id of 0 it does nothing, and
  when it fails (the sum does not fit the column, say) nothing is changed or the whole change is
  made.\<close>

theorem finish_counts_children:
  assumes "idle_conn (tablesOf s)" "present s" "journal_FinishRun ts c i s = (res, s')"
    and "d = committed (tablesOf s)" "d' = committed (tablesOf s')"
    and "done = map (\<lambda>r. if rid r = i then r\<lparr>rfinished := Some (ts (now c)), rcount := Some (childSum i (runsOf d))\<rparr> else r) (runsOf d)"
  shows "(d' = d \<or> runsOf d' = done \<and> recsOf d' = recsOf d)
    \<and> (i = 0 \<longrightarrow> res = Inr () \<and> d' = d)
    \<and> (i \<noteq> 0 \<longrightarrow> res = Inr () \<longrightarrow> i \<in> rid ` set (runsOf d) \<longrightarrow> runsOf d' = done \<and> recsOf d' = recsOf d)"
proof (cases "i = 0")
  case True
  with assms(2-5) show ?thesis by (simp add: journal_FinishRun_def)
next
  case False
  have w: "within journalErrUnavailable c (exec (engine c) (finishRunStmt ts (now c) i)) s = (res, s')"
    using assms(2,3) False by (simp add: journal_FinishRun_def)
  have stmt: "(x \<notin> rid ` set (runsOf d) \<and> d1 = d) \<or> runsOf d1 = done \<and> recsOf d1 = recsOf d"
    if "finishRunStmt ts (now c) i d = Inr (d1, u)" "x = i" for d1 u x
    using that assms(6) by (auto simp: finishRunStmt_def castInt32_def split: if_splits)
  have A: "d' = d \<or> (\<exists>u. finishRunStmt ts (now c) i d = Inr (d', u))"
    using stored.run_all_or_nothing [OF atomically_exec assms(1) w] assms(4,5) by simp
  have "finishRunStmt ts (now c) i d = Inr (d', ())" if "res = Inr ()"
    using stored.run_success [OF atomically_exec assms(1) w [unfolded that]] assms(4,5) by simp
  with A False show ?thesis using stmt [OF _ refl] by blast
qed

theorem finish_counts_children_witness:
  "\<exists>s'. journal_FinishRun (\<lambda>t. t) (calmAt 30) 1 (freshStore sampleJournal) = (Inr (), s')
     \<and> map rcount (runsOf (committed (tablesOf s'))) = [Some 7, Some 3, Some 4, None, Some 5]"
proof -
  have "\<exists>d. finishRunStmt (\<lambda>t. t) 30 1 sampleJournal = Inr (d, ())"
    by (simp add: finishRunStmt_def sampleJournal_def runsOf_def sampleRun_def childSum_def castInt32_def)
  then obtain d where "finishRunStmt (\<lambda>t. t) 30 1 (committed (tablesOf (freshStore sampleJournal))) = Inr (d, ())" by auto
  from within_calm [where f = "finishRunStmt (\<lambda>t. t) 30 1", OF storeOk_freshStore atomically_exec this, of journalErrUnavailable 30]
  obtain s' where w: "journal_FinishRun (\<lambda>t. t) (calmAt 30) 1 (freshStore sampleJournal) = (Inr (), s')"
    by (auto simp: journal_FinishRun_def freshStore_def)
  have "present (freshStore sampleJournal)" by (simp add: freshStore_def)
  from finish_counts_children [OF committed_freshStore(2) this w refl refl refl] w show ?thesis
    by (simp add: sampleJournal_def runsOf_def sampleRun_def childSum_def)
qed

end
