(* ===== verification/FileSys.thy ===== *)
theory FileSys
  imports Errors "HOL-Library.List_Lexorder"
begin

text \<open>
  The file system as the program sees it through package \<open>os\<close>.  A path is the list of its
  entry names from the root (the components of an absolute cleaned path, see theory Paths), so
  \<open>filepath.Join(d, n)\<close> is \<open>d @ [n]\<close>, \<open>filepath.Dir\<close> is \<open>butlast\<close>, \<open>filepath.Base\<close> is \<open>last\<close>.
  The tree is an association list from paths to nodes; a node is a regular file with its bytes
  and mode, a directory, or something else (a symbolic link, a socket), which is never followed.

  Every system call first takes the next entry of \<open>faults\<close>: an injected error (with how much of a
  write or a recursive removal had been done) or none; with none left nothing fails.  All
  theorems hold for every list of faults.  \<open>rand\<close> holds the random strings of \<open>CreateTemp\<close>
  and \<open>MkdirTemp\<close>.  \<open>rounds\<close>, \<open>started\<close> and \<open>flocked\<close> (the locked files) serve theory LockFile.  Renaming and creating a directory are atomic, as POSIX has it.  Other
  processes do not touch the tree between the calls of one operation.
\<close>

type_synonym path = "gostr list"
type_synonym bytes = gostr

datatype node = FileN (fdata: bytes) (fmode: nat) | DirN | OtherN

datatype fault = Fine | Fails err nat

text \<open>One round of waiting for a file lock: what \<open>flock\<close> said, the clock after it, and the context's
  error if it ended while the loop slept.\<close>

record lockRound =
  tried :: "err + bool"
  clock :: time
  ended :: "err option"

record fsys =
  tree :: "(path \<times> node) list"
  faults :: "fault list"
  rand :: "gostr list"
  rounds :: "lockRound list"
  started :: time
  flocked :: "path list"

type_synonym 'a fsact = "(fsys, err, 'a) act"

section \<open>The tree\<close>

definition look :: "(path \<times> node) list \<Rightarrow> path \<Rightarrow> node option" where
  "look t p = (if p = [] then Some DirN else map_of t p)"

definition put :: "path \<Rightarrow> node \<Rightarrow> (path \<times> node) list \<Rightarrow> (path \<times> node) list" where
  "put p n t = (p, n) # filter (\<lambda>(q, _). q \<noteq> p) t"

definition del :: "path \<Rightarrow> (path \<times> node) list \<Rightarrow> (path \<times> node) list" where
  "del p t = filter (\<lambda>(q, _). q \<noteq> p) t"

fun inTree :: "path \<Rightarrow> path \<Rightarrow> bool" where
  "inTree [] q = True"
| "inTree (x # p) [] = False"
| "inTree (x # p) (y # q) = (x = y \<and> inTree p q)"

definition delTree :: "path \<Rightarrow> (path \<times> node) list \<Rightarrow> (path \<times> node) list" where
  "delTree p t = filter (\<lambda>(q, _). \<not> inTree p q) t"

text \<open>A recursive removal that stopped after \<open>k\<close> entries: the deepest ones go first.\<close>

definition delSome :: "path \<Rightarrow> nat \<Rightarrow> (path \<times> node) list \<Rightarrow> (path \<times> node) list" where
  "delSome p k t =
     (let victims = take k (rev (sort_key length (filter (inTree p) (map fst t)))) in
      filter (\<lambda>(q, _). q \<notin> set victims) t)"

definition moveKey :: "path \<Rightarrow> path \<Rightarrow> path \<Rightarrow> path" where
  "moveKey a b q = (if inTree a q then b @ drop (length a) q else q)"

definition mvTree :: "path \<Rightarrow> path \<Rightarrow> (path \<times> node) list \<Rightarrow> (path \<times> node) list" where
  "mvTree a b t = map (\<lambda>(q, n). (moveKey a b q, n)) (delTree b t)"

definition entries :: "path \<Rightarrow> (path \<times> node) list \<Rightarrow> gostr list" where
  "entries d t = sort (remdups (map last (filter (\<lambda>q. q \<noteq> [] \<and> butlast q = d) (map fst t))))"

definition isFile :: "node option \<Rightarrow> bool" where
  "isFile n = (case n of Some (FileN d m) \<Rightarrow> True | _ \<Rightarrow> False)"

lemma inTree_append [simp]: "inTree p (p @ q)"
  by (induction p) auto

lemma inTree_iff: "inTree p q \<longleftrightarrow> (\<exists>r. q = p @ r)"
  by (induction p q rule: inTree.induct) auto

lemma inTree_Nil2 [simp]: "inTree p [] \<longleftrightarrow> p = []"
  by (cases p) auto

lemma inTree_refl [simp]: "inTree p p"
  using inTree_append [of p "[]"] by simp

lemma inTree_snoc_self [simp]: "\<not> inTree (p @ [n]) p"
  by (auto simp: inTree_iff)

lemma inTree_trans: "inTree p q \<Longrightarrow> inTree q r \<Longrightarrow> inTree p r"
  by (auto simp: inTree_iff)

lemma inTree_same [simp]: "inTree (p @ q) (p @ r) = inTree q r"
  by (induction p) auto

lemma look_Nil [simp]: "look t [] = Some DirN"
  by (simp add: look_def)

lemma map_of_filter_other: "map_of (filter (\<lambda>(q, _). P q) t) p = (if P p then map_of t p else None)"
  by (induction t) auto

lemma look_put: "p \<noteq> [] \<Longrightarrow> look (put p n t) = (look t)(p \<mapsto> n)"
  by (rule ext) (simp add: look_def put_def map_of_filter_other)

lemma look_del: "p \<noteq> [] \<Longrightarrow> look (del p t) = (look t)(p := None)"
  by (rule ext) (simp add: look_def del_def map_of_filter_other)

lemma look_delTree: "p \<noteq> [] \<Longrightarrow> look (delTree p t) = (\<lambda>q. if inTree p q then None else look t q)"
  by (rule ext) (auto simp: look_def delTree_def map_of_filter_other inTree_iff)

lemma look_delSome: "\<not> inTree p q \<Longrightarrow> look (delSome p k t) q = look t q"
  by (auto simp: look_def delSome_def Let_def map_of_filter_other dest!: in_set_takeD)

lemma look_delSome_cases: "p \<noteq> [] \<Longrightarrow> look (delSome p k t) q = look t q \<or> look (delSome p k t) q = None \<and> inTree p q"
  by (auto simp: look_def delSome_def Let_def map_of_filter_other dest!: in_set_takeD)

lemma moveKey_eq:
  assumes "\<not> inTree b q" "\<not> inTree a b" "\<not> inTree b a"
  shows "moveKey a b q = p \<longleftrightarrow> (if inTree b p then q = a @ drop (length b) p else \<not> inTree a p \<and> q = p)"
proof (cases "inTree a q")
  case True
  then obtain r where q: "q = a @ r" by (auto simp: inTree_iff)
  then have "moveKey a b q = b @ r" by (simp add: moveKey_def)
  with q assms True show ?thesis by (auto simp: inTree_iff)
next
  case False
  then have "moveKey a b q = q" by (simp add: moveKey_def)
  with False assms show ?thesis by (auto simp: inTree_iff)
qed

lemma map_of_moveKey:
  assumes "\<not> inTree a b" "\<not> inTree b a" "\<forall>e \<in> set t. \<not> inTree b (fst e)"
  shows "map_of (map (\<lambda>(q, n). (moveKey a b q, n)) t) p
    = (if inTree b p then map_of t (a @ drop (length b) p) else if inTree a p then None else map_of t p)"
  using assms(3)
proof (induction t)
  case (Cons e t)
  obtain q n where e: "e = (q, n)" by (cases e)
  with Cons.prems have "\<not> inTree b q" by simp
  note mk = moveKey_eq [OF this assms(1,2), of p]
  have IH: "map_of (map (\<lambda>(q, n). (moveKey a b q, n)) t) p
    = (if inTree b p then map_of t (a @ drop (length b) p) else if inTree a p then None else map_of t p)"
    using Cons by simp
  show ?case
  proof (cases "moveKey a b q = p")
    case True
    with mk e show ?thesis by (simp split: if_splits)
  next
    case False
    then have "inTree b p \<Longrightarrow> q \<noteq> a @ drop (length b) p" "\<not> inTree b p \<Longrightarrow> \<not> inTree a p \<Longrightarrow> q \<noteq> p"
      using mk by auto
    with IH e False show ?thesis by (cases "inTree b p"; cases "inTree a p") auto
  qed
qed simp

text \<open>What moving a subtree does.\<close>

lemma look_mvTree:
  assumes "\<not> inTree a b" "\<not> inTree b a"
  shows "look (mvTree a b t) = (\<lambda>p. if inTree b p then look t (a @ drop (length b) p)
    else if inTree a p then None else look t p)"
proof
  fix p
  have ne: "a \<noteq> []" "b \<noteq> []" using assms by auto
  have "\<not> inTree b (a @ drop (length b) p)"
    using assms by (auto simp: inTree_iff append_eq_append_conv2)
  then show "look (mvTree a b t) p = (if inTree b p then look t (a @ drop (length b) p)
    else if inTree a p then None else look t p)"
    using map_of_moveKey [OF assms, of "delTree b t" p] ne
    by (auto simp: look_def mvTree_def delTree_def map_of_filter_other)
qed

section \<open>Well-formed trees\<close>

text \<open>Everything stands in a directory.\<close>

definition okTree :: "(path \<times> node) list \<Rightarrow> bool" where
  "okTree t \<longleftrightarrow> (\<forall>p n. look t (p @ [n]) \<noteq> None \<longrightarrow> look t p = Some DirN)"

lemma okTreeD: "okTree t \<Longrightarrow> look t (p @ [n]) \<noteq> None \<Longrightarrow> look t p = Some DirN"
  unfolding okTree_def by blast

lemma okTree_below:
  assumes "okTree t" "look t (p @ q) \<noteq> None" "q \<noteq> []"
  shows "look t p = Some DirN"
  using assms(2,3)
proof (induction q rule: rev_induct)
  case (snoc n q)
  then have "look t (p @ q) = Some DirN" using okTreeD [OF assms(1), of "p @ q" n] by simp
  with snoc show ?case by (cases "q = []") auto
qed simp

lemma okTree_notdir: "okTree t \<Longrightarrow> look t p \<noteq> Some DirN \<Longrightarrow> q \<noteq> [] \<Longrightarrow> look t (p @ q) = None"
  using okTree_below by blast

lemma entries_iff: "n \<in> set (entries d t) \<longleftrightarrow> look t (d @ [n]) \<noteq> None"
proof -
  have "n \<in> set (entries d t) \<longleftrightarrow> (\<exists>q \<in> set (map fst t). q \<noteq> [] \<and> butlast q = d \<and> last q = n)"
    unfolding entries_def by auto
  also have "\<dots> \<longleftrightarrow> d @ [n] \<in> set (map fst t)"
  proof
    assume "\<exists>q \<in> set (map fst t). q \<noteq> [] \<and> butlast q = d \<and> last q = n"
    then show "d @ [n] \<in> set (map fst t)" by (metis append_butlast_last_id)
  next
    assume "d @ [n] \<in> set (map fst t)"
    then show "\<exists>q \<in> set (map fst t). q \<noteq> [] \<and> butlast q = d \<and> last q = n" by (intro bexI [of _ "d @ [n]"]) auto
  qed
  finally have "n \<in> set (entries d t) \<longleftrightarrow> d @ [n] \<in> fst ` set t" by simp
  then show ?thesis by (simp add: look_def map_of_eq_None_iff)
qed

lemma entries_Nil: "entries d t = [] \<longleftrightarrow> (\<forall>n. look t (d @ [n]) = None)"
  using entries_iff [of _ d t] by (metis all_not_in_conv empty_set set_empty)

lemma okTree_put:
  assumes "okTree t" "p \<noteq> []" "look t (butlast p) = Some DirN"
    and "n \<noteq> DirN \<Longrightarrow> look t p \<noteq> Some DirN"
  shows "okTree (put p n t)"
  unfolding okTree_def
proof (intro allI impI)
  fix q m
  assume l: "look (put p n t) (q @ [m]) \<noteq> None"
  show "look (put p n t) q = Some DirN"
  proof (cases "q @ [m] = p")
    case True
    then have "butlast p = q" "q \<noteq> p" by auto
    with assms show ?thesis by (simp add: look_put)
  next
    case False
    with l have "look t (q @ [m]) \<noteq> None" using assms(2) by (simp add: look_put)
    then have "look t q = Some DirN" using okTreeD [OF assms(1)] by simp
    with assms show ?thesis by (auto simp: look_put)
  qed
qed

lemma okTree_del:
  assumes "okTree t" "p \<noteq> []" "look t p = Some DirN \<Longrightarrow> entries p t = []"
  shows "okTree (del p t)"
  unfolding okTree_def
proof (intro allI impI)
  fix q m
  assume "look (del p t) (q @ [m]) \<noteq> None"
  then have "look t (q @ [m]) \<noteq> None" using assms(2) by (auto simp: look_del split: if_splits)
  then have d: "look t q = Some DirN" and l: "look t (q @ [m]) \<noteq> None" using okTreeD [OF assms(1), of q m] by simp_all
  have "q \<noteq> p"
  proof
    assume "q = p"
    with d assms(3) have "entries q t = []" by simp
    with l show False by (simp add: entries_Nil)
  qed
  with d assms(2) show "look (del p t) q = Some DirN" by (simp add: look_del)
qed

lemma okTree_delTree:
  assumes "okTree t" "p \<noteq> []"
  shows "okTree (delTree p t)"
  unfolding okTree_def
proof (intro allI impI)
  fix q m
  assume "look (delTree p t) (q @ [m]) \<noteq> None"
  then have "look t (q @ [m]) \<noteq> None" "\<not> inTree p (q @ [m])" using assms(2) by (auto simp: look_delTree split: if_splits)
  then have "look t q = Some DirN" "\<not> inTree p q"
    using okTreeD [OF assms(1)] by (auto simp: inTree_iff)
  with assms(2) show "look (delTree p t) q = Some DirN" by (simp add: look_delTree)
qed

lemma okTree_delSome:
  assumes "okTree t"
  shows "okTree (delSome p k t)"
  unfolding okTree_def
proof (intro allI impI)
  fix q m
  define xs where "xs = rev (sort_key length (filter (inTree p) (map fst t)))"
  have lk: "look (delSome p k t) r = (if r \<noteq> [] \<and> r \<in> set (take k xs) then None else look t r)" for r
    by (simp add: look_def delSome_def Let_def map_of_filter_other xs_def)
  assume a: "look (delSome p k t) (q @ [m]) \<noteq> None"
  then have t: "look t (q @ [m]) \<noteq> None" and nv: "q @ [m] \<notin> set (take k xs)" by (auto simp: lk split: if_splits)
  have "sorted (map length (rev xs))" unfolding xs_def by simp
  then have sorted: "sorted_wrt (\<lambda>x y. length y \<le> length x) xs"
    by (simp add: sorted_map sorted_wrt_rev)
  have "\<not> (q \<noteq> [] \<and> q \<in> set (take k xs))"
  proof
    assume q: "q \<noteq> [] \<and> q \<in> set (take k xs)"
    then have "inTree p q" by (auto simp: xs_def dest!: in_set_takeD)
    then have "inTree p (q @ [m])" by (auto simp: inTree_iff)
    moreover have "q @ [m] \<in> fst ` set t" using t by (auto simp: look_def map_of_eq_None_iff)
    ultimately have "q @ [m] \<in> set xs" by (auto simp: xs_def)
    with nv have "q @ [m] \<in> set (drop k xs)" by (metis Un_iff append_take_drop_id set_append)
    from set_take_sorted_drop [OF sorted _ this, of q] q show False by simp
  qed
  then show "look (delSome p k t) q = Some DirN" using okTreeD [OF assms t] by (auto simp: lk)
qed

lemma okTree_mvTree:
  assumes "okTree t" "\<not> inTree a b" "\<not> inTree b a" "look t (butlast b) = Some DirN"
  shows "okTree (mvTree a b t)"
  unfolding okTree_def
proof (intro allI impI)
  fix q m
  assume l: "look (mvTree a b t) (q @ [m]) \<noteq> None"
  have ne: "b \<noteq> []" using assms(3) by auto
  show "look (mvTree a b t) q = Some DirN"
  proof (cases "inTree b q")
    case True
    then obtain r where q: "q = b @ r" by (auto simp: inTree_iff)
    with l have "look t (a @ r @ [m]) \<noteq> None" by (simp add: look_mvTree [OF assms(2,3)])
    then have "look t (a @ r) = Some DirN" using okTreeD [OF assms(1), of "a @ r" m] by simp
    with q show ?thesis by (simp add: look_mvTree [OF assms(2,3)])
  next
    case nb: False
    show ?thesis
    proof (cases "q @ [m] = b")
      case True
      then have q: "q = butlast b" by auto
      have "\<not> inTree a q"
      proof
        assume "inTree a q"
        then have "inTree a b" using True by (auto simp: inTree_iff)
        with assms(2) show False ..
      qed
      with q assms(4) nb show ?thesis by (simp add: look_mvTree [OF assms(2,3)])
    next
      case False
      have "\<not> inTree b (q @ [m])"
      proof
        assume "inTree b (q @ [m])"
        then obtain r where "q @ [m] = b @ r" by (auto simp: inTree_iff)
        with False nb show False by (cases r rule: rev_cases) (auto simp: inTree_iff)
      qed
      with l have na: "\<not> inTree a (q @ [m])" and lt: "look t (q @ [m]) \<noteq> None"
        by (auto simp: look_mvTree [OF assms(2,3)] split: if_splits)
      from na have "\<not> inTree a q" by (auto simp: inTree_iff)
      with nb okTreeD [OF assms(1) lt] show ?thesis by (simp add: look_mvTree [OF assms(2,3)])
    qed
  qed
qed

section \<open>System calls\<close>

text \<open>An injected error never claims that a file does or does not exist.\<close>

definition honest :: "err \<Rightarrow> err" where
  "honest e = (if isNotExist e \<or> isExist e then OsErr ''input/output error'' else e)"

definition sys :: "(nat \<Rightarrow> fsys \<Rightarrow> fsys) \<Rightarrow> 'a fsact \<Rightarrow> 'a fsact" where
  "sys partial body s =
     (case faults s of
        [] \<Rightarrow> body s
      | Fine # fs \<Rightarrow> body (s\<lparr>faults := fs\<rparr>)
      | Fails e k # fs \<Rightarrow> (Inl (honest e), partial k (s\<lparr>faults := fs\<rparr>)))"

definition untouched :: "nat \<Rightarrow> fsys \<Rightarrow> fsys" where
  "untouched k s = s"

definition noSuch :: err where "noSuch = NotExist ''no such file or directory''"

text \<open>\<open>os.Stat\<close> and \<open>os.Lstat\<close>.\<close>

definition osStat :: "path \<Rightarrow> node fsact" where
  "osStat p = sys untouched (\<lambda>s. case look (tree s) p of
     Some n \<Rightarrow> ok n s | None \<Rightarrow> throw noSuch s)"

definition osReadFile :: "path \<Rightarrow> bytes fsact" where
  "osReadFile p = sys untouched (\<lambda>s. case look (tree s) p of
     Some (FileN d m) \<Rightarrow> ok d s
   | Some _ \<Rightarrow> throw (OsErr ''is a directory'') s
   | None \<Rightarrow> throw noSuch s)"

definition osReadDir :: "path \<Rightarrow> (gostr \<times> node) list fsact" where
  "osReadDir p = sys untouched (\<lambda>s. case look (tree s) p of
     Some DirN \<Rightarrow> ok (map (\<lambda>n. (n, the (look (tree s) (p @ [n])))) (entries p (tree s))) s
   | Some _ \<Rightarrow> throw (OsErr ''not a directory'') s
   | None \<Rightarrow> throw noSuch s)"

definition parentErr :: "path \<Rightarrow> fsys \<Rightarrow> err option" where
  "parentErr p s = (case look (tree s) (butlast p) of
     None \<Rightarrow> Some noSuch | Some DirN \<Rightarrow> None | Some _ \<Rightarrow> Some (OsErr ''not a directory''))"

definition osMkdir :: "path \<Rightarrow> unit fsact" where
  "osMkdir p = sys untouched (\<lambda>s.
     if look (tree s) p \<noteq> None then throw (Exist ''file exists'') s
     else (case parentErr p s of
         Some e \<Rightarrow> throw e s
       | None \<Rightarrow> ok () (s\<lparr>tree := put p DirN (tree s)\<rparr>)))"

definition osRemove :: "path \<Rightarrow> unit fsact" where
  "osRemove p = sys untouched (\<lambda>s. case look (tree s) p of
     None \<Rightarrow> throw noSuch s
   | Some n \<Rightarrow>
       if p = [] then throw (OsErr ''device or resource busy'') s
       else if n = DirN \<and> entries p (tree s) \<noteq> [] then throw (OsErr ''directory not empty'') s
       else ok () (s\<lparr>tree := del p (tree s)\<rparr>))"

definition osRemoveAll :: "path \<Rightarrow> unit fsact" where
  "osRemoveAll p = sys (\<lambda>k s. s\<lparr>tree := delSome p k (tree s)\<rparr>)
     (\<lambda>s. ok () (s\<lparr>tree := delTree p (tree s)\<rparr>))"

text \<open>\<open>rename(2)\<close>: over nothing, over a file, or over an empty directory.\<close>

definition osRename :: "path \<Rightarrow> path \<Rightarrow> unit fsact" where
  "osRename a b = sys untouched (\<lambda>s. case look (tree s) a of
     None \<Rightarrow> throw noSuch s
   | Some n \<Rightarrow>
       (case parentErr b s of
          Some e \<Rightarrow> throw e s
        | None \<Rightarrow>
            if a = b then ok () s
            else if inTree a b \<or> inTree b a then throw (OsErr ''invalid argument'') s
            else if look (tree s) b = Some DirN \<and> n \<noteq> DirN then throw (OsErr ''file exists'') s
            else if look (tree s) b = Some DirN \<and> entries b (tree s) \<noteq> [] then throw (OsErr ''directory not empty'') s
            else if n = DirN \<and> look (tree s) b \<noteq> None \<and> look (tree s) b \<noteq> Some DirN then throw (OsErr ''not a directory'') s
            else ok () (s\<lparr>tree := mvTree a b (tree s)\<rparr>)))"

text \<open>Opening for writing: \<open>O_CREATE\<close> with \<open>O_TRUNC\<close> or \<open>O_APPEND\<close>, mode 0600 when created.\<close>

definition osOpen :: "bool \<Rightarrow> path \<Rightarrow> unit fsact" where
  "osOpen trunc p = sys untouched (\<lambda>s. case look (tree s) p of
     Some (FileN d m) \<Rightarrow> ok () (s\<lparr>tree := (if trunc then put p (FileN [] m) (tree s) else tree s)\<rparr>)
   | Some _ \<Rightarrow> throw (OsErr ''is a directory'') s
   | None \<Rightarrow>
       (case parentErr p s of
          Some e \<Rightarrow> throw e s
        | None \<Rightarrow> ok () (s\<lparr>tree := put p (FileN [] 384) (tree s)\<rparr>)))"

text \<open>Writing at the end of an open file; a failed write may have written a prefix.\<close>

definition appendTo :: "path \<Rightarrow> bytes \<Rightarrow> fsys \<Rightarrow> fsys" where
  "appendTo p c s = (case look (tree s) p of
     Some (FileN d m) \<Rightarrow> s\<lparr>tree := put p (FileN (d @ c) m) (tree s)\<rparr> | _ \<Rightarrow> s)"

definition fileWrite :: "path \<Rightarrow> bytes \<Rightarrow> unit fsact" where
  "fileWrite p c = sys (\<lambda>k. appendTo p (take k c)) (\<lambda>s. ok () (appendTo p c s))"

definition fileChmod :: "path \<Rightarrow> nat \<Rightarrow> unit fsact" where
  "fileChmod p m = sys untouched (\<lambda>s. case look (tree s) p of
     Some (FileN d m') \<Rightarrow> ok () (s\<lparr>tree := put p (FileN d m) (tree s)\<rparr>) | _ \<Rightarrow> ok () s)"

text \<open>\<open>os.Chmod\<close>; the mode of a directory is not kept.\<close>

definition osChmod :: "path \<Rightarrow> nat \<Rightarrow> unit fsact" where
  "osChmod p m = sys untouched (\<lambda>s. case look (tree s) p of
     None \<Rightarrow> throw noSuch s
   | Some (FileN d m') \<Rightarrow> ok () (s\<lparr>tree := put p (FileN d m) (tree s)\<rparr>)
   | Some _ \<Rightarrow> ok () s)"

text \<open>Writing from the start of an open file without truncating it.\<close>

definition overwrite :: "path \<Rightarrow> bytes \<Rightarrow> fsys \<Rightarrow> fsys" where
  "overwrite p c s = (case look (tree s) p of
     Some (FileN d m) \<Rightarrow> s\<lparr>tree := put p (FileN (c @ drop (length c) d) m) (tree s)\<rparr> | _ \<Rightarrow> s)"

definition fileOverwrite :: "path \<Rightarrow> bytes \<Rightarrow> unit fsact" where
  "fileOverwrite p c = sys (\<lambda>k. overwrite p (take k c)) (\<lambda>s. ok () (overwrite p c s))"

text \<open>\<open>Sync\<close>, \<open>Close\<close> and opening a directory change nothing in the tree.\<close>

definition quiet :: "unit fsact" where
  "quiet = sys untouched (ok ())"

text \<open>The loop of \<open>CreateTemp\<close> and \<open>MkdirTemp\<close>: the first random name that is free.\<close>

fun tempName :: "path \<Rightarrow> gostr \<Rightarrow> gostr list \<Rightarrow> (path \<times> node) list \<Rightarrow> (path \<times> gostr list) option" where
  "tempName d pre [] t = None"
| "tempName d pre (r # rs) t =
     (if look t (d @ [pre @ r]) = None then Some (d @ [pre @ r], rs) else tempName d pre rs t)"

definition osTemp :: "node \<Rightarrow> path \<Rightarrow> gostr \<Rightarrow> path fsact" where
  "osTemp n d pre = sys untouched (\<lambda>s. case look (tree s) d of
     None \<Rightarrow> throw noSuch s
   | Some DirN \<Rightarrow>
       (case tempName d pre (rand s) (tree s) of
          None \<Rightarrow> throw (Exist ''file exists'') s
        | Some (p, rs) \<Rightarrow> ok p (s\<lparr>rand := rs, tree := put p n (tree s)\<rparr>))
   | Some _ \<Rightarrow> throw (OsErr ''not a directory'') s)"

section \<open>What a call can do\<close>

abbreviation lk :: "fsys \<Rightarrow> path \<Rightarrow> node option" where "lk s \<equiv> look (tree s)"

lemma sys_cases:
  assumes "sys partial body s = (r, t)"
  obtains s' where "tree s' = tree s" "rand s' = rand s" "flocked s' = flocked s" "body s' = (r, t)"
  | e k s' where "tree s' = tree s" "rand s' = rand s" "flocked s' = flocked s" "r = Inl (honest e)" "t = partial k s'"
proof (cases "faults s")
  case Nil
  with assms that(1) [of s] show ?thesis by (simp add: sys_def)
next
  case (Cons f fs)
  with assms that(1) [of "s\<lparr>faults := fs\<rparr>"] that(2) [of "s\<lparr>faults := fs\<rparr>"] show ?thesis
    by (cases f) (auto simp: sys_def)
qed

lemma honest_simps [simp]: "\<not> isNotExist (honest e)" "\<not> isExist (honest e)"
  by (auto simp: honest_def isNotExist_def isExist_def)

lemma osRename_out:
  assumes "osRename a b s = (r, t)"
  obtains e where "r = Inl e" "tree t = tree s"
  | "r = Inr ()" "a = b" "tree t = tree s"
  | n where "r = Inr ()" "lk s a = Some n" "\<not> inTree a b" "\<not> inTree b a" "lk s (butlast b) = Some DirN"
      "tree t = mvTree a b (tree s)" "lk s b = Some DirN \<longrightarrow> n = DirN \<and> entries b (tree s) = []"
      "n = DirN \<longrightarrow> lk s b = None \<or> lk s b = Some DirN"
  using assms unfolding osRename_def
proof (cases rule: sys_cases)
  case (1 s')
  show ?thesis
  proof (cases "lk s a")
    case None
    with 1 that(1) show ?thesis by auto
  next
    case (Some n)
    show ?thesis
    proof (cases "parentErr b s'")
      case e: (Some e)
      with 1 Some that(1) show ?thesis by auto
    next
      case None
      then have "lk s (butlast b) = Some DirN" using 1 by (auto simp: parentErr_def split: option.splits node.splits)
      with 1 Some None that show ?thesis by (auto split: if_splits)
    qed
  qed
next
  case (2 e k s')
  with that(1) show ?thesis by (simp add: untouched_def)
qed

lemma osTemp_out:
  assumes "osTemp n d pre s = (r, t)"
  obtains e where "r = Inl e" "tree t = tree s"
  | p x where "r = Inr p" "p = d @ [pre @ x]" "lk s p = None" "lk s d = Some DirN" "tree t = put p n (tree s)"
  using assms unfolding osTemp_def
proof (cases rule: sys_cases)
  case (1 s')
  have tn: "\<exists>x. p = d @ [pre @ x] \<and> look u p = None" if "tempName d pre xs u = Some (p, ys)" for xs u p ys
    using that by (induction d pre xs u rule: tempName.induct) (auto split: if_splits)
  show ?thesis
  proof (cases "lk s d = Some DirN \<and> tempName d pre (rand s) (tree s) \<noteq> None")
    case True
    then obtain p ys where p: "tempName d pre (rand s) (tree s) = Some (p, ys)" by auto
    with tn obtain x where "p = d @ [pre @ x]" "lk s p = None" by blast
    with 1 True p that(2) [of p x] show ?thesis by auto
  next
    case False
    with 1 that(1) show ?thesis by (auto split: option.splits node.splits)
  qed
next
  case (2 e k s')
  with that(1) show ?thesis by (simp add: untouched_def)
qed

lemma osRemove_out:
  assumes "osRemove p s = (r, t)"
  obtains e where "r = Inl e" "tree t = tree s" "isNotExist e \<longrightarrow> lk s p = None"
  | "r = Inr ()" "p \<noteq> []" "lk s p \<noteq> None" "tree t = del p (tree s)" "lk s p = Some DirN \<longrightarrow> entries p (tree s) = []"
  using assms unfolding osRemove_def
proof (cases rule: sys_cases)
  case (1 s')
  with that show ?thesis by (auto split: option.splits if_splits)
next
  case (2 e k s')
  with that(1) show ?thesis by (simp add: untouched_def)
qed

lemma osMkdir_out:
  assumes "osMkdir p s = (r, t)"
  obtains e where "r = Inl e" "tree t = tree s"
  | "r = Inr ()" "lk s p = None" "lk s (butlast p) = Some DirN" "p \<noteq> []" "tree t = put p DirN (tree s)"
  using assms unfolding osMkdir_def
proof (cases rule: sys_cases)
  case (1 s')
  show ?thesis
  proof (cases "lk s p = None \<and> parentErr p s' = None")
    case True
    then have "lk s (butlast p) = Some DirN" "p \<noteq> []" using 1
      by (auto simp: parentErr_def split: option.splits node.splits)
    with 1 True that(2) show ?thesis by auto
  next
    case False
    with 1 that(1) show ?thesis by (auto split: option.splits if_splits)
  qed
next
  case (2 e k s')
  with that(1) show ?thesis by (simp add: untouched_def)
qed

lemma osOpen_out:
  assumes "osOpen trunc p s = (r, t)"
  obtains e where "r = Inl e" "tree t = tree s"
  | d m where "r = Inr ()" "lk s p = Some (FileN d m)" "p \<noteq> []"
      "tree t = (if trunc then put p (FileN [] m) (tree s) else tree s)"
  | "r = Inr ()" "lk s p = None" "lk s (butlast p) = Some DirN" "p \<noteq> []" "tree t = put p (FileN [] 384) (tree s)"
  using assms unfolding osOpen_def
proof (cases rule: sys_cases)
  case (1 s')
  show ?thesis
  proof (cases "lk s p")
    case None
    then have "p \<noteq> []" by auto
    show ?thesis
    proof (cases "parentErr p s'")
      case (Some e)
      with 1 None that(1) show ?thesis by auto
    next
      case n: None
      then have "lk s (butlast p) = Some DirN" using 1 by (auto simp: parentErr_def split: option.splits node.splits)
      with 1 None n that(3) \<open>p \<noteq> []\<close> show ?thesis by auto
    qed
  next
    case (Some n)
    then show ?thesis
    proof (cases n)
      case (FileN d m)
      moreover from this Some have "p \<noteq> []" by auto
      ultimately show ?thesis using 1 Some that(2) [of d m] by auto
    qed (use 1 Some that(1) in auto)
  qed
next
  case (2 e k s')
  with that(1) show ?thesis by (simp add: untouched_def)
qed

lemma appendTo_out:
  "tree (appendTo p c s) = (case lk s p of Some (FileN d m) \<Rightarrow> put p (FileN (d @ c) m) (tree s) | _ \<Rightarrow> tree s)"
  by (simp add: appendTo_def split: option.split node.split)

lemma fileWrite_out:
  assumes "fileWrite p c s = (r, t)" "lk s p = Some (FileN d m)"
  obtains e k where "r = Inl e" "tree t = put p (FileN (d @ take k c) m) (tree s)"
  | "r = Inr ()" "tree t = put p (FileN (d @ c) m) (tree s)"
  using assms(1) unfolding fileWrite_def
  by (cases rule: sys_cases) (use assms(2) that in \<open>auto simp: appendTo_out\<close>)

lemma fileChmod_out:
  assumes "fileChmod p m s = (r, t)" "lk s p = Some (FileN d m')"
  obtains e where "r = Inl e" "tree t = tree s"
  | "r = Inr ()" "tree t = put p (FileN d m) (tree s)"
  using assms(1) unfolding fileChmod_def
  by (cases rule: sys_cases) (use assms(2) that in \<open>auto simp: untouched_def\<close>)

lemma osRemoveAll_out:
  assumes "osRemoveAll p s = (r, t)"
  obtains e k where "r = Inl e" "tree t = delSome p k (tree s)"
  | "r = Inr ()" "tree t = delTree p (tree s)"
  using assms unfolding osRemoveAll_def
  by (cases rule: sys_cases) (use that in auto)

section \<open>Every call keeps the tree well formed\<close>

abbreviation okFs :: "fsys \<Rightarrow> bool" where "okFs s \<equiv> okTree (tree s)"

named_theorems fsok \<open>calls that keep the tree well formed\<close>

lemma keepsI: "(\<And>s r t. I s \<Longrightarrow> m s = (r, t) \<Longrightarrow> I t) \<Longrightarrow> keeps I m"
  unfolding keeps_def by (metis surjective_pairing)

lemma sys_ok:
  assumes "\<And>s r t. okFs s \<Longrightarrow> body s = (r, t) \<Longrightarrow> okFs t" "\<And>k s. okFs s \<Longrightarrow> okFs (partial k s)"
  shows "keeps okFs (sys partial body)"
proof (rule keepsI)
  fix s r t assume "okFs s" "sys partial body s = (r, t)"
  from this(2) show "okFs t"
    by (cases rule: sys_cases) (use \<open>okFs s\<close> assms in \<open>metis\<close>)+
qed

lemma appendTo_ok: "okFs s \<Longrightarrow> okFs (appendTo p c s)"
proof -
  assume ok: "okFs s"
  show ?thesis
  proof (cases "\<exists>d m. lk s p = Some (FileN d m)")
    case True
    then obtain d m where l: "lk s p = Some (FileN d m)" by blast
    then have ne: "p \<noteq> []" by auto
    then have "lk s (butlast p @ [last p]) \<noteq> None" using l by simp
    from okTreeD [OF ok this] l ne ok show ?thesis by (simp add: appendTo_out okTree_put)
  next
    case False
    then show ?thesis using ok by (auto simp: appendTo_out split: option.split node.split)
  qed
qed

lemma syscalls_ok [fsok]:
  "keeps okFs (osStat p)" "keeps okFs (osReadFile p)" "keeps okFs (osReadDir p)" "keeps okFs quiet"
  unfolding osStat_def osReadFile_def osReadDir_def quiet_def
  by (rule sys_ok; auto simp: untouched_def split: option.splits node.splits)+

lemma osMkdir_ok [fsok]: "keeps okFs (osMkdir p)"
  by (rule keepsI, erule osMkdir_out) (simp_all add: okTree_put)

lemma osTemp_ok [fsok]: "keeps okFs (osTemp n d pre)"
  by (rule keepsI, erule osTemp_out) (simp_all add: okTree_put)

lemma osRemove_ok [fsok]: "keeps okFs (osRemove p)"
  by (rule keepsI, erule osRemove_out) (simp_all add: okTree_del)

lemma osRemoveAll_ok [fsok]: "p \<noteq> [] \<Longrightarrow> keeps okFs (osRemoveAll p)"
  by (rule keepsI, erule osRemoveAll_out) (simp_all add: okTree_delSome okTree_delTree)

lemma osRename_ok [fsok]: "keeps okFs (osRename a b)"
  by (rule keepsI, erule osRename_out) (simp_all add: okTree_mvTree)

lemma fileWrite_ok [fsok]: "keeps okFs (fileWrite p c)"
  unfolding fileWrite_def by (rule sys_ok) (auto simp: appendTo_ok)

lemma okTree_refile:
  assumes "okFs s" "lk s p = Some (FileN d m)"
  shows "okTree (put p (FileN d' m') (tree s))"
proof -
  have ne: "p \<noteq> []" using assms(2) by auto
  then have "lk s (butlast p @ [last p]) \<noteq> None" using assms(2) by simp
  from okTreeD [OF assms(1) this] assms ne show ?thesis by (simp add: okTree_put)
qed

lemma osOpen_ok [fsok]: "keeps okFs (osOpen trunc p)"
  by (rule keepsI, erule osOpen_out) (simp_all add: okTree_put okTree_refile)

lemma fileChmod_ok [fsok]: "keeps okFs (fileChmod p m)"
  unfolding fileChmod_def by (rule sys_ok) (auto simp: untouched_def okTree_refile split: option.splits node.splits)

lemma overwrite_out:
  "tree (overwrite p c s) = (case lk s p of Some (FileN d m) \<Rightarrow> put p (FileN (c @ drop (length c) d) m) (tree s) | _ \<Rightarrow> tree s)"
  by (simp add: overwrite_def split: option.split node.split)

lemma overwrite_ok: "okFs s \<Longrightarrow> okFs (overwrite p c s)"
  by (auto simp: overwrite_out okTree_refile split: option.split node.split)

lemma fileOverwrite_ok [fsok]: "keeps okFs (fileOverwrite p c)"
  unfolding fileOverwrite_def by (rule sys_ok) (auto simp: overwrite_ok)

lemma osChmod_ok [fsok]: "keeps okFs (osChmod p m)"
  unfolding osChmod_def by (rule sys_ok) (auto simp: untouched_def okTree_refile split: option.splits node.splits)

lemma combi_ok [fsok]:
  "keeps I (ok x)" "keeps I (throw e)" "keeps I m \<Longrightarrow> keeps I (observe m)" "keeps I m \<Longrightarrow> keeps I (attempt m)"
  "keeps I m \<Longrightarrow> keeps I (wrapping f m)" "keeps I c \<Longrightarrow> keeps I m \<Longrightarrow> keeps I (deferring c m)"
  by (fastforce simp: keeps_def observe_def attempt_def wrapping_def deferring_def split: prod.split sum.split
      dest: spec)+

lemma andThen_okFs [fsok]: "keeps I m \<Longrightarrow> (\<And>x. keeps I (f x)) \<Longrightarrow> keeps I (andThen m f)"
  by (rule keeps_andThen)

lemma each_ok [fsok]: "(\<And>x. keeps I (f x)) \<Longrightarrow> keeps I (each f xs)"
  by (induction xs) (auto intro!: fsok)

text \<open>Moving a file: its entry goes, the target has it.\<close>

lemma okTree_notdir_in:
  assumes "okTree t" "look t p \<noteq> Some DirN" "inTree p q" "q \<noteq> p"
  shows "look t q = None"
proof -
  obtain r where "q = p @ r" using assms(3) by (auto simp: inTree_iff)
  with okTree_notdir [OF assms(1,2), of r] assms(4) show ?thesis by simp
qed

lemma look_mv_file:
  assumes "okTree t" "look t a = Some n" "n \<noteq> DirN" "look t b \<noteq> Some DirN" "\<not> inTree a b" "\<not> inTree b a"
  shows "look (mvTree a b t) = (look t)(a := None, b \<mapsto> n)"
proof
  fix q
  have a: "look t a \<noteq> Some DirN" using assms(2,3) by simp
  show "look (mvTree a b t) q = ((look t)(a := None, b \<mapsto> n)) q"
  proof (cases "inTree b q")
    case True
    then obtain r where q: "q = b @ r" by (auto simp: inTree_iff)
    show ?thesis
    proof (cases "r = []")
      case True
      with q assms show ?thesis by (simp add: look_mvTree)
    next
      case False
      have "look t (a @ r) = None" by (rule okTree_notdir_in [OF assms(1) a]) (use False in simp_all)
      moreover have "look t (b @ r) = None" by (rule okTree_notdir_in [OF assms(1,4)]) (use False in simp_all)
      ultimately show ?thesis using q False assms(5,6) by (auto simp: look_mvTree)
    qed
  next
    case nb: False
    then have "q \<noteq> b" by auto
    show ?thesis
    proof (cases "inTree a q \<and> q \<noteq> a")
      case True
      with okTree_notdir_in [OF assms(1) a, of q] nb assms(5,6) \<open>q \<noteq> b\<close> show ?thesis by (simp add: look_mvTree)
    next
      case False
      with nb assms(5,6) \<open>q \<noteq> b\<close> show ?thesis by (auto simp: look_mvTree)
    qed
  qed
qed

lemma rename_file:
  assumes "okFs s" "lk s a = Some n" "n \<noteq> DirN" "a \<noteq> b" "osRename a b s = (r, t)"
  obtains e where "r = Inl e" "tree t = tree s"
  | "r = Inr ()" "lk t = (lk s)(a := None, b \<mapsto> n)" "lk s b \<noteq> Some DirN" "lk s (butlast b) = Some DirN"
  using assms(5)
proof (cases rule: osRename_out)
  case (1 e)
  then show ?thesis by (rule that(1))
next
  case 2
  with assms(4) show ?thesis by simp
next
  case (3 n')
  with assms(2,3) have nd: "lk s b \<noteq> Some DirN" by auto
  with look_mv_file [OF assms(1,2,3) nd 3(3,4)] 3 show ?thesis by (intro that(2)) simp_all
qed

text \<open>The same as disjunctions, for calls in the middle of a sequence.\<close>

lemma quiet_res: "quiet s = (r, t) \<Longrightarrow> tree t = tree s \<and> (r = Inr () \<or> (\<exists>e. r = Inl e))"
  unfolding quiet_def by (erule sys_cases) (auto simp: untouched_def)

lemma fileChmod_res:
  "fileChmod p m s = (r, t) \<Longrightarrow> lk s p = Some (FileN d m') \<Longrightarrow>
     (\<exists>e. r = Inl e \<and> tree t = tree s) \<or> r = Inr () \<and> tree t = put p (FileN d m) (tree s)"
  by (erule fileChmod_out) auto

lemma fileWrite_res:
  "fileWrite p c s = (r, t) \<Longrightarrow> lk s p = Some (FileN d m) \<Longrightarrow>
     (\<exists>e k. r = Inl e \<and> tree t = put p (FileN (d @ take k c) m) (tree s))
     \<or> r = Inr () \<and> tree t = put p (FileN (d @ c) m) (tree s)"
  by (erule fileWrite_out) auto

lemma rename_file_res:
  "okFs s \<Longrightarrow> lk s a = Some n \<Longrightarrow> n \<noteq> DirN \<Longrightarrow> a \<noteq> b \<Longrightarrow> osRename a b s = (r, t) \<Longrightarrow>
     (\<exists>e. r = Inl e \<and> tree t = tree s)
     \<or> r = Inr () \<and> lk t = (lk s)(a := None, b \<mapsto> n) \<and> lk s b \<noteq> Some DirN \<and> lk s (butlast b) = Some DirN"
  by (erule (4) rename_file) auto

lemma osTemp_res:
  "osTemp n d pre s = (r, t) \<Longrightarrow>
     (\<exists>e. r = Inl e \<and> tree t = tree s)
     \<or> (\<exists>x. r = Inr (d @ [pre @ x]) \<and> lk s (d @ [pre @ x]) = None \<and> lk s d = Some DirN
          \<and> tree t = put (d @ [pre @ x]) n (tree s))"
  by (erule osTemp_out) auto

lemma osRemove_res:
  "osRemove p s = (r, t) \<Longrightarrow>
     (\<exists>e. r = Inl e \<and> tree t = tree s \<and> (isNotExist e \<longrightarrow> lk s p = None))
     \<or> r = Inr () \<and> p \<noteq> [] \<and> lk s p \<noteq> None \<and> tree t = del p (tree s)
        \<and> (lk s p = Some DirN \<longrightarrow> entries p (tree s) = [])"
  by (erule osRemove_out) auto

lemma osMkdir_res:
  "osMkdir p s = (r, t) \<Longrightarrow>
     (\<exists>e. r = Inl e \<and> tree t = tree s)
     \<or> r = Inr () \<and> lk s p = None \<and> lk s (butlast p) = Some DirN \<and> p \<noteq> [] \<and> tree t = put p DirN (tree s)"
  by (erule osMkdir_out) auto

end
