(* ===== verification/Paths.thy ===== *)
theory Paths
  imports Errors
begin

text \<open>
  Go's \<open>path/filepath\<close> on Unix, as far as the program uses it (\<open>Clean\<close>, \<open>Join\<close>, \<open>Base\<close>,
  \<open>Dir\<close>, \<open>Ext\<close>, \<open>IsAbs\<close>, \<open>Rel\<close>), and \<open>JoinUnder\<close> of src/config/files.go on top of it.
  \<open>comps\<close> is what a path means: its components after the lexical processing of \<open>Clean\<close>.
\<close>

abbreviation (input) slash :: rune where "slash \<equiv> 47"

definition dot :: gostr where "dot = [46]"
definition dotdot :: gostr where "dotdot = [46, 46]"

definition IsAbs :: "gostr \<Rightarrow> bool" where
  "IsAbs s \<longleftrightarrow> (case s of [] \<Rightarrow> False | r # _ \<Rightarrow> r = slash)"

text \<open>One component, on the reversed output.\<close>

definition cleanStep :: "bool \<Rightarrow> gostr \<Rightarrow> gostr list \<Rightarrow> gostr list" where
  "cleanStep rooted c out =
     (if c = [] \<or> c = dot then out
      else if c = dotdot then
        (case out of
           [] \<Rightarrow> if rooted then [] else [dotdot]
         | d # ds \<Rightarrow> if d = dotdot then dotdot # out else ds)
      else c # out)"

definition comps :: "gostr \<Rightarrow> gostr list" where
  "comps s = rev (fold (cleanStep (IsAbs s)) (Split1 slash s) [])"

definition Clean :: "gostr \<Rightarrow> gostr" where
  "Clean s =
     (if IsAbs s then slash # Join (comps s) [slash]
      else if comps s = [] then dot else Join (comps s) [slash])"

definition PathJoin :: "gostr list \<Rightarrow> gostr" where
  "PathJoin elems = (case filter (\<lambda>e. e \<noteq> []) elems of [] \<Rightarrow> [] | es \<Rightarrow> Clean (Join es [slash]))"

definition Base :: "gostr \<Rightarrow> gostr" where
  "Base s =
     (if s = [] then dot
      else (let t = dropWhile (\<lambda>r. r = slash) (rev s) in
            if t = [] then [slash] else rev (takeWhile (\<lambda>r. r \<noteq> slash) t)))"

definition Dir :: "gostr \<Rightarrow> gostr" where
  "Dir s = Clean (rev (dropWhile (\<lambda>r. r \<noteq> slash) (rev s)))"

definition Ext :: "gostr \<Rightarrow> gostr" where
  "Ext s =
     (let r = rev s; tail = takeWhile (\<lambda>x. x \<noteq> 46 \<and> x \<noteq> slash) r in
      case drop (length tail) r of x # _ \<Rightarrow> if x = 46 then 46 # rev tail else [] | [] \<Rightarrow> [])"

fun stripCommon :: "'a list \<Rightarrow> 'a list \<Rightarrow> 'a list \<times> 'a list" where
  "stripCommon (x # xs) (y # ys) = (if x = y then stripCommon xs ys else (x # xs, y # ys))"
| "stripCommon xs ys = (xs, ys)"

definition Rel :: "gostr \<Rightarrow> gostr \<Rightarrow> err + gostr" where
  "Rel base targ =
     (if IsAbs base \<noteq> IsAbs targ then Inl (Msg ''Rel: can't make relative'')
      else (case stripCommon (comps base) (comps targ) of
              (b, t) \<Rightarrow>
                if dotdot \<in> set b then Inl (Msg ''Rel: can't make relative'')
                else let r = replicate (length b) dotdot @ t in Inr (if r = [] then dot else Join r [slash])))"

definition JoinUnder :: "gostr \<Rightarrow> gostr \<Rightarrow> err + gostr" where
  "JoinUnder base relative =
     (if TrimSpace base = [] then Inl (Msg ''empty base path'')
      else if TrimSpace relative = [] \<or> IsAbs relative then Inl (Msg ''path must be non-empty and relative'')
      else let clean = Clean relative in
        if clean = dot \<or> clean = dotdot \<or> HasPrefix clean (dotdot @ [slash])
        then Inl (Msg ''path escapes base directory'')
        else Inr (PathJoin [base, clean]))"

section \<open>Components\<close>

text \<open>A component that names an entry of a directory.\<close>

definition plain :: "gostr \<Rightarrow> bool" where
  "plain c \<longleftrightarrow> c \<noteq> [] \<and> c \<noteq> dot \<and> c \<noteq> dotdot \<and> slash \<notin> set c"

lemma dots [simp]: "dot \<noteq> []" "dotdot \<noteq> []" "dot \<noteq> dotdot" "dotdot \<noteq> dot" "slash \<notin> set dot" "slash \<notin> set dotdot"
  by (simp_all add: dot_def dotdot_def)

lemma plain_simps [simp]: "\<not> plain []" "\<not> plain dot" "\<not> plain dotdot"
  by (simp_all add: plain_def)

lemma cleanStep_plain [simp]: "plain c \<Longrightarrow> cleanStep rooted c out = c # out"
  by (auto simp: cleanStep_def plain_def)

lemma cleanStep_skip [simp]: "cleanStep rooted [] out = out" "cleanStep rooted dot out = out"
  by (simp_all add: cleanStep_def)

lemma cleanStep_dotdot [simp]:
  "cleanStep False dotdot [] = [dotdot]"
  "cleanStep True dotdot [] = []"
  "d \<noteq> dotdot \<Longrightarrow> cleanStep rooted dotdot (d # ds) = ds"
  "cleanStep rooted dotdot (dotdot # ds) = dotdot # dotdot # ds"
  by (simp_all add: cleanStep_def)

lemma fold_plain: "\<forall>c \<in> set cs. plain c \<Longrightarrow> fold (cleanStep rooted) cs out = rev cs @ out"
  by (induction cs arbitrary: out) auto

text \<open>The shape of a cleaned path: leading \<open>..\<close>, none when rooted, then entries.\<close>

definition cleanList :: "bool \<Rightarrow> gostr list \<Rightarrow> bool" where
  "cleanList rooted cs \<longleftrightarrow> (\<exists>n ps. cs = replicate n dotdot @ ps \<and> (\<forall>c \<in> set ps. plain c) \<and> (rooted \<longrightarrow> n = 0))"

lemma cleanList_Nil [simp]: "cleanList rooted []"
  unfolding cleanList_def by (rule exI [of _ 0]) simp

lemma cleanStep_shape:
  assumes "cleanList rooted (rev out)" "slash \<notin> set c"
  shows "cleanList rooted (rev (cleanStep rooted c out))"
proof (cases "c = [] \<or> c = dot")
  case True
  with assms show ?thesis by (auto simp: cleanStep_def)
next
  case False
  from assms(1) obtain n ps where out: "rev out = replicate n dotdot @ ps" "\<forall>p \<in> set ps. plain p" "rooted \<longrightarrow> n = 0"
    unfolding cleanList_def by blast
  show ?thesis
  proof (cases "c = dotdot")
    case False2: False
    with False assms(2) have "plain c" by (simp add: plain_def)
    with out show ?thesis unfolding cleanList_def by (intro exI [of _ n] exI [of _ "ps @ [c]"]) auto
  next
    case True
    show ?thesis
    proof (cases ps rule: rev_cases)
      case Nil
      then have o: "out = replicate n dotdot" using out(1) by (metis append_Nil2 rev_replicate rev_rev_ident)
      show ?thesis
      proof (cases n)
        case 0
        with o True show ?thesis unfolding cleanList_def cleanStep_def
          by (auto intro: exI [of _ 0] exI [of _ "Suc 0"])
      next
        case (Suc m)
        then have "rev (cleanStep rooted c out) = replicate (Suc n) dotdot @ []"
          using o True by (simp add: cleanStep_def replicate_append_same)
        with Suc out(3) show ?thesis unfolding cleanList_def by fastforce
      qed
    next
      case (snoc qs q)
      then have o: "out = q # rev (replicate n dotdot @ qs)" using out(1) by (metis rev.simps(2) append_assoc rev_swap)
      moreover have "q \<noteq> dotdot" using out(2) snoc by auto
      ultimately have "rev (cleanStep rooted c out) = replicate n dotdot @ qs" using True by (simp add: cleanStep_def)
      with out snoc show ?thesis unfolding cleanList_def by (intro exI [of _ n] exI [of _ qs]) auto
    qed
  qed
qed

lemma fold_shape:
  "cleanList rooted (rev out) \<Longrightarrow> \<forall>c \<in> set cs. slash \<notin> set c \<Longrightarrow> cleanList rooted (rev (fold (cleanStep rooted) cs out))"
  by (induction cs arbitrary: out) (simp_all add: cleanStep_shape)

lemma comps_shape: "cleanList (IsAbs s) (comps s)"
  unfolding comps_def by (rule fold_shape) (simp_all add: Split1_no_sep)

lemma cleanList_set:
  assumes "cleanList rooted cs" "c \<in> set cs"
  shows "c = dotdot \<and> \<not> rooted \<or> plain c"
proof -
  obtain n ps where "cs = replicate n dotdot @ ps" "\<forall>c \<in> set ps. plain c" "rooted \<longrightarrow> n = 0"
    using assms(1) unfolding cleanList_def by blast
  with assms(2) show ?thesis by (auto simp: set_replicate_conv_if split: if_splits)
qed

lemma comps_set: "c \<in> set (comps s) \<Longrightarrow> slash \<notin> set c \<and> c \<noteq> []"
  using cleanList_set [OF comps_shape, of c s] by (auto simp: plain_def)

lemma comps_no_slash: "c \<in> set (comps s) \<Longrightarrow> slash \<notin> set c"
  using comps_set by blast

lemma IsAbs_plain: "IsAbs s \<Longrightarrow> c \<in> set (comps s) \<Longrightarrow> plain c"
  using cleanList_set [OF comps_shape, of c s] by blast

text \<open>Reprocessing a cleaned path changes nothing.\<close>

lemma fold_dotdots: "fold (cleanStep False) (replicate n dotdot) (replicate m dotdot) = replicate (n + m) dotdot"
proof (induction n arbitrary: m)
  case (Suc n)
  have "cleanStep False dotdot (replicate m dotdot) = replicate (Suc m) dotdot"
    by (cases m) (simp_all add: cleanStep_def)
  with Suc [of "Suc m"] show ?case by simp
qed simp

lemma fold_clean: "cleanList rooted cs \<Longrightarrow> fold (cleanStep rooted) cs [] = rev cs"
proof -
  assume "cleanList rooted cs"
  then obtain n ps where cs: "cs = replicate n dotdot @ ps" "\<forall>c \<in> set ps. plain c" "rooted \<longrightarrow> n = 0"
    unfolding cleanList_def by blast
  show ?thesis
  proof (cases rooted)
    case True
    with cs show ?thesis by (simp add: fold_plain)
  next
    case False
    with cs fold_dotdots [of n 0] show ?thesis by (simp add: fold_plain rev_replicate)
  qed
qed

lemma Split1_sep_append: "Split1 c (a @ c # b) = Split1 c a @ Split1 c b"
proof (induction a)
  case (Cons r a)
  then show ?case by (cases "Split1 c a") auto
qed simp

lemma IsAbs_Join: "\<forall>c \<in> set cs. slash \<notin> set c \<Longrightarrow> \<forall>c \<in> set cs. c \<noteq> [] \<Longrightarrow> \<not> IsAbs (Join cs [slash])"
proof (cases cs)
  case (Cons c cs')
  assume "\<forall>c \<in> set cs. slash \<notin> set c" "\<forall>c \<in> set cs. c \<noteq> []"
  with Cons obtain r c' where "c = r # c'" "r \<noteq> slash" by (cases c) auto
  with Cons show ?thesis by (cases cs') (simp_all add: IsAbs_def)
qed (simp add: IsAbs_def)

lemma comps_Clean: "comps (Clean s) = comps s \<and> IsAbs (Clean s) = IsAbs s"
proof (cases "IsAbs s")
  case True
  have "comps (slash # Join (comps s) [slash]) = comps s"
  proof (cases "comps s = []")
    case c: True
    then show ?thesis by (simp add: comps_def [of "[slash]"] IsAbs_def)
  next
    case False
    have "Split1 slash (slash # Join (comps s) [slash]) = [] # comps s"
      using False comps_no_slash by (simp add: Split1_Join)
    then show ?thesis using fold_clean [OF comps_shape, of s] True
      by (simp add: comps_def [of "slash # Join (comps s) [slash]"] IsAbs_def)
  qed
  with True show ?thesis by (simp add: Clean_def IsAbs_def)
next
  case False
  show ?thesis
  proof (cases "comps s = []")
    case True
    have "comps dot = []" by (simp add: comps_def dot_def IsAbs_def) (simp add: cleanStep_def dot_def)
    with False True show ?thesis by (simp add: Clean_def) (simp add: dot_def IsAbs_def)
  next
    case c: False
    have ne: "\<forall>c \<in> set (comps s). c \<noteq> []" using comps_set by blast
    have na: "\<not> IsAbs (Join (comps s) [slash])" using IsAbs_Join ne comps_no_slash by blast
    have "Split1 slash (Join (comps s) [slash]) = comps s" using c comps_no_slash by (simp add: Split1_Join)
    with fold_clean [OF comps_shape, of s] False na have "comps (Join (comps s) [slash]) = comps s"
      by (simp add: comps_def [of "Join (comps s) [slash]"])
    with False c na show ?thesis by (simp add: Clean_def)
  qed
qed


lemma Clean_idem: "Clean (Clean s) = Clean s"
  using comps_Clean [of s] by (simp add: Clean_def [of "Clean s"]) (simp add: Clean_def)

lemma IsAbs_append: "a \<noteq> [] \<Longrightarrow> IsAbs (a @ b) = IsAbs a"
  by (cases a) (simp_all add: IsAbs_def)

text \<open>Joining a base and a relative path without leading \<open>..\<close> puts the entries under it.\<close>

lemma fold_shift:
  assumes "\<forall>c \<in> set cs. slash \<notin> set c" "\<forall>c \<in> set (fold (cleanStep False) cs []). plain c"
  shows "fold (cleanStep rooted) cs out = fold (cleanStep False) cs [] @ out"
  using assms
proof (induction cs rule: rev_induct)
  case (snoc c cs)
  define f where "f = fold (cleanStep False) cs []"
  have step: "fold (cleanStep r) (cs @ [c]) o' = cleanStep r c (fold (cleanStep r) cs o')" for r o' by simp
  have fp: "\<forall>d \<in> set (cleanStep False c f). plain d" using snoc.prems(2) by (simp add: f_def)
  have ns: "slash \<notin> set c" "\<forall>c \<in> set cs. slash \<notin> set c" using snoc.prems(1) by simp_all
  have IH: "fold (cleanStep rooted) cs out = f @ out" if "\<forall>d \<in> set f. plain d"
    using snoc.IH [OF ns(2)] that by (simp only: f_def)
  have sh: "cleanList False (rev f)" unfolding f_def by (rule fold_shape) (use ns in auto)
  have "cleanStep rooted c (fold (cleanStep rooted) cs out) = cleanStep False c f @ out"
  proof (cases "plain c")
    case True
    with fp IH show ?thesis by simp
  next
    case notplain: False
    show ?thesis
    proof (cases "c = dotdot")
      case dd: True
      show ?thesis
      proof (cases f)
        case Nil
        with fp dd show ?thesis by simp
      next
        case (Cons d ds)
        have d: "d \<noteq> dotdot" using fp dd Cons by auto
        with cleanList_set [OF sh, of d] Cons have "plain d" by simp
        with fp dd Cons d have "\<forall>d \<in> set f. plain d" by simp
        from IH [OF this] dd Cons d show ?thesis by simp
      qed
    next
      case False
      with notplain ns have "c = [] \<or> c = dot" by (auto simp: plain_def)
      with fp IH show ?thesis by auto
    qed
  qed
  then show ?case unfolding step f_def .
qed simp

lemma comps_join:
  assumes "b \<noteq> []" "\<not> IsAbs r" "r \<noteq> []" "\<forall>c \<in> set (comps r). plain c"
  shows "comps (PathJoin [b, r]) = comps b @ comps r \<and> IsAbs (PathJoin [b, r]) = IsAbs b"
proof -
  have pj: "PathJoin [b, r] = Clean (b @ slash # r)" using assms(1,3) by (simp add: PathJoin_def)
  have "fold (cleanStep rooted) (Split1 slash r) out = rev (comps r) @ out" for rooted out
  proof -
    have c: "comps r = rev (fold (cleanStep False) (Split1 slash r) [])" using assms(2) by (simp add: comps_def)
    then have "\<forall>c \<in> set (fold (cleanStep False) (Split1 slash r) []). plain c" using assms(4) by simp
    then show ?thesis unfolding c rev_rev_ident by (rule fold_shift [OF Split1_no_sep])
  qed
  moreover have "comps (b @ slash # r) = rev (fold (cleanStep (IsAbs b)) (Split1 slash b @ Split1 slash r) [])"
    using assms(1) by (simp add: comps_def IsAbs_append Split1_sep_append)
  ultimately have "comps (b @ slash # r) = comps b @ comps r" by (simp add: comps_def [of b])
  with comps_Clean [of "b @ slash # r"] assms(1) show ?thesis by (simp add: pj IsAbs_append)
qed

lemma JoinUnder_comps:
  assumes "JoinUnder base relative = Inr p"
  shows "comps p = comps base @ comps relative \<and> IsAbs p = IsAbs base
    \<and> comps relative \<noteq> [] \<and> (\<forall>c \<in> set (comps relative). plain c)"
proof -
  let ?c = "Clean relative"
  have a: "TrimSpace base \<noteq> []" "\<not> IsAbs relative" "?c \<noteq> dot" "?c \<noteq> dotdot"
      "\<not> HasPrefix ?c (dotdot @ [slash])" "p = PathJoin [base, ?c]"
    using assms by (auto simp: JoinUnder_def Let_def split: if_splits)
  have b: "base \<noteq> []" using a(1) by (auto simp: TrimSpace_def)
  have ne: "comps relative \<noteq> []" and c: "?c = Join (comps relative) [slash]"
    using a(2,3) by (auto simp: Clean_def split: if_splits)
  obtain n ps where np: "comps relative = replicate n dotdot @ ps" "\<forall>c \<in> set ps. plain c"
    using comps_shape [of relative] unfolding cleanList_def by blast
  have "n = 0"
  proof (rule ccontr)
    assume "n \<noteq> 0"
    then obtain m where "n = Suc m" by (cases n) auto
    with np have hd: "comps relative = dotdot # (replicate m dotdot @ ps)" by simp
    show False
    proof (cases "replicate m dotdot @ ps = []")
      case True
      with hd c a(4) show False by simp
    next
      case False
      with hd c have "?c = dotdot @ [slash] @ Join (replicate m dotdot @ ps) [slash]" by (simp add: Join_Cons)
      with a(5) show False by (auto simp: HasPrefix_iff)
    qed
  qed
  with np have plain: "\<forall>c \<in> set (comps relative). plain c" by simp
  have "\<not> IsAbs ?c" "comps ?c = comps relative" using comps_Clean [of relative] a(2) by simp_all
  moreover have "?c \<noteq> []"
  proof -
    obtain x xs where "comps relative = x # xs" using ne by (cases "comps relative") auto
    moreover from this have "x \<noteq> []" using comps_set [of x relative] by simp
    ultimately show ?thesis unfolding c by (cases xs) auto
  qed
  ultimately show ?thesis using comps_join [OF b, of ?c] plain ne a(6) by simp
qed

lemma Clean_PathJoin: "b \<noteq> [] \<Longrightarrow> Clean (PathJoin [b, r]) = PathJoin [b, r]"
  by (simp add: PathJoin_def Clean_idem)

lemma comps_dotdot_prefix:
  assumes "HasPrefix (Clean r) (dotdot @ [slash])" "\<not> IsAbs r"
  shows "comps r \<noteq> [] \<and> hd (comps r) = dotdot"
proof -
  obtain t where t: "Clean r = dotdot @ slash # t" using assms(1) by (auto simp: HasPrefix_iff)
  have ne: "comps r \<noteq> []"
  proof
    assume "comps r = []"
    with assms(2) t show False by (simp add: Clean_def dot_def dotdot_def)
  qed
  then have "Clean r = Join (comps r) [slash]" using assms(2) by (simp add: Clean_def)
  with t have j: "Join (comps r) [slash] = dotdot @ slash # t" by simp
  have "Split1 slash (Join (comps r) [slash]) = comps r" using ne comps_no_slash by (simp add: Split1_Join)
  moreover have "Split1 slash (dotdot @ slash # t) = dotdot # Split1 slash t" by (rule Split1_append) simp
  ultimately have "comps r = dotdot # Split1 slash t" using j by simp
  then show ?thesis by simp
qed

text \<open>\<open>Dir\<close> and \<open>Base\<close> of a cleaned path with an entry, and putting them together again.\<close>

lemma Join_snoc: "cs \<noteq> [] \<Longrightarrow> Join (cs @ [c]) [slash] = Join cs [slash] @ slash # c"
proof (induction cs)
  case (Cons x xs)
  then show ?case by (cases "xs = []") (simp_all add: Join_Cons)
qed simp

lemma split_last_slash:
  assumes "slash \<notin> set c" "c \<noteq> []"
  shows "takeWhile (\<lambda>r. r \<noteq> slash) (dropWhile (\<lambda>r. r = slash) (rev (a @ slash # c))) = rev c"
    and "dropWhile (\<lambda>r. r \<noteq> slash) (rev (a @ slash # c)) = slash # rev a"
    and "takeWhile (\<lambda>r. r \<noteq> slash) (dropWhile (\<lambda>r. r = slash) (rev c)) = rev c"
    and "dropWhile (\<lambda>r. r \<noteq> slash) (rev c) = []"
proof -
  have d: "dropWhile (\<lambda>r. r = slash) (rev c @ x) = rev c @ x" for x
    using assms by (cases c rule: rev_cases) auto
  have ns: "\<forall>r \<in> set (rev c). r \<noteq> slash" using assms(1) by auto
  show "takeWhile (\<lambda>r. r \<noteq> slash) (dropWhile (\<lambda>r. r = slash) (rev (a @ slash # c))) = rev c"
    using d [of "slash # rev a"] takeWhile_append2 [of "rev c" "\<lambda>r. r \<noteq> slash" "slash # rev a"] ns by simp
  show "dropWhile (\<lambda>r. r \<noteq> slash) (rev (a @ slash # c)) = slash # rev a"
    using dropWhile_append2 [of "rev c" "\<lambda>r. r \<noteq> slash" "slash # rev a"] ns by simp
  show "takeWhile (\<lambda>r. r \<noteq> slash) (dropWhile (\<lambda>r. r = slash) (rev c)) = rev c"
    using d [of "[]"] ns takeWhile_append2 [of "rev c" "\<lambda>r. r \<noteq> slash" "[]"] by simp
  show "dropWhile (\<lambda>r. r \<noteq> slash) (rev c) = []" using ns by (simp add: dropWhile_eq_Nil_conv)
qed

lemma cleanList_butlast: "cleanList rooted (bs @ [c]) \<Longrightarrow> cleanList rooted bs"
proof -
  assume "cleanList rooted (bs @ [c])"
  then obtain n ps where np: "bs @ [c] = replicate n dotdot @ ps" "\<forall>c \<in> set ps. plain c" "rooted \<longrightarrow> n = 0"
    unfolding cleanList_def by blast
  show ?thesis
  proof (cases ps rule: rev_cases)
    case Nil
    with np(1) have "butlast (bs @ [c]) = butlast (replicate n dotdot)" by simp
    then have "bs = replicate (n - 1) dotdot @ []"
      by (cases n) (simp_all add: replicate_append_same [symmetric])
    with np(3) show ?thesis unfolding cleanList_def by (intro exI [of _ "n - 1"] exI [of _ "[]"]) simp
  next
    case (snoc qs q)
    then have "bs = replicate n dotdot @ qs" using np(1) by simp
    with np snoc show ?thesis unfolding cleanList_def by (intro exI [of _ n] exI [of _ qs]) simp
  qed
qed

lemma Clean_nonempty: "Clean s \<noteq> []"
proof (cases "IsAbs s \<or> comps s = []")
  case True
  then show ?thesis by (auto simp: Clean_def)
next
  case n: False
  obtain x xs where x: "comps s = x # xs" using n by (cases "comps s") auto
  then have "x \<noteq> []" using comps_set [of x s] by simp
  with x n show ?thesis by (cases xs) (auto simp: Clean_def)
qed

text \<open>The part of a cleaned path before its last entry, with the slash.\<close>

definition before :: "bool \<Rightarrow> gostr list \<Rightarrow> gostr" where
  "before rooted bs = (if rooted then [slash] else []) @ (if bs = [] then [] else Join bs [slash] @ [slash])"

lemma Clean_snoc:
  assumes "Clean p = p" "comps p = bs @ [c]"
  shows "p = before (IsAbs p) bs @ c"
proof -
  have "p = (if IsAbs p then [slash] else []) @ Join (bs @ [c]) [slash]"
    using assms by (simp add: Clean_def [of p] split: if_splits)
  also have "Join (bs @ [c]) [slash] = (if bs = [] then [] else Join bs [slash] @ [slash]) @ c"
    by (simp add: Join_snoc)
  finally show ?thesis by (simp add: before_def)
qed

lemma comps_before:
  assumes "cleanList rooted bs" "\<forall>c \<in> set bs. slash \<notin> set c \<and> c \<noteq> []"
  shows "comps (before rooted bs) = bs \<and> (IsAbs (before rooted bs) \<longleftrightarrow> rooted)"
proof -
  have ia: "IsAbs (before rooted bs) \<longleftrightarrow> rooted"
  proof (cases rooted)
    case True
    then show ?thesis by (simp add: before_def IsAbs_def)
  next
    case False
    show ?thesis
    proof (cases bs)
      case Nil
      with False show ?thesis by (simp add: before_def IsAbs_def)
    next
      case (Cons x xs)
      with assms(2) obtain r x' where "x = r # x'" "r \<noteq> slash" by (cases x) auto
      with Cons False show ?thesis by (cases xs) (auto simp: before_def IsAbs_def)
    qed
  qed
  have "comps (before rooted bs) = bs"
  proof (cases "bs = []")
    case True
    with ia show ?thesis by (cases rooted) (simp_all add: comps_def before_def)
  next
    case False
    have "Split1 slash (Join bs [slash] @ slash # []) = bs @ [[]]"
      using Split1_sep_append [of slash "Join bs [slash]" "[]"] Split1_Join [OF False] assms(2) by simp
    then have "fold (cleanStep rooted) (Split1 slash (before rooted bs)) [] = rev bs"
      using False fold_clean [OF assms(1)] by (cases rooted) (simp_all add: before_def)
    with ia show ?thesis by (simp add: comps_def)
  qed
  with ia show ?thesis by simp
qed

lemma Base_Dir:
  assumes "Clean p = p" "comps p = bs @ [c]"
  shows "Base p = c \<and> comps (Dir p) = bs \<and> IsAbs (Dir p) = IsAbs p \<and> Dir p \<noteq> []"
proof -
  have c: "slash \<notin> set c" "c \<noteq> []" using comps_set [of c p] assms(2) by auto
  have p: "p = before (IsAbs p) bs @ c" by (rule Clean_snoc [OF assms])
  have cl: "cleanList (IsAbs p) bs" using comps_shape [of p] assms(2) by (simp add: cleanList_butlast)
  have bs: "\<forall>c \<in> set bs. slash \<notin> set c \<and> c \<noteq> []" using comps_set [of _ p] assms(2) by auto
  note cb = comps_before [OF cl bs]
  have pne: "p \<noteq> []" using p c by auto
  have "\<exists>a. before (IsAbs p) bs = [] \<or> before (IsAbs p) bs = a @ [slash]"
    by (cases "IsAbs p"; cases "bs = []") (auto simp: before_def)
  then obtain a where a: "before (IsAbs p) bs = [] \<or> before (IsAbs p) bs = a @ [slash]" by blast
  have "rev (takeWhile (\<lambda>r. r \<noteq> slash) (dropWhile (\<lambda>r. r = slash) (rev p))) = c
      \<and> rev (dropWhile (\<lambda>r. r \<noteq> slash) (rev p)) = before (IsAbs p) bs"
  proof (cases "before (IsAbs p) bs = []")
    case True
    then have "p = c" using p by simp
    with split_last_slash(3,4) [OF c] True show ?thesis by simp
  next
    case False
    with a have b: "before (IsAbs p) bs = a @ [slash]" by simp
    then have pa: "p = a @ slash # c" using p by simp
    show ?thesis unfolding b using split_last_slash(1,2) [OF c, of a] unfolding pa [symmetric] by simp
  qed
  then have t: "rev (takeWhile (\<lambda>r. r \<noteq> slash) (dropWhile (\<lambda>r. r = slash) (rev p))) = c"
    and d: "Dir p = Clean (before (IsAbs p) bs)" by (simp_all add: Dir_def)
  have "dropWhile (\<lambda>r. r = slash) (rev p) \<noteq> []"
  proof
    assume "dropWhile (\<lambda>r. r = slash) (rev p) = []"
    with t have "c = []" by (simp only: takeWhile.simps rev.simps)
    with c(2) show False ..
  qed
  with t pne have "Base p = c" unfolding Base_def Let_def by (simp only: if_False if_True)
  moreover have "comps (Dir p) = bs" "IsAbs (Dir p) = IsAbs p"
    using d cb comps_Clean [of "before (IsAbs p) bs"] by simp_all
  moreover have "Dir p \<noteq> []" using d Clean_nonempty by simp
  ultimately show ?thesis by simp
qed

text \<open>
  Claim C21.  \<open>JoinUnder\<close> never leaves the base: it refuses a blank base, and every relative path
  that is blank, absolute, without an entry left after cleaning, or that starts with \<open>..\<close> after
  cleaning, and no other; what it accepts is the cleaned path whose components are those of the
  base followed by at least one entry name, none of them \<open>.\<close>, \<open>..\<close> or containing a slash.
\<close>

theorem join_under_stays_inside:
  "case JoinUnder base relative of
     Inl e \<Rightarrow> TrimSpace base = [] \<or> TrimSpace relative = [] \<or> IsAbs relative
       \<or> comps relative = [] \<or> hd (comps relative) = dotdot
   | Inr p \<Rightarrow> TrimSpace base \<noteq> [] \<and> TrimSpace relative \<noteq> [] \<and> \<not> IsAbs relative
       \<and> comps p = comps base @ comps relative \<and> IsAbs p = IsAbs base
       \<and> comps relative \<noteq> [] \<and> list_all plain (comps relative) \<and> Clean p = p"
proof (cases "JoinUnder base relative")
  case (Inr p)
  then have "TrimSpace base \<noteq> []" "TrimSpace relative \<noteq> []" "\<not> IsAbs relative"
    and p: "p = PathJoin [base, Clean relative]"
    by (auto simp: JoinUnder_def Let_def split: if_splits)
  moreover from this have "base \<noteq> []" by (auto simp: TrimSpace_def)
  ultimately show ?thesis
    using JoinUnder_comps [OF Inr] Inr Clean_PathJoin [of base "Clean relative"] by (simp add: list_all_iff)
next
  case (Inl e)
  show ?thesis
  proof (cases "TrimSpace base = [] \<or> TrimSpace relative = [] \<or> IsAbs relative")
    case True
    with Inl show ?thesis by auto
  next
    case False
    with Inl consider "Clean relative = dot" | "Clean relative = dotdot"
      | "HasPrefix (Clean relative) (dotdot @ [slash])"
      by (auto simp: JoinUnder_def Let_def split: if_splits)
    then show ?thesis
    proof cases
      case 1
      have "comps dot = []" by (simp add: comps_def dot_def IsAbs_def) (simp add: cleanStep_def dot_def)
      with 1 comps_Clean [of relative] have "comps relative = []" by simp
      with Inl show ?thesis by simp
    next
      case 2
      have "comps dotdot = [dotdot]" by (simp add: comps_def dotdot_def IsAbs_def) (simp add: cleanStep_def dot_def dotdot_def)
      then have "comps relative = [dotdot]" using 2 conjunct1 [OF comps_Clean [of relative]] by simp
      then have "hd (comps relative) = dotdot" by simp
      with Inl show ?thesis by simp
    next
      case 3
      with comps_dotdot_prefix False have "hd (comps relative) = dotdot" by blast
      with Inl show ?thesis by simp
    qed
  qed
qed

end
