(* ===== verification/Files.thy ===== *)
theory Files
  imports FileSys Paths
begin

text \<open>
  src/internal/fsutil/fsutil.go on the file system of theory FileSys: atomic writes, appending,
  and collections (the configuration files directly under a directory).  The JSON codec of
  \<open>SerializeDir\<close> and \<open>WriteCollection\<close> and the Unicode tables are parameters; what
  encoding/json documents of it, that a string is coerced to valid UTF-8, is written out in
  \<open>toValid\<close>.
\<close>

section \<open>Definitions\<close>

definition joinp :: "path \<Rightarrow> gostr \<Rightarrow> path" where
  "joinp d n = rev (fold (cleanStep True) (Split1 slash n) (rev d))"

definition CollectionExts :: "gostr list" where
  "CollectionExts = [lit ''.yaml'', lit ''.yml'', lit ''.json'']"

definition HasExt :: "unicode \<Rightarrow> gostr \<Rightarrow> gostr list \<Rightarrow> bool" where
  "HasExt U name exts = (let ext = ToLower U (Ext name) in list_ex (\<lambda>e. ext = e) exts)"

text \<open>\<open>os.MkdirAll\<close>: parents first; what is already a directory is fine.\<close>

fun mkdirAll :: "path \<Rightarrow> gostr list \<Rightarrow> unit fsact" where
  "mkdirAll d [] = ok ()"
| "mkdirAll d (n # ns) = andThen (observe (osStat (d @ [n]))) (\<lambda>r. case r of
     Inr DirN \<Rightarrow> mkdirAll (d @ [n]) ns
   | Inr _ \<Rightarrow> throw (OsErr ''not a directory'')
   | Inl _ \<Rightarrow> andThen (osMkdir (d @ [n])) (\<lambda>_. mkdirAll (d @ [n]) ns))"

definition EnsureDir :: "path \<Rightarrow> unit fsact" where
  "EnsureDir p = wrapping (Wrap ''creating: '') (mkdirAll [] p)"

definition SyncDir :: "path \<Rightarrow> unit fsact" where
  "SyncDir d = andThen (observe (osStat d)) (\<lambda>r. case r of Inl e \<Rightarrow> ok () | Inr _ \<Rightarrow> attempt quiet)"

definition WriteAtomic :: "path \<Rightarrow> bytes \<Rightarrow> unit fsact" where
  "WriteAtomic p content =
     andThen (osTemp (FileN [] 384) (butlast p) (46 # last p @ [46])) (\<lambda>name.
       deferring (andThen (attempt quiet) (\<lambda>_. attempt (osRemove name)))
        (andThen (fileChmod name 384) (\<lambda>_.
         andThen (fileWrite name content) (\<lambda>_.
         andThen quiet (\<lambda>_.
         andThen quiet (\<lambda>_.
         andThen (osRename name p) (\<lambda>_.
         SyncDir (butlast p))))))))"

definition CollectionFiles :: "unicode \<Rightarrow> path \<Rightarrow> path list fsact" where
  "CollectionFiles U dir = andThen (observe (osReadDir dir)) (\<lambda>r. case r of
     Inl e \<Rightarrow> if isNotExist e then ok [] else throw (Wrap ''reading: '' e)
   | Inr es \<Rightarrow> ok (sort (map (\<lambda>(n, k). joinp dir n)
       (filter (\<lambda>(n, k). \<not> (k = DirN \<or> \<not> HasExt U n CollectionExts)) es))))"

fun readFiles :: "path list \<Rightarrow> (gostr \<times> bytes) list \<Rightarrow> (gostr \<times> bytes) list fsact" where
  "readFiles [] c = ok c"
| "readFiles (p # ps) c =
     andThen (wrapping (Wrap ''reading: '') (osReadFile p)) (\<lambda>data.
       readFiles ps (c @ [(last p, data)]))"

definition SerializeDir :: "unicode \<Rightarrow> ((gostr \<times> bytes) list \<Rightarrow> bytes) \<Rightarrow> path \<Rightarrow> bytes option fsact" where
  "SerializeDir U marshal dir = andThen (CollectionFiles U dir) (\<lambda>files.
     if files = [] then ok None
     else andThen (readFiles files []) (\<lambda>c. ok (Some (marshal c))))"

definition writeEntry :: "path \<Rightarrow> (gostr \<times> bytes) list \<Rightarrow> gostr \<Rightarrow> unit fsact" where
  "writeEntry dir files name =
     (if name = dot \<or> name = dotdot \<or> name \<noteq> Base name then throw (Msg ''invalid collection entry name'')
      else wrapping (Wrap ''writing: '') (WriteAtomic (joinp dir name) (the (map_of files name))))"

definition WriteCollection :: "(bytes \<Rightarrow> err + (gostr \<times> bytes) list) \<Rightarrow> path \<Rightarrow> bytes \<Rightarrow> gostr list fsact" where
  "WriteCollection unmarshal dir blob =
     (case unmarshal blob of
        Inl e \<Rightarrow> throw (Wrap ''decoding collection blob: '' e)
      | Inr files \<Rightarrow> andThen (EnsureDir dir) (\<lambda>_.
          let names = sort (remdups (map fst files)) in
          andThen (each (writeEntry dir files) names) (\<lambda>_. ok names)))"

definition OpenAppend :: "path \<Rightarrow> unit fsact" where
  "OpenAppend p = andThen (EnsureDir (butlast p)) (\<lambda>_. wrapping (Wrap ''opening: '') (osOpen False p))"

definition AppendItem :: "path \<Rightarrow> gostr \<Rightarrow> bytes \<Rightarrow> path fsact" where
  "AppendItem dir filename content =
     (let p = joinp dir filename in
      andThen (observe (osStat p)) (\<lambda>st.
        let created = (case st of Inl e \<Rightarrow> isNotExist e | Inr _ \<Rightarrow> False) in
        andThen (OpenAppend p) (\<lambda>_.
        andThen (wrapping (Wrap ''appending: '') (fileWrite p content)) (\<lambda>_.
        andThen (wrapping (Wrap ''appending: '') quiet) (\<lambda>_.
        andThen (wrapping (Wrap ''appending: '') quiet) (\<lambda>_.
        andThen (if created then SyncDir (butlast p) else ok ()) (\<lambda>_. ok p)))))))"

fun removeEach :: "path list \<Rightarrow> path list \<Rightarrow> (path list \<times> err option) fsact" where
  "removeEach [] removed = ok (removed, None)"
| "removeEach (p # ps) removed = andThen (observe (osRemove p)) (\<lambda>r. case r of
     Inl e \<Rightarrow> ok (removed, Some (Wrap ''removing: '' e))
   | Inr _ \<Rightarrow> removeEach ps (removed @ [p]))"

text \<open>Both results of \<open>ClearDir\<close>: what was removed, and the error.\<close>

definition ClearDir :: "unicode \<Rightarrow> path \<Rightarrow> gostr list \<Rightarrow> (path list \<times> err option) fsact" where
  "ClearDir U dir exts0 =
     (let exts = (if exts0 = [] then CollectionExts else exts0) in
      andThen (observe (osReadDir dir)) (\<lambda>r. case r of
        Inl e \<Rightarrow> ok ([], if isNotExist e then None else Some (Wrap ''reading: '' e))
      | Inr es \<Rightarrow> removeEach (map (\<lambda>(n, k). joinp dir n)
          (filter (\<lambda>(n, k). \<not> (k = DirN \<or> \<not> HasExt U n exts)) es)) []))"

section \<open>What each call does to the tree\<close>

text \<open>Calls that leave the tree alone.\<close>

definition reading :: "'a fsact \<Rightarrow> bool" where
  "reading m \<longleftrightarrow> (\<forall>s. tree (snd (m s)) = tree s)"

named_theorems reads

lemma reading_sys: "(\<And>s. tree (snd (body s)) = tree s) \<Longrightarrow> reading (sys untouched body)"
  by (auto simp: reading_def sys_def untouched_def split: list.split fault.split)

lemma reading_calls [reads]: "reading (osStat p)" "reading (osReadFile p)" "reading (osReadDir p)" "reading quiet"
  unfolding osStat_def osReadFile_def osReadDir_def quiet_def
  by (rule reading_sys; simp split: option.split node.split)+

lemma reading_combi [reads]:
  "reading (ok x)" "reading (throw e)"
  "reading m \<Longrightarrow> reading (observe m)" "reading m \<Longrightarrow> reading (attempt m)"
  "reading m \<Longrightarrow> reading (wrapping f m)"
  by (auto simp: reading_def observe_def attempt_def wrapping_def split: prod.split sum.split)
    (metis snd_conv)+

lemma reading_andThen [reads]:
  assumes "reading m" "\<And>x. reading (f x)"
  shows "reading (andThen m f)"
  unfolding reading_def
proof
  fix s
  obtain r t where "m s = (r, t)" by (cases "m s")
  then show "tree (snd (andThen m f s)) = tree s"
    using assms unfolding reading_def by (cases r) (auto simp: andThen_def dest: spec [of _ s] spec [of _ t])
qed

lemma readingD: "reading m \<Longrightarrow> m s = (r, t) \<Longrightarrow> tree t = tree s"
  unfolding reading_def by (metis snd_conv)

lemma reading_SyncDir [reads]: "reading (SyncDir d)"
  unfolding SyncDir_def by (intro reads) (auto split: sum.split intro!: reads)

text \<open>Calls that change the tree only at the paths of \<open>X\<close>.\<close>

definition touches :: "path set \<Rightarrow> 'a fsact \<Rightarrow> bool" where
  "touches X m \<longleftrightarrow> (\<forall>s q. q \<notin> X \<longrightarrow> lk (snd (m s)) q = lk s q)"

named_theorems frame

lemma touchesI: "(\<And>s r t q. m s = (r, t) \<Longrightarrow> q \<notin> X \<Longrightarrow> lk t q = lk s q) \<Longrightarrow> touches X m"
  unfolding touches_def by (metis surjective_pairing)

lemma touchesD: "touches X m \<Longrightarrow> m s = (r, t) \<Longrightarrow> q \<notin> X \<Longrightarrow> lk t q = lk s q"
  unfolding touches_def by (metis snd_conv)

lemma touches_reading: "reading m \<Longrightarrow> touches X m"
  by (auto simp: touches_def reading_def)

lemma touches_mono: "touches X m \<Longrightarrow> X \<subseteq> Y \<Longrightarrow> touches Y m"
  by (auto simp: touches_def)

lemma touches_andThen [frame]:
  assumes "touches X m" "\<And>x. touches X (f x)"
  shows "touches X (andThen m f)"
proof (rule touchesI)
  fix s r t q
  assume run: "andThen m f s = (r, t)" and q: "q \<notin> X"
  obtain r1 s1 where m: "m s = (r1, s1)" by (cases "m s")
  show "lk t q = lk s q"
  proof (cases r1)
    case (Inl e)
    with run m have "t = s1" by (simp add: andThen_def)
    with touchesD [OF assms(1) m q] show ?thesis by simp
  next
    case (Inr x)
    with run m have "f x s1 = (r, t)" by (simp add: andThen_def)
    from touchesD [OF assms(2) this q] touchesD [OF assms(1) m q] show ?thesis by simp
  qed
qed

lemma touches_combi [frame]:
  "touches X (ok x)" "touches X (throw e)"
  "touches X m \<Longrightarrow> touches X (observe m)" "touches X m \<Longrightarrow> touches X (attempt m)"
  "touches X m \<Longrightarrow> touches X (wrapping f m)"
  by (auto simp: touches_def observe_def attempt_def wrapping_def case_prod_unfold split: sum.split)

lemma touches_deferring [frame]: "touches X c \<Longrightarrow> touches X m \<Longrightarrow> touches X (deferring c m)"
  by (simp add: touches_def deferring_def case_prod_unfold)

lemma touches_each [frame]: "(\<And>x. x \<in> set xs \<Longrightarrow> touches X (f x)) \<Longrightarrow> touches X (each f xs)"
  by (induction xs) (simp_all add: touches_combi touches_andThen)

lemma touches_calls [frame]:
  "touches X (osStat p)" "touches X (osReadFile p)" "touches X (osReadDir p)" "touches X quiet"
  by (rule touches_reading, rule reading_calls)+

lemma touches_osTemp: "(\<And>x. d @ [pre @ x] \<in> X) \<Longrightarrow> touches X (osTemp n d pre)"
  by (rule touchesI, erule osTemp_out) (auto simp: look_put)

lemma touches_osRemoveAll: "p \<noteq> [] \<Longrightarrow> {q. inTree p q} \<subseteq> X \<Longrightarrow> touches X (osRemoveAll p)"
proof (rule touchesI)
  fix s r t q
  assume p: "p \<noteq> []" "{q. inTree p q} \<subseteq> X" and run: "osRemoveAll p s = (r, t)" and "q \<notin> X"
  then have "\<not> inTree p q" by blast
  with p(1) show "lk t q = lk s q"
    by (cases rule: osRemoveAll_out [OF run]) (simp_all add: look_delTree look_delSome)
qed

lemma touches_osOpen: "p \<in> X \<Longrightarrow> touches X (osOpen trunc p)"
  by (rule touchesI, erule osOpen_out) (auto simp: look_put)

lemma touches_sys:
  assumes "\<And>s r t q. body s = (r, t) \<Longrightarrow> q \<notin> X \<Longrightarrow> lk t q = lk s q" "\<And>k s q. q \<notin> X \<Longrightarrow> lk (partial k s) q = lk s q"
  shows "touches X (sys partial body)"
proof (rule touchesI)
  fix s r t q
  assume "sys partial body s = (r, t)" "q \<notin> X"
  then show "lk t q = lk s q"
    by (cases rule: sys_cases) (use assms \<open>q \<notin> X\<close> in metis)+
qed

lemma look_append_other: "q \<noteq> p \<Longrightarrow> lk (appendTo p c s) q = lk s q"
proof -
  assume q: "q \<noteq> p"
  show ?thesis
  proof (cases "p = []")
    case True
    then show ?thesis by (simp add: appendTo_out)
  next
    case False
    with q show ?thesis by (simp add: appendTo_out look_put split: option.split node.split)
  qed
qed

lemma touches_fileWrite: "p \<in> X \<Longrightarrow> touches X (fileWrite p c)"
  unfolding fileWrite_def by (rule touches_sys) (auto intro!: look_append_other)

lemma look_overwrite_other: "q \<noteq> p \<Longrightarrow> lk (overwrite p c s) q = lk s q"
proof -
  assume q: "q \<noteq> p"
  show ?thesis
  proof (cases "p = []")
    case True
    then show ?thesis by (simp add: overwrite_out)
  next
    case False
    with q show ?thesis by (simp add: overwrite_out look_put split: option.split node.split)
  qed
qed

lemma touches_fileOverwrite: "p \<in> X \<Longrightarrow> touches X (fileOverwrite p c)"
  unfolding fileOverwrite_def by (rule touches_sys) (auto intro!: look_overwrite_other)

section \<open>WriteAtomic\<close>

text \<open>The temporary file being written, then moved onto the target.\<close>

definition writeMove :: "path \<Rightarrow> path \<Rightarrow> bytes \<Rightarrow> unit fsact" where
  "writeMove name p content =
     andThen (fileChmod name 384) (\<lambda>_.
     andThen (fileWrite name content) (\<lambda>_.
     andThen quiet (\<lambda>_.
     andThen quiet (\<lambda>_.
     andThen (osRename name p) (\<lambda>_.
     SyncDir (butlast p))))))"

lemma SyncDir_out: "SyncDir d s = (r, t) \<Longrightarrow> r = Inr () \<and> tree t = tree s"
proof -
  assume run: "SyncDir d s = (r, t)"
  then have "r = Inr ()" by (auto simp: SyncDir_def andThen_def observe_def attempt_def split: prod.splits sum.splits)
  with readingD [OF reading_SyncDir run] show ?thesis by simp
qed

lemma writeMove_out:
  assumes ok: "okFs s" and name: "lk s name = Some (FileN [] 384)" "name \<noteq> p"
    and run: "writeMove name p c s = (r, t)"
  obtains e d where "r = Inl e" "lk t = (lk s)(name \<mapsto> FileN d 384)"
  | "r = Inr ()" "lk t = (lk s)(name := None, p \<mapsto> FileN c 384)" "lk s p \<noteq> Some DirN"
proof -
  note failed = that(1) and finished = that(2)
  have ne: "name \<noteq> []" using name(1) by auto
  have fail: ?thesis if "r = Inl e" "tree t = put name (FileN d 384) (tree s)" for e d
    using that ne by (intro failed [of e d]) (simp_all add: look_put)
  have same: ?thesis if "r = Inl e" "tree t = tree s" for e
    using that name(1) by (intro failed [of e "[]"]) (auto simp: fun_eq_iff)
  from run [unfolded writeMove_def] show ?thesis
  proof (cases rule: andThen_cases)
    case (1 e)
    with fileChmod_res [OF 1(1) name(1)] same show ?thesis by auto
  next
    case chmod: (2 x s1)
    then have t1: "tree s1 = put name (FileN [] 384) (tree s)" using fileChmod_res [OF chmod(1) name(1)] by auto
    then have l1: "lk s1 name = Some (FileN [] 384)" using ne by (simp add: look_put)
    from chmod(2) show ?thesis
    proof (cases rule: andThen_cases)
      case (1 e)
      then obtain k where "tree t = put name (FileN (take k c) 384) (tree s1)"
        using fileWrite_res [OF 1(1) l1] by auto
      then have "tree t = put name (FileN (take k c) 384) (tree s)" using t1 by (simp add: put_def)
      with 1(2) fail show ?thesis by blast
    next
      case wr: (2 x s2)
      then have t2: "tree s2 = put name (FileN c 384) (tree s)"
        using fileWrite_res [OF wr(1) l1] t1 by (auto simp: put_def)
      have ok2: "okFs s2" using okTree_refile [OF ok name(1)] t2 by simp
      from wr(2) show ?thesis
      proof (cases rule: andThen_cases)
        case (1 e)
        with quiet_res [OF 1(1)] t2 fail show ?thesis by auto
      next
        case sy: (2 x s3)
        then have t3: "tree s3 = tree s2" using quiet_res [OF sy(1)] by auto
        from sy(2) show ?thesis
        proof (cases rule: andThen_cases)
          case (1 e)
          with quiet_res [OF 1(1)] t2 t3 fail show ?thesis by auto
        next
          case cl: (2 x s4)
          then have t4: "tree s4 = tree s2" using quiet_res [OF cl(1)] t3 by auto
          have l4: "lk s4 name = Some (FileN c 384)" using t4 t2 ne by (simp add: look_put)
          have ok4: "okFs s4" using ok2 t4 by simp
          from cl(2) show ?thesis
          proof (cases rule: andThen_cases)
            case (1 e)
            with rename_file_res [OF ok4 l4 _ name(2) 1(1)] have "tree t = tree s4" by auto
            with 1(2) t2 t4 fail show ?thesis by auto
          next
            case mv: (2 x s5)
            from rename_file_res [OF ok4 l4 _ name(2) mv(1)] mv(1)
            have "lk s5 = (lk s4)(name := None, p \<mapsto> FileN c 384)" "lk s4 p \<noteq> Some DirN" by auto
            moreover have "r = Inr ()" "tree t = tree s5" using SyncDir_out [OF mv(2)] by simp_all
            ultimately show ?thesis using t4 t2 ne name(2)
              by (intro finished) (auto simp: look_put)
          qed
        qed
      qed
    qed
  qed
qed

lemma WriteAtomic_out:
  assumes ok: "okFs s" and run: "WriteAtomic p c s = (r, t)"
  obtains e where "r = Inl e" "lk t = lk s"
  | e x d where "r = Inl e" "lk s (butlast p @ [46 # last p @ 46 # x]) = None"
      "lk t = (lk s)(butlast p @ [46 # last p @ 46 # x] \<mapsto> FileN d 384)"
  | "r = Inr ()" "lk t = (lk s)(p \<mapsto> FileN c 384)" "lk s p \<noteq> Some DirN"
proof -
  from run [unfolded WriteAtomic_def] show ?thesis
  proof (cases rule: andThen_cases)
    case (1 e)
    then have "tree t = tree s" using osTemp_res [OF 1(1)] by auto
    with 1(2) that(1) show ?thesis by simp
  next
    case temp: (2 name s1)
    from osTemp_res [OF temp(1)] obtain x where name: "name = butlast p @ [46 # last p @ 46 # x]" "lk s name = None"
        "lk s (butlast p) = Some DirN" and t1: "tree s1 = put name (FileN [] 384) (tree s)" by auto
    have ne: "name \<noteq> []" using name(1) by simp
    have nep: "name \<noteq> p"
    proof
      assume "name = p"
      then have "last p = 46 # last p @ 46 # x" using name(1) by (metis last_snoc)
      then have "length (last p) = length (46 # last p @ 46 # x)" by (rule arg_cong)
      then show False by simp
    qed
    have l1: "lk s1 name = Some (FileN [] 384)" using t1 ne by (simp add: look_put)
    have bl: "butlast name = butlast p" using name(1) by simp
    have ok1: "okFs s1" using okTree_put [OF ok ne] name(2,3) bl t1 by simp
    obtain r' u where u: "writeMove name p c s1 = (r', u)" by (cases "writeMove name p c s1")
    obtain q1 v where v: "quiet u = (q1, v)" by (cases "quiet u")
    obtain q2 w where w: "osRemove name v = (q2, w)" by (cases "osRemove name v")
    have rt: "r = r'" "t = w" using temp(2) u v w
      unfolding writeMove_def by (simp_all add: deferring_def andThen_def attempt_def)
    have tv: "tree v = tree u" using quiet_res [OF v] by simp
    from writeMove_out [OF ok1 l1 nep u] show ?thesis
    proof cases
      case (1 e d)
      have lku: "lk u = (lk s)(name \<mapsto> FileN d 384)" using 1(2) t1 ne by (simp add: look_put)
      from osRemove_res [OF w] show ?thesis
      proof
        assume "\<exists>e. q2 = Inl e \<and> tree w = tree v \<and> (isNotExist e \<longrightarrow> lk v name = None)"
        with lku tv have "lk w = (lk s)(name \<mapsto> FileN d 384)" by auto
        with 1(1) rt name that(2) show ?thesis by blast
      next
        assume "q2 = Inr () \<and> name \<noteq> [] \<and> lk v name \<noteq> None \<and> tree w = del name (tree v)
          \<and> (lk v name = Some DirN \<longrightarrow> entries name (tree v) = [])"
        then have "lk w = (lk s)(name := None)" using tv lku ne by (simp add: look_del)
        with name(2) have "lk w = lk s" by (simp add: fun_upd_idem)
        with 1(1) rt that(1) show ?thesis by blast
      qed
    next
      case 2
      have "lk u = (lk s)(name := None, p \<mapsto> FileN c 384)" using 2(2) t1 ne by (simp add: look_put)
      with name(2) have lku: "lk u = (lk s)(p \<mapsto> FileN c 384)" by (simp add: fun_upd_idem)
      then have "lk v name = None" using tv name(2) nep by simp
      with osRemove_res [OF w] tv have "tree w = tree u" by auto
      moreover have "lk s p \<noteq> Some DirN" using 2(3) t1 ne nep by (simp add: look_put)
      ultimately show ?thesis using lku 2(1) rt that(3) by simp
    qed
  qed
qed

lemma WriteAtomic_res:
  "okFs s \<Longrightarrow> WriteAtomic p c s = (r, t) \<Longrightarrow>
     (\<exists>e. r = Inl e \<and> lk t = lk s)
     \<or> (\<exists>e x d. r = Inl e \<and> lk s (butlast p @ [46 # last p @ 46 # x]) = None
          \<and> lk t = (lk s)(butlast p @ [46 # last p @ 46 # x] \<mapsto> FileN d 384))
     \<or> r = Inr () \<and> lk t = (lk s)(p \<mapsto> FileN c 384) \<and> lk s p \<noteq> Some DirN"
  by (erule (1) WriteAtomic_out) blast+

lemma SyncDir_ok [fsok]: "keeps okFs (SyncDir d)"
  unfolding SyncDir_def by (intro fsok) (auto split: sum.split intro!: fsok)

lemma WriteAtomic_ok [fsok]: "keeps okFs (WriteAtomic p c)"
  unfolding WriteAtomic_def by (intro fsok)

lemma mkdirAll_ok [fsok]: "keeps okFs (mkdirAll d ns)"
proof (induction ns arbitrary: d)
  case (Cons n ns)
  then show ?case by (auto split: sum.split node.split intro!: fsok)
qed (auto intro: fsok)

lemma EnsureDir_ok [fsok]: "keeps okFs (EnsureDir p)"
  unfolding EnsureDir_def by (intro fsok)

section \<open>Directories\<close>

lemma observe_apply: "observe m s = (case m s of (r, t) \<Rightarrow> (Inr r, t))"
  by (simp add: observe_def)

lemma osStat_res:
  "osStat p s = (r, t) \<Longrightarrow> tree t = tree s \<and> flocked t = flocked s \<and> (\<forall>n. r = Inr n \<longrightarrow> lk s p = Some n)
     \<and> (\<forall>e. r = Inl e \<longrightarrow> isNotExist e \<longrightarrow> lk s p = None)"
  unfolding osStat_def by (erule sys_cases) (auto simp: untouched_def split: option.splits)

text \<open>\<open>MkdirAll\<close> only adds directories, on the way to the path and where nothing was.\<close>

lemma mkdirAll_res:
  assumes "mkdirAll d ns s = (r, t)" "lk s d = Some DirN"
  shows "(\<forall>q. lk t q = lk s q \<or> lk s q = None \<and> lk t q = Some DirN \<and> inTree q (d @ ns))
    \<and> (r = Inr () \<longrightarrow> lk t (d @ ns) = Some DirN)"
  using assms
proof (induction ns arbitrary: d s)
  case Nil
  then show ?case by simp
next
  case (Cons n ns)
  obtain r1 s1 where st: "osStat (d @ [n]) s = (r1, s1)" by (cases "osStat (d @ [n]) s")
  note st' = osStat_res [OF st]
  show ?case
  proof (cases r1)
    case (Inr k)
    show ?thesis
    proof (cases "k = DirN")
      case True
      then have run: "mkdirAll (d @ [n]) ns s1 = (r, t)" and "lk s1 (d @ [n]) = Some DirN"
        using Cons.prems(1) st Inr st' by (simp_all add: andThen_def observe_apply)
      from Cons.IH [OF this] st' show ?thesis by simp
    next
      case False
      then have "t = s1 \<and> (\<exists>e. r = Inl e)" using Cons.prems(1) st Inr
        by (auto simp: andThen_def observe_apply split: node.splits)
      with st' show ?thesis by auto
    qed
  next
    case (Inl e)
    obtain r2 s2 where mk: "osMkdir (d @ [n]) s1 = (r2, s2)" by (cases "osMkdir (d @ [n]) s1")
    have run: "(case r2 of Inl e \<Rightarrow> (Inl e, s2) | Inr _ \<Rightarrow> mkdirAll (d @ [n]) ns s2) = (r, t)"
      using Cons.prems(1) st Inl mk by (simp add: andThen_def observe_apply)
    from osMkdir_res [OF mk] show ?thesis
    proof
      assume "\<exists>e. r2 = Inl e \<and> tree s2 = tree s1"
      with run st' show ?thesis by auto
    next
      assume m: "r2 = Inr () \<and> lk s1 (d @ [n]) = None \<and> lk s1 (butlast (d @ [n])) = Some DirN
        \<and> d @ [n] \<noteq> [] \<and> tree s2 = put (d @ [n]) DirN (tree s1)"
      then have l2: "lk s2 = (lk s)(d @ [n] \<mapsto> DirN)" using st' by (simp add: look_put)
      have run2: "mkdirAll (d @ [n]) ns s2 = (r, t)" using run m by simp
      have "lk s2 (d @ [n]) = Some DirN" by (simp add: l2)
      from Cons.IH [OF run2 this] have IH: "\<forall>q. lk t q = lk s2 q \<or> lk s2 q = None \<and> lk t q = Some DirN \<and> inTree q (d @ n # ns)"
          "r = Inr () \<longrightarrow> lk t (d @ n # ns) = Some DirN" by simp_all
      have "lk s (d @ [n]) = None" using m st' by simp
      moreover have "inTree (d @ [n]) (d @ n # ns)" by (auto simp: inTree_iff)
      ultimately have "lk t q = lk s q \<or> lk s q = None \<and> lk t q = Some DirN \<and> inTree q (d @ n # ns)" for q
        using spec [OF IH(1), of q] unfolding l2 by (cases "q = d @ [n]") auto
      with IH(2) show ?thesis by blast
    qed
  qed
qed

lemma EnsureDir_res:
  assumes "EnsureDir p s = (r, t)"
  shows "(\<forall>q. lk t q = lk s q \<or> lk s q = None \<and> lk t q = Some DirN \<and> inTree q p)
    \<and> (r = Inr () \<longrightarrow> lk t p = Some DirN)"
proof -
  obtain r' where run: "mkdirAll [] p s = (r', t)" and "r = Inr () \<longrightarrow> r' = Inr ()"
    using assms by (auto simp: EnsureDir_def wrapping_def split: prod.splits sum.splits)
  with mkdirAll_res [OF run] show ?thesis by simp
qed

section \<open>Collections\<close>

lemma joinp_plain: "plain n \<Longrightarrow> joinp d n = d @ [n]"
  by (simp add: joinp_def Split1_plain plain_def)

lemma joinp_slash: "joinp d [slash] = d"
  by (simp add: joinp_def)

text \<open>\<open>joinp\<close> is \<open>filepath.Join\<close> on an absolute base.\<close>

lemma comps_PathJoin:
  assumes "IsAbs b" "r \<noteq> []"
  shows "comps (PathJoin [b, r]) = joinp (comps b) r"
proof -
  have ne: "b \<noteq> []" using assms(1) by (auto simp: IsAbs_def)
  with assms have "PathJoin [b, r] = Clean (b @ slash # r)" by (simp add: PathJoin_def)
  then have "comps (PathJoin [b, r]) = comps (b @ slash # r)" using comps_Clean by simp
  then show ?thesis using assms(1) ne by (simp add: comps_def joinp_def IsAbs_append Split1_sep_append)
qed

lemma dropWhile_set: "x \<in> set (takeWhile P xs) \<Longrightarrow> P x"
  by (induction xs) (auto split: if_splits)

lemma Base_fixed:
  assumes "n = Base n" "n \<noteq> dot" "n \<noteq> dotdot"
  shows "plain n \<or> n = [slash]"
proof (cases "n = [] \<or> n = [slash]")
  case True
  with assms show ?thesis by (auto simp: Base_def)
next
  case False
  then have b: "n = rev (takeWhile (\<lambda>r. r \<noteq> slash) (dropWhile (\<lambda>r. r = slash) (rev n)))"
    using assms(1) by (auto simp: Base_def Let_def split: if_splits)
  have "slash \<notin> set (takeWhile (\<lambda>r. r \<noteq> slash) (dropWhile (\<lambda>r. r = slash) (rev n)))"
    by (auto dest: dropWhile_set)
  then have "slash \<notin> set n" by (subst b) simp
  with False assms show ?thesis by (simp add: plain_def)
qed

text \<open>The collection entries of a directory.\<close>

definition collEntries :: "unicode \<Rightarrow> path \<Rightarrow> (path \<times> node) list \<Rightarrow> gostr list" where
  "collEntries U d t = filter (\<lambda>n. look t (d @ [n]) \<noteq> Some DirN \<and> HasExt U n CollectionExts) (entries d t)"

lemma entries_distinct: "distinct (entries d t)"
  by (simp add: entries_def)

lemma entries_sorted: "sorted (entries d t)"
  by (simp add: entries_def)

lemma append_mono: "(a::gostr) \<le> b \<Longrightarrow> d @ [a] \<le> d @ [b]"
  by (induction d) (auto simp: list_le_def)

lemma sorted_map_append: "sorted ns \<Longrightarrow> sorted (map (\<lambda>n::gostr. d @ [n]) ns)"
  by (induction ns) (auto simp: append_mono)

lemma osReadDir_res:
  "osReadDir d s = (r, t) \<Longrightarrow> tree t = tree s \<and> (\<forall>es. r = Inr es \<longrightarrow>
     es = map (\<lambda>n. (n, the (lk s (d @ [n])))) (entries d (tree s)) \<and> lk s d = Some DirN)"
  unfolding osReadDir_def by (erule sys_cases) (auto simp: untouched_def split: option.splits node.splits)

lemma CollectionFiles_res:
  assumes "CollectionFiles U d s = (Inr fs, t)" "list_all plain (entries d (tree s))"
  shows "tree t = tree s \<and> (fs = [] \<or> fs = map (\<lambda>n. d @ [n]) (collEntries U d (tree s)))"
proof -
  obtain r s1 where rd: "osReadDir d s = (r, s1)" by (cases "osReadDir d s")
  note rd' = osReadDir_res [OF rd]
  show ?thesis
  proof (cases r)
    case (Inl e)
    with assms(1) rd rd' show ?thesis
      by (auto simp: CollectionFiles_def andThen_def observe_apply split: if_splits)
  next
    case (Inr es)
    let ?E = "entries d (tree s)"
    have es: "es = map (\<lambda>n. (n, the (lk s (d @ [n])))) ?E" using rd' Inr by simp
    have there: "lk s (d @ [n]) = Some (the (lk s (d @ [n])))" if "n \<in> set ?E" for n
      using that entries_iff [of n d "tree s"] by auto
    have "map (\<lambda>(n, k). joinp d n) (filter (\<lambda>(n, k). \<not> (k = DirN \<or> \<not> HasExt U n CollectionExts)) es)
        = map (joinp d) (filter (\<lambda>n. \<not> (the (lk s (d @ [n])) = DirN \<or> \<not> HasExt U n CollectionExts)) ?E)"
      by (simp add: es filter_map o_def)
    also have "filter (\<lambda>n. \<not> (the (lk s (d @ [n])) = DirN \<or> \<not> HasExt U n CollectionExts)) ?E
        = collEntries U d (tree s)"
      unfolding collEntries_def
    proof (rule filter_cong [OF refl])
      fix n assume "n \<in> set ?E"
      from there [OF this] show "(\<not> (the (lk s (d @ [n])) = DirN \<or> \<not> HasExt U n CollectionExts))
          = (lk s (d @ [n]) \<noteq> Some DirN \<and> HasExt U n CollectionExts)"
        by (metis option.inject)
    qed
    also have "map (joinp d) (collEntries U d (tree s)) = map (\<lambda>n. d @ [n]) (collEntries U d (tree s))"
      using assms(2) by (auto simp: collEntries_def list_all_iff joinp_plain)
    finally have m: "map (\<lambda>(n, k). joinp d n) (filter (\<lambda>(n, k). \<not> (k = DirN \<or> \<not> HasExt U n CollectionExts)) es)
        = map (\<lambda>n. d @ [n]) (collEntries U d (tree s))" .
    have "sorted (map (\<lambda>n. d @ [n]) (collEntries U d (tree s)))"
      unfolding collEntries_def by (intro sorted_map_append sorted_wrt_filter entries_sorted)
    with m have "fs = map (\<lambda>n. d @ [n]) (collEntries U d (tree s))" "t = s1"
      using assms(1) rd Inr by (auto simp: CollectionFiles_def andThen_def observe_apply sorted_sort_id)
    with rd' show ?thesis by simp
  qed
qed

lemma osReadFile_res:
  "osReadFile p s = (r, t) \<Longrightarrow> tree t = tree s \<and> (\<forall>d. r = Inr d \<longrightarrow> (\<exists>m. lk s p = Some (FileN d m)))"
  unfolding osReadFile_def by (erule sys_cases) (auto simp: untouched_def split: option.splits node.splits)

lemma readFiles_res:
  "readFiles ps c s = (Inr c', t) \<Longrightarrow> tree t = tree s
     \<and> c' = c @ map (\<lambda>p. (last p, fdata (the (lk s p)))) ps \<and> (\<forall>p \<in> set ps. \<exists>d m. lk s p = Some (FileN d m))"
proof (induction ps arbitrary: c s)
  case (Cons p ps)
  obtain r s1 where rd: "osReadFile p s = (r, s1)" by (cases "osReadFile p s")
  with Cons.prems obtain d where r: "r = Inr d" by (auto simp: andThen_def wrapping_def split: sum.splits)
  with rd osReadFile_res [OF rd] obtain m where m: "lk s p = Some (FileN d m)" "tree s1 = tree s" by blast
  from Cons.prems rd r have "readFiles ps (c @ [(last p, d)]) s1 = (Inr c', t)" by (simp add: andThen_def wrapping_def)
  from Cons.IH [OF this] m show ?case by auto
qed simp

lemma SerializeDir_res:
  assumes "SerializeDir U marshal d s = (Inr (Some blob), t)" "list_all plain (entries d (tree s))"
  shows "blob = marshal (map (\<lambda>n. (n, fdata (the (lk s (d @ [n]))))) (collEntries U d (tree s)))"
proof -
  obtain fs s1 where cf: "CollectionFiles U d s = (Inr fs, s1)" and run: "(if fs = [] then ok None
     else andThen (readFiles fs []) (\<lambda>c. ok (Some (marshal c)))) s1 = (Inr (Some blob), t)"
    using assms(1) unfolding SerializeDir_def andThen_Inr by blast
  from run have "fs \<noteq> []" by auto
  with CollectionFiles_res [OF cf assms(2)] have fs: "tree s1 = tree s" "fs = map (\<lambda>n. d @ [n]) (collEntries U d (tree s))"
    by auto
  from run \<open>fs \<noteq> []\<close> obtain c s2 where "readFiles fs [] s1 = (Inr c, s2)" "blob = marshal c"
    by (auto simp: andThen_Inr)
  with readFiles_res [of fs "[]" s1 c s2] fs show ?thesis by (simp add: o_def)
qed

lemma SerializeDir_files:
  assumes "SerializeDir U marshal d s = (Inr (Some blob), t)" "list_all plain (entries d (tree s))"
    and "n \<in> set (collEntries U d (tree s))"
  shows "\<exists>data m. lk s (d @ [n]) = Some (FileN data m)"
proof -
  obtain fs s0 where cf: "CollectionFiles U d s = (Inr fs, s0)" and run: "(if fs = [] then ok None
     else andThen (readFiles fs []) (\<lambda>c. ok (Some (marshal c)))) s0 = (Inr (Some blob), t)"
    using assms(1) unfolding SerializeDir_def andThen_Inr by blast
  from run have "fs \<noteq> []" by auto
  with CollectionFiles_res [OF cf assms(2)] have fs: "tree s0 = tree s" "fs = map (\<lambda>n. d @ [n]) (collEntries U d (tree s))"
    by auto
  from run \<open>fs \<noteq> []\<close> obtain c s' where "readFiles fs [] s0 = (Inr c, s')" by (auto simp: andThen_Inr)
  with readFiles_res [of fs "[]" s0 c s'] fs assms(3) show ?thesis by auto
qed

text \<open>Writing the entries one after the other.\<close>

lemma writeEntries_res:
  assumes "each (writeEntry d files) ns s = (Inr u, t)" "okFs s" "lk s d = Some DirN" "distinct ns"
  shows "list_all plain ns
    \<and> lk t = (\<lambda>q. if q \<in> (\<lambda>n. d @ [n]) ` set ns then Some (FileN (the (map_of files (last q))) 384) else lk s q)"
  using assms
proof (induction ns arbitrary: s)
  case (Cons n ns)
  obtain s1 where w: "writeEntry d files n s = (Inr (), s1)" and rest: "each (writeEntry d files) ns s1 = (Inr u, t)"
    using Cons.prems(1) by (auto simp: andThen_Inr)
  have n: "n \<noteq> dot" "n \<noteq> dotdot" "n = Base n"
    and wa: "WriteAtomic (joinp d n) (the (map_of files n)) s = (Inr (), s1)"
    using w by (auto simp: writeEntry_def wrapping_def split: if_splits prod.splits sum.splits)
  from WriteAtomic_res [OF Cons.prems(2) wa]
  have l1: "lk s1 = (lk s)(joinp d n \<mapsto> FileN (the (map_of files n)) 384)" "lk s (joinp d n) \<noteq> Some DirN" by auto
  have p: "plain n" using Base_fixed [OF n(3,1,2)] l1(2) Cons.prems(3) by (auto simp: joinp_slash)
  have j: "joinp d n = d @ [n]" using p by (rule joinp_plain)
  have "okFs s1" by (rule keepsD [OF WriteAtomic_ok Cons.prems(2) wa])
  moreover have "lk s1 d = Some DirN" using l1 Cons.prems(3) by (simp add: j)
  ultimately have IH: "list_all plain ns" "lk t = (\<lambda>q. if q \<in> (\<lambda>n. d @ [n]) ` set ns
      then Some (FileN (the (map_of files (last q))) 384) else lk s1 q)"
    using Cons.IH [OF rest] Cons.prems(4) by simp_all
  have "lk t = (\<lambda>q. if q \<in> (\<lambda>n. d @ [n]) ` set (n # ns)
      then Some (FileN (the (map_of files (last q))) 384) else lk s q)"
    by (rule ext) (use Cons.prems(4) in \<open>auto simp: IH(2) l1(1) j\<close>)
  with IH(1) p show ?case by simp
qed simp

section \<open>Strings in JSON\<close>

text \<open>
  The encoder of encoding/json coerces a string to valid UTF-8: a byte that begins no encoding of a
  rune becomes the replacement rune U+FFFD, three bytes.  \<open>runeLen\<close> is the length of the
  encoding a string begins with, 0 when there is none (the ranges are those of unicode/utf8).
\<close>

fun follow :: "(int \<times> int) list \<Rightarrow> bytes \<Rightarrow> bool" where
  "follow [] s = True"
| "follow ((l, h) # bs) (x # s) = (l \<le> x \<and> x \<le> h \<and> follow bs s)"
| "follow _ [] = False"

fun runeLen :: "bytes \<Rightarrow> nat" where
  "runeLen [] = 0"
| "runeLen (a # s) =
     (if a < 128 then 1
      else if 194 \<le> a \<and> a \<le> 223 \<and> follow [(128, 191)] s then 2
      else if 224 \<le> a \<and> a \<le> 239
        \<and> follow [(if a = 224 then 160 else 128, if a = 237 then 159 else 191), (128, 191)] s then 3
      else if 240 \<le> a \<and> a \<le> 244
        \<and> follow [(if a = 240 then 144 else 128, if a = 244 then 143 else 191), (128, 191), (128, 191)] s then 4
      else 0)"

fun toValid :: "bytes \<Rightarrow> bytes" where
  "toValid [] = []"
| "toValid (a # s) = (case runeLen (a # s) of
     0 \<Rightarrow> [239, 191, 189] @ toValid s
   | Suc k \<Rightarrow> a # take k s @ toValid (drop k s))"

text \<open>Valid UTF-8: the encodings of runes, which are the code points less the surrogates.\<close>

definition scalar :: "rune \<Rightarrow> bool" where
  "scalar r \<longleftrightarrow> 0 \<le> r \<and> r < 55296 \<or> 57343 < r \<and> r \<le> 1114111"

definition encodeRune :: "rune \<Rightarrow> bytes" where
  "encodeRune r =
     (if r < 128 then [r]
      else if r < 2048 then [192 + r div 64, 128 + r mod 64]
      else if r < 65536 then [224 + r div 64 div 64, 128 + r div 64 mod 64, 128 + r mod 64]
      else [240 + r div 64 div 64 div 64, 128 + r div 64 div 64 mod 64, 128 + r div 64 mod 64, 128 + r mod 64])"

definition utf8 :: "bytes \<Rightarrow> bool" where
  "utf8 data \<longleftrightarrow> (\<exists>rs. list_all scalar rs \<and> data = concat (map encodeRune rs))"

lemma split64:
  obtains q m :: int where "r = 64 * q + m" "0 \<le> m" "m < 64" "r div 64 = q" "r mod 64 = m"
  using that [of "r div 64" "r mod 64"] by simp

lemma toValid_step: "runeLen (a # s) = Suc k \<Longrightarrow> toValid (a # s) = a # take k s @ toValid (drop k s)"
  by (simp del: runeLen.simps)

lemma runeLen_2: "194 \<le> a \<Longrightarrow> a \<le> 223 \<Longrightarrow> 128 \<le> b \<Longrightarrow> b \<le> 191 \<Longrightarrow> runeLen (a # b # s) = Suc 1"
  by simp

lemma runeLen_3:
  "224 \<le> a \<Longrightarrow> a \<le> 239 \<Longrightarrow> (if a = 224 then 160 else 128) \<le> b \<Longrightarrow> b \<le> (if a = 237 then 159 else 191) \<Longrightarrow>
   128 \<le> c \<Longrightarrow> c \<le> 191 \<Longrightarrow> runeLen (a # b # c # s) = Suc 2"
  by simp

lemma runeLen_4:
  "240 \<le> a \<Longrightarrow> a \<le> 244 \<Longrightarrow> (if a = 240 then 144 else 128) \<le> b \<Longrightarrow> b \<le> (if a = 244 then 143 else 191) \<Longrightarrow>
   128 \<le> c \<Longrightarrow> c \<le> 191 \<Longrightarrow> 128 \<le> e \<Longrightarrow> e \<le> 191 \<Longrightarrow> runeLen (a # b # c # e # s) = Suc 3"
  by simp

lemma toValid_encodeRune:
  assumes "scalar r"
  shows "toValid (encodeRune r @ s) = encodeRune r @ toValid s"
proof -
  obtain q m where r: "r = 64 * q + m" "0 \<le> m" "m < 64" "r div 64 = q" "r mod 64 = m" by (rule split64)
  obtain p n where q: "q = 64 * p + n" "0 \<le> n" "n < 64" "q div 64 = p" "q mod 64 = n" by (rule split64)
  obtain u k where p: "p = 64 * u + k" "0 \<le> k" "k < 64" "p div 64 = u" "p mod 64 = k" by (rule split64)
  consider "r < 128" | "128 \<le> r" "r < 2048" | "2048 \<le> r" "r < 65536" | "65536 \<le> r" by linarith
  then show ?thesis
  proof cases
    case 1
    then show ?thesis by (simp add: encodeRune_def)
  next
    case 2
    then have e: "encodeRune r = [192 + q, 128 + m]" by (simp add: encodeRune_def r(4,5))
    have "runeLen ((192 + q) # (128 + m) # s) = Suc 1" by (rule runeLen_2) (use 2 r(1-3) in linarith)+
    from toValid_step [OF this] show ?thesis by (simp add: e)
  next
    case 3
    then have e: "encodeRune r = [224 + p, 128 + n, 128 + m]" by (simp add: encodeRune_def r(4,5) q(4,5))
    have "p = 0 \<Longrightarrow> 32 \<le> n" "p = 13 \<Longrightarrow> n < 32" using 3 r(1-3) q(1-3) assms by (auto simp: scalar_def)
    moreover have "0 \<le> p" "p < 16" using 3 r(1-3) q(1-3) by linarith+
    ultimately have "runeLen ((224 + p) # (128 + n) # (128 + m) # s) = Suc 2"
      by (intro runeLen_3) (use r(2,3) q(2,3) in auto)
    from toValid_step [OF this] show ?thesis by (simp add: e numeral_2_eq_2)
  next
    case 4
    then have e: "encodeRune r = [240 + u, 128 + k, 128 + n, 128 + m]"
      by (simp add: encodeRune_def r(4,5) q(4,5) p(4,5))
    have up: "r \<le> 1114111" using assms 4 by (auto simp: scalar_def)
    have "u = 0 \<Longrightarrow> 16 \<le> k" "u = 4 \<Longrightarrow> k < 16" using 4 up r(1-3) q(1-3) p(1-3) by linarith+
    moreover have "0 \<le> u" "u < 5" using 4 up r(1-3) q(1-3) p(1-3) by linarith+
    ultimately have "runeLen ((240 + u) # (128 + k) # (128 + n) # (128 + m) # s) = Suc 3"
      by (intro runeLen_4) (use r(2,3) q(2,3) p(2,3) in auto)
    from toValid_step [OF this] show ?thesis by (simp add: e numeral_3_eq_3)
  qed
qed

lemma toValid_utf8: "utf8 data \<Longrightarrow> toValid data = data"
proof -
  have "list_all scalar rs \<Longrightarrow> toValid (concat (map encodeRune rs)) = concat (map encodeRune rs)" for rs
    by (induction rs) (auto simp: toValid_encodeRune)
  then show "utf8 data \<Longrightarrow> toValid data = data" by (auto simp: utf8_def)
qed

section \<open>Properties\<close>

text \<open>
  Claim C22.  An atomic write is all or nothing: in a well-formed tree, whatever call of it fails
  and wherever, the tree stays well formed and the target keeps what it had (or stays absent)
  unless the write succeeds, when it holds exactly the new content with mode 0600 and nothing
  else changed; after a failure at most one file was added, a temporary one named
  \<open>.<base>.<random>\<close> in the target's directory, which had been free.
\<close>

theorem write_atomic_all_or_nothing:
  assumes "okTree (tree s)"
  shows "case WriteAtomic p content s of (r, t) \<Rightarrow>
    okTree (tree t) \<and>
    (case r of
       Inr _ \<Rightarrow> look (tree t) = (look (tree s))(p \<mapsto> FileN content 384)
     | Inl e \<Rightarrow> look (tree t) = look (tree s)
         \<or> (\<exists>x d. look (tree s) (butlast p @ [46 # last p @ 46 # x]) = None \<and>
              look (tree t) = (look (tree s))(butlast p @ [46 # last p @ 46 # x] \<mapsto> FileN d 384)))"
proof -
  obtain r t where run: "WriteAtomic p content s = (r, t)" by (cases "WriteAtomic p content s")
  have "okTree (tree t)" by (rule keepsD [OF WriteAtomic_ok assms run])
  moreover note WriteAtomic_res [OF assms run]
  ultimately consider e where "okFs t" "r = Inl e" "lk t = lk s"
    | e x d where "okFs t" "r = Inl e" "lk s (butlast p @ [46 # last p @ 46 # x]) = None"
        "lk t = (lk s)(butlast p @ [46 # last p @ 46 # x] \<mapsto> FileN d 384)"
    | "okFs t" "r = Inr ()" "lk t = (lk s)(p \<mapsto> FileN content 384)" by blast
  then show ?thesis unfolding run prod.case by cases (simp_all, blast)
qed

text \<open>A file system with the directory \<open>/h\<close> and the file \<open>/h/a\<close>; the third call will fail after one byte.\<close>

definition sampleFs :: "fault list \<Rightarrow> fsys" where
  "sampleFs fs = \<lparr>tree = [([lit ''h'', lit ''a''], FileN (lit ''old'') 384), ([lit ''h''], DirN)],
     faults = fs, rand = [lit ''1''], rounds = [], started = 0, flocked = []\<rparr>"

lemma sampleFs_ok: "okTree (tree (sampleFs fs))"
  by (auto simp: okTree_def sampleFs_def look_def Cons_eq_append_conv append_eq_Cons_conv)

theorem write_atomic_all_or_nothing_witness:
  "fst (WriteAtomic [lit ''h'', lit ''a''] (lit ''new'') (sampleFs [Fine, Fine, Fails (OsErr ''full'') 1, Fine, Fails (OsErr ''busy'') 0]))
      = Inl (OsErr ''full'')
   \<and> okTree (tree (snd (WriteAtomic [lit ''h'', lit ''a''] (lit ''new'')
        (sampleFs [Fine, Fine, Fails (OsErr ''full'') 1, Fine, Fails (OsErr ''busy'') 0]))))
   \<and> fst (WriteAtomic [lit ''h'', lit ''a''] (lit ''new'') (sampleFs [])) = Inr ()"
proof (intro conjI)
  show "fst (WriteAtomic [lit ''h'', lit ''a''] (lit ''new'') (sampleFs [Fine, Fine, Fails (OsErr ''full'') 1, Fine, Fails (OsErr ''busy'') 0]))
      = Inl (OsErr ''full'')" by code_simp
  show "okTree (tree (snd (WriteAtomic [lit ''h'', lit ''a''] (lit ''new'')
        (sampleFs [Fine, Fine, Fails (OsErr ''full'') 1, Fine, Fails (OsErr ''busy'') 0]))))"
    using write_atomic_all_or_nothing [OF sampleFs_ok, of "[Fine, Fine, Fails (OsErr ''full'') 1, Fine, Fails (OsErr ''busy'') 0]"
         "[lit ''h'', lit ''a'']" "lit ''new''"]
    by (simp add: case_prod_unfold)
  show "fst (WriteAtomic [lit ''h'', lit ''a''] (lit ''new'') (sampleFs [])) = Inr ()" by code_simp
qed

text \<open>
  Claim C23.  A collection survives its blob: when \<open>SerializeDir\<close> of one directory gave a blob and
  \<open>WriteCollection\<close> of it into any directory of another file system succeeded, then the names it
  reports are exactly the collection files of the first directory, and every one of them is in the
  second with mode 0600 and the first's bytes as encoding/json carries a string: a file of valid
  UTF-8 byte for byte, any other with the replacement rune for every byte that begins none
  (\<open>toValid\<close>).  The codec decodes a map with distinct keys to the map with its values coerced in
  this way, which is all that encoding/json documents, and the names in the first directory are
  entry names; names are strings of runes here, so they are valid.
\<close>

theorem collection_round_trip:
  assumes codec: "\<And>c. distinct (map fst c) \<Longrightarrow>
      \<exists>c'. unmarshal (marshal c) = Inr c' \<and> map_of c' = map_option toValid \<circ> map_of c"
    and ser: "SerializeDir U marshal d s = (Inr (Some blob), s1)" "list_all plain (entries d (tree s))"
    and wr: "WriteCollection unmarshal d' blob s2 = (Inr names, t)" "okTree (tree s2)"
  shows "names = collEntries U d (tree s)
    \<and> list_all (\<lambda>n. \<exists>data m. look (tree s) (d @ [n]) = Some (FileN data m)
         \<and> look (tree t) (d' @ [n]) = Some (FileN (toValid data) 384)
         \<and> (utf8 data \<longrightarrow> toValid data = data)) names"
proof -
  let ?N = "collEntries U d (tree s)"
  let ?c = "map (\<lambda>n. (n, fdata (the (lk s (d @ [n]))))) ?N"
  have blob: "blob = marshal ?c" by (rule SerializeDir_res [OF ser])
  have N: "sorted ?N" "distinct ?N"
    unfolding collEntries_def using entries_distinct entries_sorted by (simp_all add: sorted_wrt_filter)
  then obtain c' where c': "unmarshal (marshal ?c) = Inr c'" "map_of c' = map_option toValid \<circ> map_of ?c"
    using codec [of ?c] by (auto simp: o_def)
  have "set (map fst c') = dom (map_of ?c)" by (simp add: c'(2) flip: dom_map_of_conv_image_fst)
  then have keys: "sort (remdups (map fst c')) = ?N"
    by (intro sorted_distinct_set_unique) (use N in \<open>auto simp: dom_map_of_conv_image_fst image_image\<close>)
  obtain u s3 where ens: "EnsureDir d' s2 = (Inr u, s3)" and
    ea: "each (writeEntry d' c') ?N s3 = (Inr (), t)" and names: "names = ?N"
    using wr(1) unfolding WriteCollection_def blob c'(1) sum.case andThen_Inr Let_def keys
    by (auto simp: andThen_Inr)
  have "okFs s3" by (rule keepsD [OF EnsureDir_ok wr(2) ens])
  moreover have "lk s3 d' = Some DirN" using EnsureDir_res [OF ens] by simp
  ultimately have lt: "lk t = (\<lambda>q. if q \<in> (\<lambda>n. d' @ [n]) ` set ?N
      then Some (FileN (the (map_of c' (last q))) 384) else lk s3 q)"
    using writeEntries_res [OF ea] N(2) by blast
  have "\<exists>data m. lk s (d @ [n]) = Some (FileN data m) \<and> lk t (d' @ [n]) = Some (FileN (toValid data) 384)
      \<and> (utf8 data \<longrightarrow> toValid data = data)" if n: "n \<in> set ?N" for n
  proof -
    from SerializeDir_files [OF ser n] obtain data m where f: "lk s (d @ [n]) = Some (FileN data m)" by blast
    have "map_of ?c n = Some (fdata (the (lk s (d @ [n]))))"
      by (rule map_of_is_SomeI) (use n N(2) in \<open>auto simp: o_def\<close>)
    with f n have "lk t (d' @ [n]) = Some (FileN (toValid data) 384)" by (simp add: lt c'(2))
    with f toValid_utf8 show ?thesis by blast
  qed
  then show ?thesis unfolding names list_all_iff by blast
qed

text \<open>A codec for the witness: the map itself, one rune per part.\<close>

definition encodeMap :: "(gostr \<times> bytes) list \<Rightarrow> bytes" where
  "encodeMap c = concat (map (\<lambda>(n, b). int (length n) # n @ int (length b) # b) c)"

function decodeMap :: "bytes \<Rightarrow> err + (gostr \<times> bytes) list" where
  "decodeMap [] = Inr []"
| "decodeMap (k # r) =
     (case drop (nat k) r of
        [] \<Rightarrow> Inl (Msg ''short'')
      | l # r' \<Rightarrow> (case decodeMap (drop (nat l) r') of
          Inl e \<Rightarrow> Inl e | Inr c \<Rightarrow> Inr ((take (nat k) r, take (nat l) r') # c)))"
  by pat_completeness auto
termination
proof (relation "measure length")
  fix k :: rune and r :: "rune list" and l r'
  assume "drop (nat k) r = l # r'"
  then have "length (l # r') \<le> length r" by (metis diff_le_self length_drop)
  then show "(drop (nat l) r', k # r) \<in> measure length" by simp
qed simp

lemma decode_encode: "decodeMap (encodeMap c) = Inr c"
  by (induction c) (auto simp: encodeMap_def)

text \<open>The codec as encoding/json has it; in the sample directory the second file is not UTF-8.\<close>

definition jsonMap :: "(gostr \<times> bytes) list \<Rightarrow> bytes" where
  "jsonMap c = encodeMap (map (\<lambda>(n, b). (n, toValid b)) c)"

lemma jsonMap_law:
  "\<exists>c'. decodeMap (jsonMap c) = Inr c' \<and> map_of c' = map_option toValid \<circ> map_of c"
  by (simp add: jsonMap_def decode_encode map_of_map)

definition sampleDir :: fsys where
  "sampleDir = \<lparr>tree = [([lit ''d'', lit ''x.JSON''], FileN (lit ''1'') 420), ([lit ''d'', lit ''b.yaml''], FileN (lit ''2'' @ [255]) 384),
     ([lit ''d'', lit ''n.txt''], FileN (lit ''3'') 384), ([lit ''d''], DirN)], faults = [], rand = [], rounds = [], started = 0, flocked = []\<rparr>"

theorem collection_round_trip_witness:
  "case SerializeDir ascii jsonMap [lit ''d''] sampleDir of (Inr (Some blob), s1) \<Rightarrow>
     (case WriteCollection decodeMap [lit ''h'', lit ''c''] blob ((sampleFs [])\<lparr>rand := [lit ''1'', lit ''2'']\<rparr>) of
        (Inr names, t) \<Rightarrow> names = [lit ''b.yaml'', lit ''x.JSON'']
          \<and> look (tree t) [lit ''h'', lit ''c'', lit ''x.JSON''] = Some (FileN (lit ''1'') 384)
          \<and> look (tree t) [lit ''h'', lit ''c'', lit ''b.yaml''] = Some (FileN (lit ''2'' @ [239, 191, 189]) 384)
      | _ \<Rightarrow> False)
   | _ \<Rightarrow> False"
proof -
  let ?c = "[(lit ''b.yaml'', lit ''2'' @ [255]), (lit ''x.JSON'', lit ''1'')]"
  have ser: "SerializeDir ascii jsonMap [lit ''d''] sampleDir = (Inr (Some (jsonMap ?c)), sampleDir)" by code_simp
  let ?s2 = "(sampleFs [])\<lparr>rand := [lit ''1'', lit ''2'']\<rparr>"
  obtain t where wr: "WriteCollection decodeMap [lit ''h'', lit ''c''] (jsonMap ?c) ?s2
      = (Inr [lit ''b.yaml'', lit ''x.JSON''], t)"
  proof -
    have "fst (WriteCollection decodeMap [lit ''h'', lit ''c''] (jsonMap ?c) ?s2) = Inr [lit ''b.yaml'', lit ''x.JSON'']"
      by code_simp
    then show ?thesis using that by (metis prod.collapse)
  qed
  have pl: "list_all plain (entries [lit ''d''] (tree sampleDir))" by code_simp
  have ok: "okTree (tree ?s2)" using sampleFs_ok by simp
  have fx: "look (tree sampleDir) ([lit ''d''] @ [lit ''x.JSON'']) = Some (FileN (lit ''1'') 420)"
    and fb: "look (tree sampleDir) ([lit ''d''] @ [lit ''b.yaml'']) = Some (FileN (lit ''2'' @ [255]) 384)"
    and v: "toValid (lit ''1'') = lit ''1''" "toValid (lit ''2'' @ [255]) = lit ''2'' @ [239, 191, 189]" by code_simp+
  from collection_round_trip [OF jsonMap_law ser pl wr ok] fx fb v
  have "look (tree t) ([lit ''h'', lit ''c''] @ [lit ''x.JSON'']) = Some (FileN (lit ''1'') 384)"
    "look (tree t) ([lit ''h'', lit ''c''] @ [lit ''b.yaml'']) = Some (FileN (lit ''2'' @ [239, 191, 189]) 384)" by auto
  then show ?thesis unfolding ser prod.case sum.case option.case wr by simp
qed

end
