(* ===== verification/LockFile.thy ===== *)
theory LockFile
  imports Files
begin

text \<open>
  The cross-process lock of src/internal/duckdb/handle.go and flock_unix.go at the level of the
  sidecar files beside a database: queueing on \<open>.wait\<close>, then waiting for \<open>.lock\<close>, the holder's pid
  in the lock file, \<open>AcquireLock\<close> and \<open>Release\<close>.  (Theories Handle and HandleSystem have the
  process's reference counts and the interleaving of handles; here one caller meets the file
  system.)  What other processes do with the locks is in the rounds: the results of \<open>flock\<close>.
\<close>

section \<open>Decimal numbers\<close>

text \<open>\<open>strconv.Itoa\<close> on naturals and \<open>strconv.Atoi\<close>.\<close>

fun itoa :: "nat \<Rightarrow> gostr" where
  "itoa n = (if n < 10 then [48 + int n] else itoa (n div 10) @ [48 + int (n mod 10)])"

declare itoa.simps [simp del]

definition digit :: "rune \<Rightarrow> bool" where
  "digit r \<longleftrightarrow> 48 \<le> r \<and> r \<le> 57"

definition digitsVal :: "gostr \<Rightarrow> int" where
  "digitsVal s = foldl (\<lambda>a r. 10 * a + (r - 48)) 0 s"

definition atoi :: "gostr \<Rightarrow> int option" where
  "atoi s =
     (let (neg, ds) = (case s of [] \<Rightarrow> (False, []) | c # cs \<Rightarrow>
            if c = 45 then (True, cs) else if c = 43 then (False, cs) else (False, s));
          v = (if neg then - digitsVal ds else digitsVal ds) in
      if ds \<noteq> [] \<and> list_all digit ds \<and> int64_range v then Some v else None)"

definition str :: "gostr \<Rightarrow> string" where
  "str s = map (\<lambda>r. char_of (nat r)) s"

section \<open>Sidecar files\<close>

definition walSuffix :: gostr where "walSuffix = lit ''.wal''"
definition lockSuffix :: gostr where "lockSuffix = lit ''.lock''"
definition wantSuffix :: gostr where "wantSuffix = lit ''.wait''"

definition sfx :: "path \<Rightarrow> gostr \<Rightarrow> path" where
  "sfx p e = butlast p @ [last p @ e]"

definition openSideFile :: "path \<Rightarrow> gostr \<Rightarrow> path fsact" where
  "openSideFile p suffix = andThen (osOpen False (sfx p suffix)) (\<lambda>_. ok (sfx p suffix))"

definition lockPoll :: duration where "lockPoll = 10 * millisecond"

text \<open>\<open>waitLock\<close> from its deadline on: \<open>None\<close> when the rounds given do not suffice to decide.\<close>

fun waitLoop :: "time \<Rightarrow> lockRound list \<Rightarrow> (err + bool) option \<times> lockRound list" where
  "waitLoop deadline [] = (None, [])"
| "waitLoop deadline (r # rs) =
     (case tried r of
        Inl e \<Rightarrow> (Some (Inl e), rs)
      | Inr True \<Rightarrow> (Some (Inr True), rs)
      | Inr False \<Rightarrow>
          if \<not> Before (clock r) deadline then (Some (Inr False), rs)
          else (case ended r of Some e \<Rightarrow> (Some (Inl e), rs) | None \<Rightarrow> waitLoop deadline rs))"

text \<open>Within an operation, running out of rounds is the try at the deadline that failed.\<close>

definition waitLock :: "path \<Rightarrow> duration \<Rightarrow> bool fsact" where
  "waitLock f timeout s =
     (case waitLoop (started s + timeout) (rounds s) of
        (None, rs) \<Rightarrow> (Inr False, s\<lparr>rounds := rs\<rparr>)
      | (Some (Inl e), rs) \<Rightarrow> (Inl e, s\<lparr>rounds := rs\<rparr>)
      | (Some (Inr h), rs) \<Rightarrow> (Inr h, s\<lparr>rounds := rs, flocked := (if h then f # flocked s else flocked s)\<rparr>))"

definition unlock :: "path \<Rightarrow> unit fsact" where
  "unlock f s = (Inr (), s\<lparr>flocked := remove1 f (flocked s)\<rparr>)"

definition trimEnd :: "bytes \<Rightarrow> bytes" where
  "trimEnd b = rev (dropWhile (\<lambda>r. r = 10 \<or> r = 13 \<or> r = 32) (rev b))"

definition holderSuffix :: "path \<Rightarrow> gostr fsact" where
  "holderSuffix lockPath = andThen (observe (osReadFile lockPath)) (\<lambda>r. case r of
     Inl e \<Rightarrow> ok []
   | Inr b \<Rightarrow> (case atoi (trimEnd b) of
       None \<Rightarrow> ok []
     | Some pid \<Rightarrow> if pid \<le> 0 then ok [] else ok (lit '' (pid '' @ itoa (nat pid) @ lit '')'')))"

definition flockSidecar :: "path \<Rightarrow> duration \<Rightarrow> path fsact" where
  "flockSidecar p timeout =
     andThen (openSideFile p wantSuffix) (\<lambda>want.
       deferring (unlock want)
        (andThen (waitLock want timeout) (\<lambda>queued.
          if \<not> queued then throw (LockedError (Msg ''duckdb: timed out queueing''))
          else andThen (openSideFile p lockSuffix) (\<lambda>f.
            andThen (observe (waitLock f timeout)) (\<lambda>held.
              case held of
                Inl e \<Rightarrow> throw e
              | Inr h \<Rightarrow>
                  if h then ok f
                  else andThen (holderSuffix f) (\<lambda>who.
                    throw (LockedError (Msg (''duckdb: database is locked by another process'' @ str who)))))))))"

definition writePid :: "nat \<Rightarrow> path \<Rightarrow> unit fsact" where
  "writePid pid f = attempt (andThen (fileOverwrite f (itoa pid @ [10])) (\<lambda>_. attempt quiet))"

text \<open>\<open>Lock\<close> is the file held, \<open>None\<close> once released.\<close>

definition AcquireLock :: "nat \<Rightarrow> path \<Rightarrow> duration \<Rightarrow> path option fsact" where
  "AcquireLock pid p timeout = andThen (flockSidecar p timeout) (\<lambda>f.
     andThen (writePid pid f) (\<lambda>_. ok (Some f)))"

definition Release :: "path option \<Rightarrow> path option fsact" where
  "Release l = (case l of None \<Rightarrow> ok None | Some f \<Rightarrow> andThen (unlock f) (\<lambda>_. ok None))"

text \<open>\<open>wanted\<close>: whether another process queues, by one try on the \<open>.wait\<close> file.\<close>

definition tryLock :: "path \<Rightarrow> bool fsact" where
  "tryLock f s = (case rounds s of
     [] \<Rightarrow> (Inr False, s)
   | r # rs \<Rightarrow> (case tried r of
       Inl e \<Rightarrow> (Inl e, s\<lparr>rounds := rs\<rparr>)
     | Inr h \<Rightarrow> (Inr h, s\<lparr>rounds := rs, flocked := (if h then f # flocked s else flocked s)\<rparr>)))"

definition wanted :: "path \<Rightarrow> bool fsact" where
  "wanted p = andThen (observe (openSideFile p wantSuffix)) (\<lambda>r. case r of
     Inl e \<Rightarrow> ok False
   | Inr f \<Rightarrow> andThen (observe (tryLock f)) (\<lambda>free. case free of
       Inl e \<Rightarrow> ok False
     | Inr h \<Rightarrow> if h then andThen (unlock f) (\<lambda>_. ok False) else ok True))"

section \<open>Decimal round trip\<close>

lemma digitsVal_snoc: "digitsVal (s @ [r]) = 10 * digitsVal s + (r - 48)"
  by (simp add: digitsVal_def)

lemma itoa_digits: "list_all digit (itoa n) \<and> itoa n \<noteq> []"
proof (induction n rule: itoa.induct)
  case (1 n)
  have "digit (48 + int (n mod 10))" by (auto simp: digit_def)
  with 1 show ?case by (cases "n < 10") (simp_all add: itoa.simps [of n] digit_def)
qed

lemma digitsVal_itoa: "digitsVal (itoa n) = int n"
proof (induction n rule: itoa.induct)
  case (1 n)
  show ?case
  proof (cases "n < 10")
    case True
    then show ?thesis by (subst itoa.simps) (simp add: digitsVal_def)
  next
    case False
    have "digitsVal (itoa n) = 10 * int (n div 10) + int (n mod 10)"
      using False 1 by (subst itoa.simps) (simp add: digitsVal_snoc)
    also have "\<dots> = int n" by (metis mult_div_mod_eq of_nat_add of_nat_mult of_nat_numeral)
    finally show ?thesis .
  qed
qed

lemma atoi_itoa: "int n < 2 ^ 63 \<Longrightarrow> atoi (itoa n) = Some (int n)"
proof -
  assume n: "int n < 2 ^ 63"
  obtain c cs where c: "itoa n = c # cs" using itoa_digits [of n] by (cases "itoa n") auto
  then have d: "digit c" using itoa_digits [of n] by simp
  then have "c \<noteq> 45" "c \<noteq> 43" by (auto simp: digit_def)
  with n c show ?thesis using itoa_digits [of n] digitsVal_itoa [of n]
    by (simp add: atoi_def int64_range_def)
qed

section \<open>Waiting\<close>

lemma waitLoop_decides:
  assumes "r \<in> set rs" "\<not> Before (clock r) dl"
  shows "fst (waitLoop dl rs) \<noteq> None"
  using assms
proof (induction rs)
  case (Cons a rs)
  show ?case
  proof (cases "tried a = Inr False \<and> Before (clock a) dl \<and> ended a = None")
    case True
    then have "r \<in> set rs" using Cons.prems by auto
    with Cons True show ?thesis by simp
  next
    case False
    then show ?thesis by (auto split: sum.split bool.split option.split)
  qed
qed simp

text \<open>
  Claim C24.  Waiting for a file lock ends: every sleep of the loop lasts at least \<open>lockPoll\<close>, so
  once the rounds number more than the timeout divided by \<open>lockPoll\<close>, plus one, the loop has decided,
  whatever \<open>flock\<close> answered and whether or not the context ended.
\<close>

theorem lock_wait_terminates:
  assumes "\<And>i. i < length rs \<Longrightarrow> begun + int i * lockPoll \<le> clock (rs ! i)"
    and "nat (timeout div lockPoll) + 1 < length rs"
  shows "\<exists>r rest. waitLoop (begun + timeout) rs = (Some r, rest)"
proof -
  have lp: "lockPoll = 10000000" by (simp add: lockPoll_def millisecond_def)
  let ?i = "nat (timeout div lockPoll) + 1"
  have "timeout div lockPoll + 1 \<le> int (nat (timeout div lockPoll)) + 1" by simp
  then have "(timeout div lockPoll + 1) * lockPoll \<le> (int (nat (timeout div lockPoll)) + 1) * lockPoll"
    by (rule mult_right_mono) (simp add: lp)
  moreover have "timeout \<le> (timeout div lockPoll + 1) * lockPoll" unfolding lp by presburger
  ultimately have "timeout \<le> (int (nat (timeout div lockPoll)) + 1) * lockPoll" by (rule order_trans [rotated])
  then have t: "begun + timeout \<le> begun + int ?i * lockPoll" by (simp add: algebra_simps)
  have "begun + int ?i * lockPoll \<le> clock (rs ! ?i)" using assms by blast
  with t have "\<not> Before (clock (rs ! ?i)) (begun + timeout)" by (simp add: Before_def)
  then have "fst (waitLoop (begun + timeout) rs) \<noteq> None"
    using waitLoop_decides [of "rs ! ?i" rs] assms(2) by auto
  then show ?thesis by (metis not_None_eq prod.collapse)
qed

theorem lock_wait_terminates_witness:
  "\<exists>r rest. waitLoop (100 + 10000000)
     (map (\<lambda>t. \<lparr>tried = Inr False, clock = t, ended = None\<rparr>) [100, 10000100, 20000100]) = (Some r, rest)"
proof (rule lock_wait_terminates)
  fix i
  assume "i < length (map (\<lambda>t. \<lparr>tried = Inr False :: err + bool, clock = t, ended = None\<rparr>) [100, 10000100, 20000100 :: int])"
  then have "i = 0 \<or> i = 1 \<or> i = 2" by auto
  then show "100 + int i * lockPoll \<le> clock (map (\<lambda>t. \<lparr>tried = Inr False, clock = t, ended = None\<rparr>) [100, 10000100, 20000100] ! i)"
    by (auto simp: lockPoll_def millisecond_def)
qed (simp add: lockPoll_def millisecond_def)

section \<open>Who holds the lock\<close>

lemma trimEnd_itoa: "trimEnd (itoa n @ [10]) = itoa n"
proof -
  have "itoa n \<noteq> []" "list_all digit (itoa n)" using itoa_digits by simp_all
  then have "digit (last (itoa n))" by (simp add: list_all_iff)
  then have "dropWhile (\<lambda>r. r = 10 \<or> r = 13 \<or> r = 32) (rev (itoa n)) = rev (itoa n)"
    using \<open>itoa n \<noteq> []\<close> by (cases "itoa n" rule: rev_cases) (auto simp: digit_def)
  then show ?thesis by (simp add: trimEnd_def)
qed

lemma holderSuffix_read:
  assumes "faults s = []" "lk s f = Some (FileN b m)"
  shows "holderSuffix f s = ((case atoi (trimEnd b) of None \<Rightarrow> Inr []
    | Some pid \<Rightarrow> if pid \<le> 0 then Inr [] else Inr (lit '' (pid '' @ itoa (nat pid) @ lit '')'')), s)"
  using assms by (simp add: holderSuffix_def andThen_def observe_apply osReadFile_def sys_def split: option.split)

lemma writePid_runs:
  assumes "faults s = []" "lk s f = Some (FileN old m)"
  shows "faults (snd (writePid pid f s)) = []
    \<and> lk (snd (writePid pid f s)) f
        = Some (FileN (itoa pid @ [10] @ drop (Suc (length (itoa pid))) old) m)"
proof -
  have "f \<noteq> []" using assms(2) by auto
  with assms show ?thesis
    by (simp add: writePid_def attempt_def andThen_def fileOverwrite_def sys_def quiet_def overwrite_def look_put)
qed

text \<open>
  A waiter that gives up names the holder: after a process wrote its pid into a lock
  file whose earlier content was no longer than the new text, reading the file gives
  \<open>(pid N)\<close> with that very pid.
\<close>

theorem holder_pid_is_reported:
  assumes "faults s = []" "look (tree s) f = Some (FileN old m)"
    and "length old \<le> Suc (length (itoa pid))" "0 < pid" "int pid < 2 ^ 63"
  shows "fst (holderSuffix f (snd (writePid pid f s))) = Inr (lit '' (pid '' @ itoa pid @ lit '')'')"
  using writePid_runs [OF assms(1,2), of pid] assms(3,4,5)
  by (simp add: holderSuffix_read trimEnd_itoa atoi_itoa)

theorem holder_pid_is_reported_witness:
  "fst (holderSuffix [lit ''h'', lit ''a''] (snd (writePid 4711 [lit ''h'', lit ''a''] (sampleFs []))))
     = Inr (lit '' (pid 4711)'')"
proof -
  have "look (tree (sampleFs [])) [lit ''h'', lit ''a''] = Some (FileN (lit ''old'') 384)" by code_simp
  moreover have "itoa 4711 = lit ''4711''"
    by (simp add: itoa.simps [of 4711] itoa.simps [of 471] itoa.simps [of 47] itoa.simps [of 4])
  ultimately show ?thesis
    using holder_pid_is_reported [of "sampleFs []" "[lit ''h'', lit ''a'']" "lit ''old''" 384 4711]
    by (simp add: sampleFs_def)
qed

text \<open>
  The file is not truncated, so a longer text stays behind a shorter pid and the holder is not
  named: \<open>12345\<close> then \<open>99\<close> leaves \<open>99\<close>, a newline, \<open>45\<close> and a newline.
\<close>

lemma longer_pid_hides_holder:
  "lk s f = Some (FileN (lit ''12345'' @ [10]) m) \<Longrightarrow> faults s = [] \<Longrightarrow>
     fst (holderSuffix f (snd (writePid 99 f s))) = Inr []"
proof -
  assume s: "lk s f = Some (FileN (lit ''12345'' @ [10]) m)" "faults s = []"
  have "atoi (trimEnd (itoa 99 @ [10] @ drop (Suc (length (itoa 99))) (lit ''12345'' @ [10]))) = None" by code_simp
  with writePid_runs [OF s(2,1), of 99] show ?thesis by (simp add: holderSuffix_read)
qed

section \<open>Taking the lock\<close>

lemma waitLock_res:
  "waitLock f timeout s = (r, t) \<Longrightarrow> tree t = tree s
     \<and> (r = Inr True \<and> flocked t = f # flocked s \<or> r \<noteq> Inr True \<and> flocked t = flocked s)"
  by (auto simp: waitLock_def split: prod.splits option.splits sum.splits bool.splits if_splits)

lemma openSideFile_res:
  assumes "openSideFile p e s = (r, t)"
  shows "flocked t = flocked s \<and> (lk t = lk s \<or> lk s (sfx p e) = None \<and> lk t = (lk s)(sfx p e \<mapsto> FileN [] 384))
    \<and> (\<forall>f. r = Inr f \<longrightarrow> f = sfx p e)"
proof -
  obtain r' where o': "osOpen False (sfx p e) s = (r', t)" and r: "\<forall>f. r = Inr f \<longrightarrow> f = sfx p e"
    using assms by (auto simp: openSideFile_def andThen_def split: prod.splits sum.splits)
  have "flocked t = flocked s"
    using o' unfolding osOpen_def
    by (elim sys_cases) (auto simp: untouched_def split: option.splits node.splits)
  with o' r show ?thesis by (cases rule: osOpen_out [OF o']) (auto simp: look_put)
qed

lemma deferring_apply: "deferring c m s = (case m s of (r, t) \<Rightarrow> (r, snd (c t)))"
  by (simp add: deferring_def)

lemma holderSuffix_reading: "holderSuffix f s = (r, t) \<Longrightarrow> tree t = tree s \<and> flocked t = flocked s"
proof -
  assume run: "holderSuffix f s = (r, t)"
  obtain r1 s1 where rd: "osReadFile f s = (r1, s1)" by (cases "osReadFile f s")
  have "tree s1 = tree s \<and> flocked s1 = flocked s"
    using rd unfolding osReadFile_def
    by (elim sys_cases) (auto simp: untouched_def split: option.splits node.splits)
  moreover have "t = s1" using run rd
    by (auto simp: holderSuffix_def andThen_def observe_apply split: sum.splits option.splits if_splits)
  ultimately show ?thesis by simp
qed

definition maybeCreated :: "path \<Rightarrow> (path \<Rightarrow> node option) \<Rightarrow> (path \<Rightarrow> node option) \<Rightarrow> bool" where
  "maybeCreated p old new \<longleftrightarrow> new = old \<or> old p = None \<and> new = old(p \<mapsto> FileN [] 384)"

lemma maybeCreated_refl: "maybeCreated q f f"
  by (simp add: maybeCreated_def)

lemma openSideFile_made:
  assumes "openSideFile p e s = (r, t)"
  shows "maybeCreated (sfx p e) (lk s) (lk t) \<and> flocked t = flocked s \<and> (\<forall>f. r = Inr f \<longrightarrow> f = sfx p e)"
  using openSideFile_res [OF assms] by (auto simp: maybeCreated_def)

text \<open>
  The parts of \<open>flockSidecar\<close>, from the inside: reporting the holder or returning, opening and waiting
  for the lock file, and queueing before that.
\<close>

definition heldOrReport :: "path \<Rightarrow> err + bool \<Rightarrow> path fsact" where
  "heldOrReport f held =
     (case held of
        Inl e \<Rightarrow> throw e
      | Inr h \<Rightarrow>
          if h then ok f
          else andThen (holderSuffix f) (\<lambda>who.
            throw (LockedError (Msg (''duckdb: database is locked by another process'' @ str who)))))"

definition takeLockFile :: "path \<Rightarrow> duration \<Rightarrow> path fsact" where
  "takeLockFile p timeout =
     andThen (openSideFile p lockSuffix) (\<lambda>f. andThen (observe (waitLock f timeout)) (heldOrReport f))"

definition queueThenTake :: "path \<Rightarrow> duration \<Rightarrow> path \<Rightarrow> path fsact" where
  "queueThenTake p timeout w =
     andThen (waitLock w timeout) (\<lambda>queued.
       if \<not> queued then throw (LockedError (Msg ''duckdb: timed out queueing'')) else takeLockFile p timeout)"

lemma flockSidecar_parts:
  "flockSidecar p timeout =
     andThen (openSideFile p wantSuffix) (\<lambda>w. deferring (unlock w) (queueThenTake p timeout w))"
  unfolding flockSidecar_def queueThenTake_def takeLockFile_def heldOrReport_def ..

lemma heldOrReport_res:
  assumes "heldOrReport f h s = (r, t)"
  shows "tree t = tree s \<and> flocked t = flocked s \<and> (r = Inr f \<and> h = Inr True \<or> (\<exists>e. r = Inl e) \<and> h \<noteq> Inr True)"
proof (cases "h = Inr True \<or> (\<exists>e. h = Inl e)")
  case True
  with assms show ?thesis by (auto simp: heldOrReport_def)
next
  case False
  then have "h = Inr False" by (cases h) auto
  with assms obtain r5 where "holderSuffix f s = (r5, t)" "\<exists>e. r = Inl e"
    by (auto simp: heldOrReport_def andThen_def split: prod.splits sum.splits)
  with holderSuffix_reading \<open>h = Inr False\<close> show ?thesis by blast
qed

lemma takeLockFile_res:
  assumes "takeLockFile p timeout s = (r, t)"
  shows "maybeCreated (sfx p lockSuffix) (lk s) (lk t)
    \<and> (case r of Inr f \<Rightarrow> f = sfx p lockSuffix \<and> flocked t = sfx p lockSuffix # flocked s
               | Inl e \<Rightarrow> flocked t = flocked s)"
  using assms unfolding takeLockFile_def
proof (cases rule: andThen_cases)
  case (1 e)
  with openSideFile_made [OF 1(1)] show ?thesis by simp
next
  case lo: (2 f s3)
  obtain h s4 where wl: "waitLock f timeout s3 = (h, s4)" by (cases "waitLock f timeout s3")
  from lo(2) wl have rest: "heldOrReport f h s4 = (r, t)" by (simp add: andThen_def observe_apply)
  from openSideFile_made [OF lo(1)] heldOrReport_res [OF rest] waitLock_res [OF wl] show ?thesis
    by (auto split: sum.split)
qed

lemma queueThenTake_res:
  assumes "queueThenTake p timeout w s = (r, t)"
  shows "maybeCreated (sfx p lockSuffix) (lk s) (lk t)
    \<and> (case r of Inr f \<Rightarrow> f = sfx p lockSuffix \<and> flocked t = sfx p lockSuffix # w # flocked s
               | Inl e \<Rightarrow> flocked t = flocked s \<or> flocked t = w # flocked s)"
  using assms unfolding queueThenTake_def
proof (cases rule: andThen_cases)
  case (1 e)
  with waitLock_res [OF 1(1)] maybeCreated_refl show ?thesis by simp
next
  case wt: (2 queued s2)
  note q = waitLock_res [OF wt(1)]
  show ?thesis
  proof (cases queued)
    case False
    with wt q maybeCreated_refl show ?thesis by auto
  next
    case True
    with wt(2) have "takeLockFile p timeout s2 = (r, t)" by simp
    from takeLockFile_res [OF this] q True show ?thesis by (auto split: sum.splits)
  qed
qed

text \<open>
  Claim C25.  Taking the sidecar lock leaves no trace but its files: the place in the queue is
  given up on every path, the lock is held exactly on success, and nothing in the tree changes
  except that the two sidecar files may be created, empty and owner-only.
\<close>

theorem flock_sidecar_outcome:
  assumes "sfx p wantSuffix \<notin> set (flocked s)"
  shows "case flockSidecar p timeout s of (r, t) \<Rightarrow>
     (case r of Inr f \<Rightarrow> f = sfx p lockSuffix \<and> flocked t = sfx p lockSuffix # flocked s
              | Inl e \<Rightarrow> flocked t = flocked s)
     \<and> (\<exists>mid. maybeCreated (sfx p wantSuffix) (look (tree s)) mid
          \<and> maybeCreated (sfx p lockSuffix) mid (look (tree t)))"
proof -
  let ?w = "sfx p wantSuffix" and ?l = "sfx p lockSuffix"
  have wl: "?w \<noteq> ?l" by (simp add: sfx_def wantSuffix_def lockSuffix_def)
  obtain r t where run: "flockSidecar p timeout s = (r, t)" by (cases "flockSidecar p timeout s")
  then have "(case r of Inr f \<Rightarrow> f = ?l \<and> flocked t = ?l # flocked s | Inl e \<Rightarrow> flocked t = flocked s)
     \<and> (\<exists>mid. maybeCreated ?w (lk s) mid \<and> maybeCreated ?l mid (lk t))"
    unfolding flockSidecar_parts
  proof (cases rule: andThen_cases)
    case (1 e)
    with openSideFile_made [OF 1(1)] maybeCreated_refl show ?thesis by auto
  next
    case op: (2 w s1)
    note w = openSideFile_made [OF op(1)]
    from op(2) obtain u where body: "queueThenTake p timeout w s1 = (r, u)" and t: "t = snd (unlock w u)"
      unfolding deferring_apply by (auto split: prod.splits)
    have "tree t = tree u" "flocked t = remove1 ?w (flocked u)" using t w by (simp_all add: unlock_def)
    with queueThenTake_res [OF body] w assms wl show ?thesis
      by (auto simp: remove1_idem split: sum.splits)
  qed
  with run show ?thesis by simp
qed

theorem flock_sidecar_outcome_witness:
  "fst (flockSidecar [lit ''h'', lit ''a''] 5 ((sampleFs [])\<lparr>rounds :=
      [\<lparr>tried = Inr True, clock = 1, ended = None\<rparr>, \<lparr>tried = Inr False, clock = 9, ended = None\<rparr>]\<rparr>))
    = Inl (LockedError (Msg ''duckdb: database is locked by another process''))
   \<and> flocked (snd (flockSidecar [lit ''h'', lit ''a''] 5 ((sampleFs [])\<lparr>rounds :=
      [\<lparr>tried = Inr True, clock = 1, ended = None\<rparr>, \<lparr>tried = Inr False, clock = 9, ended = None\<rparr>]\<rparr>))) = []"
proof
  let ?s = "(sampleFs [])\<lparr>rounds :=
      [\<lparr>tried = Inr True, clock = 1, ended = None\<rparr>, \<lparr>tried = Inr False, clock = 9, ended = None\<rparr>]\<rparr>"
  show r: "fst (flockSidecar [lit ''h'', lit ''a''] 5 ?s)
      = Inl (LockedError (Msg ''duckdb: database is locked by another process''))" by code_simp
  have "flocked ?s = []" by (simp add: sampleFs_def)
  then show "flocked (snd (flockSidecar [lit ''h'', lit ''a''] 5 ?s)) = []"
    using flock_sidecar_outcome [of "[lit ''h'', lit ''a'']" ?s 5] r
    by (auto simp: case_prod_unfold)
qed

end
