(* ===== verification/Backup.thy ===== *)
theory Backup
  imports LockFile
begin

text \<open>
  src/backup/backup.go: archives of files (databases checkpointed under the sidecar lock) and
  their restoration by staging, setting aside and swapping with rollback.

  Parameters: \<open>ck\<close>, what a checkpoint makes of a database file and its write-ahead log; the tar
  format as \<open>hdrErr\<close> (does the writer refuse a header), \<open>tarBytes\<close> and \<open>untar\<close>; \<open>decrypt\<close> (theory
  Crypt gives it); \<open>pid\<close>; the ages of directories \<open>oldDir\<close>.  A test of the context is the call
  \<open>quiet\<close>, whose error is the context's.
\<close>

section \<open>Archive\<close>

definition duckMagic :: bytes where "duckMagic = lit ''DUCK''"
definition duckMagicOffset :: nat where "duckMagicOffset = 8"
definition tempSuffix :: gostr where "tempSuffix = lit ''.tmp''"
definition lockTimeout :: duration where "lockTimeout = 15 * second"

definition hasWAL :: "path \<Rightarrow> bool fsact" where
  "hasWAL p = andThen (observe (osStat (sfx p walSuffix))) (\<lambda>r. case r of
     Inl e \<Rightarrow> ok False | Inr n \<Rightarrow> ok (isFile (Some n)))"

definition isDatabase :: "path \<Rightarrow> bool fsact" where
  "isDatabase p = andThen (hasWAL p) (\<lambda>w.
     if w then ok True
     else andThen (observe (osReadFile p)) (\<lambda>r. case r of
       Inl e \<Rightarrow> if isNotExist e then ok False else throw e
     | Inr d \<Rightarrow>
         if length d < duckMagicOffset + length duckMagic then ok False
         else ok (take (length duckMagic) (drop duckMagicOffset d) = duckMagic)))"

definition held :: "err option \<Rightarrow> bool" where
  "held e = (case e of None \<Rightarrow> False | Some e \<Rightarrow> isLocked e \<or> isClosed e)"

text \<open>\<open>duckdb.Open\<close>: the connection, the schema when there is one, then the modes.\<close>

definition securePerm :: "path \<Rightarrow> unit fsact" where
  "securePerm p = andThen (observe (osChmod p 384)) (\<lambda>r. case r of
     Inl e \<Rightarrow> if isNotExist e then ok () else throw e | Inr _ \<Rightarrow> ok ())"

definition secureWAL :: "path \<Rightarrow> unit fsact" where
  "secureWAL p = securePerm (sfx p walSuffix)"

definition duckOpen :: "path \<Rightarrow> bool \<Rightarrow> unit fsact" where
  "duckOpen p schema =
     andThen quiet (\<lambda>_.
     andThen (wrapping (\<lambda>e. or_default (asLocked (Some e)) e) quiet) (\<lambda>_.
     andThen (if schema then wrapping (\<lambda>e. or_default (asLocked (Some e)) e) quiet else ok ()) (\<lambda>_.
     andThen (securePerm p) (\<lambda>_. secureWAL p))))"

text \<open>\<open>CHECKPOINT\<close> folds the log into the database file and removes it.\<close>

definition checkpoint :: "(bytes \<Rightarrow> bytes \<Rightarrow> bytes) \<Rightarrow> path \<Rightarrow> unit fsact" where
  "checkpoint ck p = sys untouched (\<lambda>s.
     case (look (tree s) p, look (tree s) (sfx p walSuffix)) of
       (Some (FileN d m), Some (FileN w m')) \<Rightarrow>
          ok () (s\<lparr>tree := del (sfx p walSuffix) (put p (FileN (ck d w) m) (tree s))\<rparr>)
     | _ \<Rightarrow> ok () s)"

definition checkpointCloseAndRead :: "(bytes \<Rightarrow> bytes \<Rightarrow> bytes) \<Rightarrow> path \<Rightarrow> bytes fsact" where
  "checkpointCloseAndRead ck p =
     andThen (observe (andThen (wrapping (Wrap ''checkpointing: '') (checkpoint ck p))
                         (\<lambda>_. wrapping (Wrap ''closing after checkpoint: '') quiet)))
       (\<lambda>r. case r of
          Inl e \<Rightarrow> andThen (attempt quiet) (\<lambda>_. throw e)
        | Inr _ \<Rightarrow> osReadFile p)"

definition snapshotFailed :: "err \<Rightarrow> (gostr \<times> bytes) list fsact" where
  "snapshotFailed e = andThen quiet (\<lambda>_.
     throw (if held (Some e) then Wrap ''refusing to back up: another process is holding it: '' e
            else if isPermission e then Wrap ''refusing to back up: needs write access: '' e
            else Wrap ''refusing to back up: cannot snapshot it safely: '' e))"

definition snapshotDB :: "(bytes \<Rightarrow> bytes \<Rightarrow> bytes) \<Rightarrow> nat \<Rightarrow> path \<Rightarrow> (gostr \<times> bytes) list fsact" where
  "snapshotDB ck pid p =
     andThen (observe (AcquireLock pid p lockTimeout)) (\<lambda>l. case l of
       Inl e \<Rightarrow> snapshotFailed e
     | Inr lock \<Rightarrow>
         deferring (andThen (Release lock) (\<lambda>_. ok ()))
          (andThen (observe (andThen (duckOpen p False) (\<lambda>_. checkpointCloseAndRead ck p))) (\<lambda>r. case r of
             Inr data \<Rightarrow> ok [(last p, data)]
           | Inl e \<Rightarrow> snapshotFailed e)))"

definition readPlain :: "path \<Rightarrow> (gostr \<times> bytes) list fsact" where
  "readPlain p = andThen (wrapping (Wrap ''reading: '') (osReadFile p)) (\<lambda>d. ok [(last p, d)])"

definition snapshot :: "(bytes \<Rightarrow> bytes \<Rightarrow> bytes) \<Rightarrow> nat \<Rightarrow> path \<Rightarrow> (gostr \<times> bytes) list fsact" where
  "snapshot ck pid p = andThen (observe (osStat p)) (\<lambda>r. case r of
     Inl e \<Rightarrow>
       if isNotExist e then andThen (hasWAL p) (\<lambda>w.
         if w then throw (Msg ''refusing to back up: .wal exists without its database file'') else ok [])
       else throw (Wrap ''reading: '' e)
   | Inr _ \<Rightarrow> andThen (wrapping (Wrap ''examining: '') (isDatabase p)) (\<lambda>db.
       if \<not> db then readPlain p else snapshotDB ck pid p))"

text \<open>The files of one path into the archive, \<open>acc\<close> holding what is written so far.\<close>

fun addFiles :: "(gostr \<Rightarrow> nat \<Rightarrow> err option) \<Rightarrow> (gostr \<times> bytes) list \<Rightarrow> (gostr \<times> bytes) list
    \<Rightarrow> err + (gostr \<times> bytes) list" where
  "addFiles hdrErr [] acc = Inr acc"
| "addFiles hdrErr (f # fs) acc =
     (if fst f \<in> fst ` set acc then Inl (Msg ''duplicate backup entry: paths with the same basename collide'')
      else (case hdrErr (fst f) (length (snd f)) of
         Some e \<Rightarrow> Inl e
       | None \<Rightarrow> addFiles hdrErr fs (acc @ [f])))"

definition lift :: "err + 'a \<Rightarrow> 'a fsact" where
  "lift r s = (r, s)"

fun archiveLoop :: "(bytes \<Rightarrow> bytes \<Rightarrow> bytes) \<Rightarrow> nat \<Rightarrow> (gostr \<Rightarrow> nat \<Rightarrow> err option) \<Rightarrow> path list
    \<Rightarrow> (gostr \<times> bytes) list \<Rightarrow> (gostr \<times> bytes) list fsact" where
  "archiveLoop ck pid hdrErr [] acc = ok acc"
| "archiveLoop ck pid hdrErr (p # ps) acc =
     andThen quiet (\<lambda>_.
     andThen (snapshot ck pid p) (\<lambda>fs.
     andThen (lift (addFiles hdrErr fs acc)) (\<lambda>acc'. archiveLoop ck pid hdrErr ps acc')))"

definition Archive :: "(bytes \<Rightarrow> bytes \<Rightarrow> bytes) \<Rightarrow> nat \<Rightarrow> (gostr \<Rightarrow> nat \<Rightarrow> err option)
    \<Rightarrow> ((gostr \<times> bytes) list \<Rightarrow> err + bytes) \<Rightarrow> path list \<Rightarrow> bytes fsact" where
  "Archive ck pid hdrErr tarBytes paths =
     andThen quiet (\<lambda>_.
     andThen (archiveLoop ck pid hdrErr paths []) (\<lambda>files.
     andThen (lift (tarBytes files)) (\<lambda>b.
       if files = [] then throw (Msg ''nothing to back up (no files found)'') else ok b)))"

section \<open>Extract\<close>

record tarEntry =
  regular :: bool
  hname :: gostr
  body :: "err + bytes"

definition maxEntryBytes :: nat where "maxEntryBytes = 256 * 2 ^ 20"

definition setEntry :: "gostr \<Rightarrow> bytes \<Rightarrow> (gostr \<times> bytes) list \<Rightarrow> (gostr \<times> bytes) list" where
  "setEntry k v m = (k, v) # filter (\<lambda>(k', _). k' \<noteq> k) m"

text \<open>The headers of the archive up to the reader's end: \<open>None\<close> is \<open>io.EOF\<close>.\<close>

fun extractLoop :: "tarEntry list \<Rightarrow> err option \<Rightarrow> (gostr \<times> bytes) list \<Rightarrow> err + (gostr \<times> bytes) list" where
  "extractLoop [] fin out = (case fin of None \<Rightarrow> Inr out | Some e \<Rightarrow> Inl e)"
| "extractLoop (h # hs) fin out =
     (if \<not> regular h then extractLoop hs fin out
      else let name = Base (Clean (hname h)) in
        if name = dot \<or> name = dotdot \<or> name = [] \<or> name = [slash] then extractLoop hs fin out
        else (case body h of
            Inl e \<Rightarrow> Inl e
          | Inr content \<Rightarrow>
              let data = take (maxEntryBytes + 1) content in
              if length data > maxEntryBytes then Inl (Msg ''backup entry exceeds the limit'')
              else extractLoop hs fin (setEntry name data out)))"

definition extractTar :: "(bytes \<Rightarrow> tarEntry list \<times> err option) \<Rightarrow> bytes \<Rightarrow> err + (gostr \<times> bytes) list" where
  "extractTar untar archive = (case untar archive of (hs, fin) \<Rightarrow> extractLoop hs fin [])"

section \<open>The swap\<close>

record swap =
  dest :: path
  stage :: path
  aside :: path
  moved :: "gostr list"
  placed :: "gostr list"

definition setAside :: "swap \<Rightarrow> gostr \<Rightarrow> swap fsact" where
  "setAside sw name =
     andThen (observe (osStat (dest sw @ [name]))) (\<lambda>r. case r of
       Inl e \<Rightarrow> if isNotExist e then ok sw else throw e
     | Inr _ \<Rightarrow> andThen (osRename (dest sw @ [name]) (aside sw @ [name])) (\<lambda>_.
         ok (sw\<lparr>moved := moved sw @ [name]\<rparr>)))"

text \<open>On Unix no error says that another process holds the file.\<close>

definition renameHeld :: "err \<Rightarrow> bool" where
  "renameHeld e = False"

fun asideEach :: "swap \<Rightarrow> gostr list \<Rightarrow> (swap \<times> err option) fsact" where
  "asideEach sw [] = ok (sw, None)"
| "asideEach sw (n # ns) = andThen (observe (setAside sw n)) (\<lambda>r. case r of
     Inl e \<Rightarrow> ok (sw, Some (if renameHeld e then LockedError (Wrap ''refusing to restore over: '' e)
                        else Wrap ''setting aside: '' e))
   | Inr sw' \<Rightarrow> asideEach sw' ns)"

fun placeEach :: "swap \<Rightarrow> gostr list \<Rightarrow> (swap \<times> err option) fsact" where
  "placeEach sw [] = ok (sw, None)"
| "placeEach sw (n # ns) = andThen (observe (osRename (stage sw @ [n]) (dest sw @ [n]))) (\<lambda>r. case r of
     Inl e \<Rightarrow> ok (sw, Some (Wrap ''writing: '' e))
   | Inr _ \<Rightarrow> placeEach (sw\<lparr>placed := placed sw @ [n]\<rparr>) ns)"

definition withSidecars :: "gostr list \<Rightarrow> gostr list" where
  "withSidecars names = concat (map (\<lambda>b. [b, b @ walSuffix, b @ tempSuffix]) names)"

fun removePlaced :: "swap \<Rightarrow> gostr list \<Rightarrow> gostr list \<Rightarrow> gostr list fsact" where
  "removePlaced sw [] stuck = ok stuck"
| "removePlaced sw (n # ns) stuck =
     (if n \<in> set (moved sw) then removePlaced sw ns stuck
      else andThen (observe (osRemove (dest sw @ [n]))) (\<lambda>r. case r of
        Inl e \<Rightarrow> removePlaced sw ns (if isNotExist e then stuck else stuck @ [n])
      | Inr _ \<Rightarrow> removePlaced sw ns stuck))"

fun moveBack :: "swap \<Rightarrow> gostr list \<Rightarrow> gostr list \<Rightarrow> gostr list fsact" where
  "moveBack sw [] stuck = ok stuck"
| "moveBack sw (n # ns) stuck =
     andThen (observe (osRename (aside sw @ [n]) (dest sw @ [n]))) (\<lambda>r. case r of
       Inl e \<Rightarrow> moveBack sw ns (stuck @ [n])
     | Inr _ \<Rightarrow> moveBack sw ns stuck)"

definition backInPlace :: string where
  "backInPlace = '' (nothing was replaced: every previous file is back in place)''"

definition halfReplaced :: string where
  "halfReplaced = ''; rolling the restore back failed, the previous files are intact in the aside directory''"

definition syncDir :: "path \<Rightarrow> unit fsact" where
  "syncDir d = andThen (observe (osStat d)) (\<lambda>r. case r of
     Inl e \<Rightarrow> ok () | Inr _ \<Rightarrow> attempt quiet)"

definition abort :: "swap \<Rightarrow> err \<Rightarrow> unit fsact" where
  "abort sw cause =
     andThen (removePlaced sw (placed sw) []) (\<lambda>stuck.
     andThen (moveBack sw (rev (moved sw)) stuck) (\<lambda>stuck.
     andThen (syncDir (dest sw)) (\<lambda>_.
       if stuck = [] then andThen (attempt (osRemoveAll (aside sw))) (\<lambda>_. throw (Note cause backInPlace))
       else throw (Note cause halfReplaced))))"

definition swapRun :: "swap \<Rightarrow> gostr list \<Rightarrow> unit fsact" where
  "swapRun sw names =
     andThen (asideEach sw (withSidecars names)) (\<lambda>(sw, failed). case failed of
       Some e \<Rightarrow> abort sw e
     | None \<Rightarrow> andThen (placeEach sw names) (\<lambda>(sw, failed). case failed of
         Some e \<Rightarrow> abort sw e
       | None \<Rightarrow> ok ()))"

section \<open>Restore\<close>

definition regularOrAbsent :: "path \<Rightarrow> unit fsact" where
  "regularOrAbsent p = andThen (observe (osStat p)) (\<lambda>r. case r of
     Inl e \<Rightarrow> if isNotExist e then ok () else throw e
   | Inr n \<Rightarrow> if \<not> isFile (Some n) then throw (Msg ''is not a regular file'') else ok ())"

definition checkReplaceable :: "path \<Rightarrow> gostr list \<Rightarrow> unit fsact" where
  "checkReplaceable d names = each (\<lambda>base.
     andThen (wrapping (Wrap ''refusing to restore over: '') (regularOrAbsent (d @ [base]))) (\<lambda>_.
     each (\<lambda>suffix. wrapping (\<lambda>e. Note (Wrap ''refusing to restore over: '' e) '' (sidecar)'')
       (regularOrAbsent (sfx (d @ [base]) suffix))) [lockSuffix, wantSuffix])) names"

fun releaseLocks :: "path option list \<Rightarrow> unit fsact" where
  "releaseLocks [] = ok ()"
| "releaseLocks (l # ls) = andThen (releaseLocks ls) (\<lambda>_. andThen (Release l) (\<lambda>_. ok ()))"

fun acquireLocks :: "nat \<Rightarrow> path \<Rightarrow> gostr list \<Rightarrow> path option list \<Rightarrow> path option list fsact" where
  "acquireLocks pid d [] locks = ok locks"
| "acquireLocks pid d (n # ns) locks =
     andThen (observe (isDatabase (d @ [n]))) (\<lambda>db. case db of
       Inl e \<Rightarrow> acquireLocks pid d ns locks
     | Inr b \<Rightarrow>
         if \<not> b then acquireLocks pid d ns locks
         else andThen (observe (AcquireLock pid (d @ [n]) lockTimeout)) (\<lambda>l. case l of
           Inl e \<Rightarrow> andThen (releaseLocks locks) (\<lambda>_.
             throw (if held (Some e) then Note (Wrap ''refusing to restore over: '' e) '' (stop the daemon and retry)''
                    else Wrap ''refusing to restore over: '' e))
         | Inr lock \<Rightarrow> acquireLocks pid d ns (locks @ [lock])))"

definition acquireDestLocks :: "nat \<Rightarrow> path \<Rightarrow> gostr list \<Rightarrow> path option list fsact" where
  "acquireDestLocks pid d names = acquireLocks pid d names []"

definition stagePrefix :: gostr where "stagePrefix = lit ''.restore-stage-''"
definition asidePrefix :: gostr where "asidePrefix = lit ''.restore-aside-''"

text \<open>Abandoned stage directories; \<open>oldDir n\<close>: its age could be read and is over \<open>stageSweepAge\<close>.\<close>

definition sweepStageDirs :: "(gostr \<Rightarrow> bool) \<Rightarrow> path \<Rightarrow> unit fsact" where
  "sweepStageDirs oldDir d = andThen (observe (osReadDir d)) (\<lambda>r. case r of
     Inl e \<Rightarrow> ok ()
   | Inr es \<Rightarrow> each (\<lambda>(n, k).
       if k \<noteq> DirN \<or> \<not> HasPrefix n stagePrefix then ok ()
       else if \<not> oldDir n then ok ()
       else attempt (osRemoveAll (d @ [n]))) es)"

definition writeSynced :: "path \<Rightarrow> bytes \<Rightarrow> unit fsact" where
  "writeSynced p data =
     andThen (osOpen True p) (\<lambda>_.
     andThen (observe (andThen (fileWrite p data) (\<lambda>_. quiet))) (\<lambda>r. case r of
       Inl e \<Rightarrow> andThen (attempt quiet) (\<lambda>_. throw e)
     | Inr _ \<Rightarrow> quiet))"

text \<open>\<open>Restore\<close> from the stage directory on, and from the held locks on.\<close>

definition stageAll :: "path \<Rightarrow> (gostr \<times> bytes) list \<Rightarrow> gostr list \<Rightarrow> unit fsact" where
  "stageAll stg files names = each (\<lambda>base. andThen quiet (\<lambda>_.
     wrapping (Wrap ''staging: '') (writeSynced (stg @ [base]) (the (map_of files base))))) names"

definition stageAndSwap :: "path \<Rightarrow> path \<Rightarrow> (gostr \<times> bytes) list \<Rightarrow> gostr list \<Rightarrow> gostr list fsact" where
  "stageAndSwap d stg files names =
     andThen (stageAll stg files names) (\<lambda>_.
     andThen quiet (\<lambda>_.
     andThen (wrapping (Wrap ''preparing the rollback area: '') (osTemp DirN d asidePrefix)) (\<lambda>asd.
     andThen (swapRun \<lparr>dest = d, stage = stg, aside = asd, moved = [], placed = []\<rparr> names) (\<lambda>_.
     andThen (syncDir d) (\<lambda>_.
     andThen (attempt (osRemoveAll asd)) (\<lambda>_. ok names))))))"

definition restoreLocked :: "(gostr \<Rightarrow> bool) \<Rightarrow> path \<Rightarrow> (gostr \<times> bytes) list \<Rightarrow> gostr list \<Rightarrow> gostr list fsact" where
  "restoreLocked oldDir d files names =
     andThen (sweepStageDirs oldDir d) (\<lambda>_.
     andThen (wrapping (Wrap ''staging restore: '') (osTemp DirN d stagePrefix)) (\<lambda>stg.
     deferring (attempt (osRemoveAll stg)) (stageAndSwap d stg files names)))"

definition Restore :: "(bytes \<Rightarrow> bytes \<Rightarrow> err + bytes) \<Rightarrow> (bytes \<Rightarrow> tarEntry list \<times> err option) \<Rightarrow> nat
    \<Rightarrow> (gostr \<Rightarrow> bool) \<Rightarrow> bytes \<Rightarrow> bytes \<Rightarrow> path \<Rightarrow> gostr list fsact" where
  "Restore decrypt untar pid oldDir sealed key d =
     andThen quiet (\<lambda>_.
     andThen (wrapping (Wrap ''decrypting backup (wrong key?): '') (lift (decrypt sealed key))) (\<lambda>plaintext.
     andThen (lift (extractTar untar plaintext)) (\<lambda>files.
     andThen (wrapping (Wrap ''creating: '') (mkdirAll [] d)) (\<lambda>_.
     let names = sort (map (Base \<circ> fst) files) in
     andThen (checkReplaceable d names) (\<lambda>_.
     andThen (acquireDestLocks pid d names) (\<lambda>locks.
     deferring (releaseLocks locks) (restoreLocked oldDir d files names)))))))"

end
