(* ===== verification/BackupSwap.thy ===== *)
theory BackupSwap
  imports Backup
begin

text \<open>
  Correctness of the swap of src/backup/backup.go: whatever renames and removals fail, a restore
  either puts every staged file in place, or rolls back completely, or leaves every
  previous file in place or in the aside directory.
\<close>

section \<open>The state in the middle of a swap\<close>

text \<open>
  \<open>f\<close> is the tree when the swap began, \<open>g\<close> the tree now, \<open>D\<close> the destination with the stage
  \<open>sn\<close> and the aside directory \<open>an\<close> in it.  The entries \<open>M\<close> are set aside, the entries
  \<open>P\<close> hold what was staged, and the entries \<open>Q\<close> left the stage.
\<close>

definition swapState :: "path \<Rightarrow> gostr \<Rightarrow> gostr \<Rightarrow> (path \<Rightarrow> node option) \<Rightarrow> gostr set \<Rightarrow> gostr set \<Rightarrow> gostr set
    \<Rightarrow> (path \<Rightarrow> node option) \<Rightarrow> bool" where
  "swapState D sn an f M P Q g \<longleftrightarrow>
     (\<forall>n r. n \<noteq> sn \<longrightarrow> n \<noteq> an \<longrightarrow>
        g (D @ n # r) = (if n \<in> P then f (D @ sn # n # r) else if n \<in> M then None else f (D @ n # r)))
     \<and> (\<forall>n r. g (D @ an # n # r) = (if n \<in> M then f (D @ n # r) else None))
     \<and> (\<forall>n r. n \<notin> Q \<longrightarrow> g (D @ sn # n # r) = f (D @ sn # n # r))
     \<and> (\<forall>q. \<not> inTree D q \<or> q = D \<longrightarrow> g q = f q)"

lemma swapState_entry:
  "swapState D sn an f M P Q g \<Longrightarrow> n \<noteq> sn \<Longrightarrow> n \<noteq> an \<Longrightarrow>
     g (D @ n # r) = (if n \<in> P then f (D @ sn # n # r) else if n \<in> M then None else f (D @ n # r))"
  unfolding swapState_def by blast

lemma swapState_aside:
  "swapState D sn an f M P Q g \<Longrightarrow> g (D @ an # n # r) = (if n \<in> M then f (D @ n # r) else None)"
  unfolding swapState_def by blast

lemma swapState_stage:
  "swapState D sn an f M P Q g \<Longrightarrow> n \<notin> Q \<Longrightarrow> g (D @ sn # n # r) = f (D @ sn # n # r)"
  unfolding swapState_def by blast

lemma swapState_outside:
  "swapState D sn an f M P Q g \<Longrightarrow> \<not> inTree D q \<or> q = D \<Longrightarrow> g q = f q"
  unfolding swapState_def by blast

lemma swapStateI:
  assumes "\<And>n r. n \<noteq> sn \<Longrightarrow> n \<noteq> an \<Longrightarrow>
        g (D @ n # r) = (if n \<in> P then f (D @ sn # n # r) else if n \<in> M then None else f (D @ n # r))"
    and "\<And>n r. g (D @ an # n # r) = (if n \<in> M then f (D @ n # r) else None)"
    and "\<And>n r. n \<notin> Q \<Longrightarrow> g (D @ sn # n # r) = f (D @ sn # n # r)"
    and "\<And>q. \<not> inTree D q \<or> q = D \<Longrightarrow> g q = f q"
  shows "swapState D sn an f M P Q g"
  unfolding swapState_def using assms by simp

text \<open>A rename within the destination.\<close>

lemma rename_in:
  assumes "osRename (D @ a) (D @ b) s = (Inr (), t)" "\<not> (a = b)"
  shows "\<And>q. \<not> inTree D q \<or> q = D \<Longrightarrow> lk t q = lk s q"
    and "\<And>q. lk t (D @ q) = (if inTree b q then lk s (D @ a @ drop (length b) q) else if inTree a q then None else lk s (D @ q))"
    and "lk s (D @ a) \<noteq> None" and "\<not> inTree a b" and "\<not> inTree b a"
proof -
  have *: "lk s (D @ a) \<noteq> None \<and> \<not> inTree a b \<and> \<not> inTree b a \<and> tree t = mvTree (D @ a) (D @ b) (tree s)"
    using assms by (cases rule: osRename_out [OF assms(1)]) auto
  then show "lk s (D @ a) \<noteq> None" and na: "\<not> inTree a b" and nb: "\<not> inTree b a" by simp_all
  have lkt: "lk t = (\<lambda>p. if inTree (D @ b) p then lk s ((D @ a) @ drop (length (D @ b)) p)
    else if inTree (D @ a) p then None else lk s p)"
    using * look_mvTree [of "D @ a" "D @ b" "tree s"] by simp
  show "lk t (D @ q) = (if inTree b q then lk s (D @ a @ drop (length b) q) else if inTree a q then None else lk s (D @ q))" for q
    by (simp add: lkt)
  show "lk t q = lk s q" if "\<not> inTree D q \<or> q = D" for q
  proof -
    have "a \<noteq> []" "b \<noteq> []" using na nb by auto
    then have "\<not> inTree (D @ b) q" "\<not> inTree (D @ a) q" using that by (auto simp: inTree_iff)
    then show ?thesis by (simp add: lkt)
  qed
qed

lemma to_aside:
  assumes st: "swapState D sn an f M {} Q (lk s)" and n: "n \<notin> M" "n \<noteq> sn" "n \<noteq> an" "sn \<noteq> an"
    and run: "osRename (D @ [n]) (D @ [an, n]) s = (Inr (), t)"
  shows "swapState D sn an f (insert n M) {} Q (lk t)"
proof -
  have ne: "[n] \<noteq> [an, n]" by simp
  note mv = rename_in [OF run ne]
  show ?thesis
  proof (rule swapStateI)
    fix m r assume "m \<noteq> sn" "m \<noteq> an"
    with n show "lk t (D @ m # r) = (if m \<in> {} then f (D @ sn # m # r) else if m \<in> insert n M then None else f (D @ m # r))"
      using swapState_entry [OF st, of m r] by (auto simp: mv(2))
  next
    fix m r
    show "lk t (D @ an # m # r) = (if m \<in> insert n M then f (D @ m # r) else None)"
      using swapState_aside [OF st, of m r] swapState_entry [OF st, of n r] n by (auto simp: mv(2))
  next
    fix m r assume "m \<notin> Q"
    then show "lk t (D @ sn # m # r) = f (D @ sn # m # r)"
      using swapState_stage [OF st, of m r] n by (auto simp: mv(2))
  next
    fix q assume "\<not> inTree D q \<or> q = D"
    then show "lk t q = f q" using mv(1) swapState_outside [OF st] by metis
  qed
qed

lemma to_dest:
  assumes st: "swapState D sn an f M P P (lk s)" and n: "n \<notin> P" "n \<noteq> sn" "n \<noteq> an" "sn \<noteq> an"
    and run: "osRename (D @ [sn, n]) (D @ [n]) s = (Inr (), t)"
  shows "swapState D sn an f M (insert n P) (insert n P) (lk t)"
proof -
  have ne: "[sn, n] \<noteq> [n]" by simp
  note mv = rename_in [OF run ne]
  show ?thesis
  proof (rule swapStateI)
    fix m r assume "m \<noteq> sn" "m \<noteq> an"
    with n show "lk t (D @ m # r) = (if m \<in> insert n P then f (D @ sn # m # r) else if m \<in> M then None else f (D @ m # r))"
      using swapState_entry [OF st, of m r] swapState_stage [OF st, of n r] by (auto simp: mv(2))
  next
    fix m r
    show "lk t (D @ an # m # r) = (if m \<in> M then f (D @ m # r) else None)"
      using swapState_aside [OF st, of m r] n by (auto simp: mv(2))
  next
    fix m r assume "m \<notin> insert n P"
    then show "lk t (D @ sn # m # r) = f (D @ sn # m # r)"
      using swapState_stage [OF st, of m r] n by (auto simp: mv(2))
  next
    fix q assume "\<not> inTree D q \<or> q = D"
    then show "lk t q = f q" using mv(1) swapState_outside [OF st] by metis
  qed
qed

lemma from_aside:
  assumes st: "swapState D sn an f M P Q (lk s)" and n: "n \<in> M" "n \<noteq> sn" "n \<noteq> an" "sn \<noteq> an"
    and run: "osRename (D @ [an, n]) (D @ [n]) s = (Inr (), t)"
  shows "swapState D sn an f (M - {n}) (P - {n}) Q (lk t)"
proof -
  have ne: "[an, n] \<noteq> [n]" by simp
  note mv = rename_in [OF run ne]
  show ?thesis
  proof (rule swapStateI)
    fix m r assume "m \<noteq> sn" "m \<noteq> an"
    with n show "lk t (D @ m # r) = (if m \<in> P - {n} then f (D @ sn # m # r) else if m \<in> M - {n} then None else f (D @ m # r))"
      using swapState_entry [OF st, of m r] swapState_aside [OF st, of n r] by (auto simp: mv(2))
  next
    fix m r
    show "lk t (D @ an # m # r) = (if m \<in> M - {n} then f (D @ m # r) else None)"
      using swapState_aside [OF st, of m r] n by (auto simp: mv(2))
  next
    fix m r assume "m \<notin> Q"
    then show "lk t (D @ sn # m # r) = f (D @ sn # m # r)"
      using swapState_stage [OF st, of m r] n by (auto simp: mv(2))
  next
    fix q assume "\<not> inTree D q \<or> q = D"
    then show "lk t q = f q" using mv(1) swapState_outside [OF st] by metis
  qed
qed

lemma gone:
  assumes st: "swapState D sn an f M P Q (lk s)" and n: "n \<notin> M" "n \<noteq> sn" "n \<noteq> an" "\<And>r. f (D @ n # r) = None"
    and t: "okFs t" "lk t = (lk s)(D @ [n] := None)"
  shows "swapState D sn an f M (P - {n}) Q (lk t)"
proof -
  have nr: "lk t (D @ n # r) = None" for r
  proof (cases "r = []")
    case True
    with t show ?thesis by simp
  next
    case False
    have "lk t (D @ [n]) \<noteq> Some DirN" using t(2) by simp
    from okTree_notdir [OF t(1) this False] show ?thesis by simp
  qed
  show ?thesis
  proof (rule swapStateI)
    fix m r assume "m \<noteq> sn" "m \<noteq> an"
    with n show "lk t (D @ m # r) = (if m \<in> P - {n} then f (D @ sn # m # r) else if m \<in> M then None else f (D @ m # r))"
      using swapState_entry [OF st, of m r] nr by (cases "m = n") (auto simp: t(2))
  next
    fix m r
    show "lk t (D @ an # m # r) = (if m \<in> M then f (D @ m # r) else None)"
      using swapState_aside [OF st, of m r] by (simp add: t(2))
  next
    fix m r assume "m \<notin> Q"
    then show "lk t (D @ sn # m # r) = f (D @ sn # m # r)"
      using swapState_stage [OF st, of m r] by (simp add: t(2))
  next
    fix q assume "\<not> inTree D q \<or> q = D"
    then show "lk t q = f q" using swapState_outside [OF st, of q] t(2) by (auto simp: inTree_iff)
  qed
qed

section \<open>The loops\<close>

abbreviation layout :: "swap \<Rightarrow> path \<Rightarrow> gostr \<Rightarrow> gostr \<Rightarrow> bool" where
  "layout sw D sn an \<equiv> dest sw = D \<and> stage sw = D @ [sn] \<and> aside sw = D @ [an]"

lemma setAside_res:
  assumes "setAside sw n s = (r, t)" "layout sw D sn an" "sn \<noteq> an" "n \<noteq> sn" "n \<noteq> an" "okFs s"
    and st: "swapState D sn an f (set (moved sw)) {} Q (lk s)" "distinct (moved sw)"
  shows "okFs t \<and> (case r of
      Inl e \<Rightarrow> swapState D sn an f (set (moved sw)) {} Q (lk t)
    | Inr sw' \<Rightarrow> layout sw' D sn an \<and> placed sw' = placed sw \<and> distinct (moved sw')
        \<and> set (moved sw) \<subseteq> set (moved sw') \<and> set (moved sw') \<subseteq> insert n (set (moved sw))
        \<and> swapState D sn an f (set (moved sw')) {} Q (lk t) \<and> (n \<in> set (moved sw') \<or> f (D @ [n]) = None))"
proof -
  obtain r1 s1 where os: "osStat (D @ [n]) s = (r1, s1)" by (cases "osStat (D @ [n]) s")
  note o' = osStat_res [OF os]
  have ok1: "okFs s1" and st1: "swapState D sn an f (set (moved sw)) {} Q (lk s1)" using o' assms(6) st by simp_all
  note run = assms(1) [unfolded setAside_def]
  show ?thesis
  proof (cases r1)
    case (Inl e)
    show ?thesis
    proof (cases "isNotExist e")
      case True
      then have "r = Inr sw" "t = s1" using run os assms(2) Inl by (auto simp: andThen_def observe_apply)
      moreover have "n \<in> set (moved sw) \<or> f (D @ [n]) = None"
        using o' Inl True swapState_entry [OF st(1), of n "[]"] assms(4,5) by (auto split: if_splits)
      ultimately show ?thesis using ok1 st1 st(2) assms(2) by auto
    next
      case False
      then have "r = Inl e" "t = s1" using run os assms(2) Inl by (auto simp: andThen_def observe_apply)
      with ok1 st1 show ?thesis by simp
    qed
  next
    case (Inr k)
    then have some: "lk s (D @ [n]) = Some k" using o' by simp
    then have nm: "n \<notin> set (moved sw)" using swapState_entry [OF st(1), of n "[]"] assms(4,5) by auto
    obtain r2 s2 where rn: "osRename (D @ [n]) (D @ [an, n]) s1 = (r2, s2)" by (cases "osRename (D @ [n]) (D @ [an, n]) s1")
    have ok2: "okFs s2" by (rule keepsD [OF osRename_ok ok1 rn])
    show ?thesis
    proof (cases r2)
      case e: (Inl e)
      then have "r = Inl e" "t = s2" using run os assms(2) Inr rn by (auto simp: andThen_def observe_apply)
      moreover have "tree s2 = tree s1" using rn e by (cases rule: osRename_out [OF rn]) auto
      ultimately show ?thesis using ok2 st1 by simp
    next
      case u: (Inr u)
      then have "r = Inr (sw\<lparr>moved := moved sw @ [n]\<rparr>)" "t = s2"
        using run os assms(2) Inr rn by (auto simp: andThen_def observe_apply)
      moreover have "swapState D sn an f (insert n (set (moved sw))) {} Q (lk s2)"
        using to_aside [OF st1 nm assms(4,5,3)] rn u by simp
      ultimately show ?thesis using ok2 st(2) nm assms(2) by auto
    qed
  qed
qed

lemma asideEach_res:
  assumes "asideEach sw ns s = (r, t)" "layout sw D sn an" "sn \<noteq> an" "sn \<notin> set ns" "an \<notin> set ns" "okFs s"
    and "swapState D sn an f (set (moved sw)) {} Q (lk s)" "distinct (moved sw)"
  shows "\<exists>sw' fo. r = Inr (sw', fo) \<and> okFs t \<and> layout sw' D sn an \<and> placed sw' = placed sw \<and> distinct (moved sw')
    \<and> set (moved sw) \<subseteq> set (moved sw') \<and> set (moved sw') \<subseteq> set ns \<union> set (moved sw)
    \<and> swapState D sn an f (set (moved sw')) {} Q (lk t)
    \<and> (fo = None \<longrightarrow> (\<forall>n \<in> set ns. n \<in> set (moved sw') \<or> f (D @ [n]) = None))"
  using assms
proof (induction ns arbitrary: sw s)
  case Nil
  then show ?case by auto
next
  case (Cons n ns)
  obtain r1 s1 where sa: "setAside sw n s = (r1, s1)" by (cases "setAside sw n s")
  have nn: "n \<noteq> sn" "n \<noteq> an" using Cons.prems by auto
  note one = setAside_res [OF sa Cons.prems(2,3) nn Cons.prems(6,7,8)]
  show ?case
  proof (cases r1)
    case (Inl e)
    then have "\<exists>x. r = Inr (sw, Some x)" "t = s1" using Cons.prems(1) sa by (auto simp: andThen_def observe_apply)
    with one Inl Cons.prems show ?thesis by auto
  next
    case (Inr sw1)
    then have run: "asideEach sw1 ns s1 = (r, t)" using Cons.prems(1) sa by (simp add: andThen_def observe_apply)
    have one': "okFs s1" "layout sw1 D sn an" "placed sw1 = placed sw" "distinct (moved sw1)"
        "set (moved sw) \<subseteq> set (moved sw1)" "set (moved sw1) \<subseteq> insert n (set (moved sw))"
        "swapState D sn an f (set (moved sw1)) {} Q (lk s1)" "n \<in> set (moved sw1) \<or> f (D @ [n]) = None"
      using one Inr by auto
    have "sn \<notin> set ns" "an \<notin> set ns" using Cons.prems by auto
    from Cons.IH [OF run one'(2) Cons.prems(3) this one'(1,7,4)] obtain sw' fo where
      IH: "r = Inr (sw', fo)" "okFs t" "layout sw' D sn an" "placed sw' = placed sw1" "distinct (moved sw')"
        "set (moved sw1) \<subseteq> set (moved sw')" "set (moved sw') \<subseteq> set ns \<union> set (moved sw1)"
        "swapState D sn an f (set (moved sw')) {} Q (lk t)"
        "fo = None \<longrightarrow> (\<forall>n \<in> set ns. n \<in> set (moved sw') \<or> f (D @ [n]) = None)" by blast
    have "set (moved sw) \<subseteq> set (moved sw')" "set (moved sw') \<subseteq> set (n # ns) \<union> set (moved sw)"
      using IH(6,7) one'(5,6) by auto
    moreover have "fo = None \<longrightarrow> (\<forall>m \<in> set (n # ns). m \<in> set (moved sw') \<or> f (D @ [m]) = None)"
      using IH(6,9) one'(8) by auto
    ultimately show ?thesis using IH one'(3) by auto
  qed
qed

lemma placeEach_res:
  assumes "placeEach sw ns s = (r, t)" "layout sw D sn an" "sn \<noteq> an" "sn \<notin> set ns" "an \<notin> set ns" "okFs s"
    and "swapState D sn an f (set (moved sw)) (set (placed sw)) (set (placed sw)) (lk s)"
    and "distinct ns" "set ns \<inter> set (placed sw) = {}"
  shows "\<exists>sw' fo. r = Inr (sw', fo) \<and> okFs t \<and> layout sw' D sn an \<and> moved sw' = moved sw
    \<and> set (placed sw') \<subseteq> set ns \<union> set (placed sw)
    \<and> swapState D sn an f (set (moved sw)) (set (placed sw')) (set (placed sw')) (lk t)
    \<and> (fo = None \<longrightarrow> set (placed sw') = set ns \<union> set (placed sw))"
  using assms
proof (induction ns arbitrary: sw s)
  case Nil
  then show ?case by auto
next
  case (Cons n ns)
  obtain r1 s1 where rn: "osRename (D @ [sn, n]) (D @ [n]) s = (r1, s1)" by (cases "osRename (D @ [sn, n]) (D @ [n]) s")
  have ok1: "okFs s1" by (rule keepsD [OF osRename_ok Cons.prems(6) rn])
  have nn: "n \<noteq> sn" "n \<noteq> an" "n \<notin> set (placed sw)" using Cons.prems by auto
  show ?case
  proof (cases r1)
    case (Inl e)
    then have "\<exists>x. r = Inr (sw, Some x)" "t = s1" using Cons.prems(1,2) rn by (auto simp: andThen_def observe_apply)
    moreover have "tree s1 = tree s" using rn Inl by (cases rule: osRename_out [OF rn]) auto
    ultimately show ?thesis using Cons.prems ok1 by auto
  next
    case (Inr u)
    let ?sw = "sw\<lparr>placed := placed sw @ [n]\<rparr>"
    have run: "placeEach ?sw ns s1 = (r, t)" using Cons.prems(1,2) rn Inr by (simp add: andThen_def observe_apply)
    have "swapState D sn an f (set (moved sw)) (insert n (set (placed sw))) (insert n (set (placed sw))) (lk s1)"
      using to_dest [OF Cons.prems(7) nn(3,1,2) Cons.prems(3)] rn Inr by simp
    then have st1: "swapState D sn an f (set (moved ?sw)) (set (placed ?sw)) (set (placed ?sw)) (lk s1)" by simp
    have w: "layout ?sw D sn an" using Cons.prems(2) by simp
    have side: "sn \<notin> set ns" "an \<notin> set ns" "distinct ns" "set ns \<inter> set (placed ?sw) = {}" using Cons.prems by auto
    from Cons.IH [OF run w Cons.prems(3) side(1,2) ok1 st1 side(3,4)] show ?thesis by auto
  qed
qed

lemma removePlaced_res:
  assumes "removePlaced sw ns stuck s = (r, t)" "layout sw D sn an" "sn \<notin> set ns" "an \<notin> set ns" "okFs s"
    and "swapState D sn an f (set (moved sw)) P Q (lk s)"
    and fresh: "\<And>n q. n \<in> set ns \<Longrightarrow> n \<notin> set (moved sw) \<Longrightarrow> f (D @ n # q) = None"
  shows "\<exists>stuck' P'. r = Inr stuck' \<and> okFs t \<and> P' \<subseteq> P \<and> swapState D sn an f (set (moved sw)) P' Q (lk t)
    \<and> (stuck' = [] \<longrightarrow> stuck = [] \<and> (\<forall>n \<in> set ns. n \<notin> set (moved sw) \<longrightarrow> n \<notin> P'))"
  using assms
proof (induction ns arbitrary: s stuck P)
  case Nil
  then show ?case by auto
next
  case (Cons n ns)
  have side: "sn \<notin> set ns" "an \<notin> set ns" "n \<noteq> sn" "n \<noteq> an" using Cons.prems by auto
  have fresh': "\<And>m q. m \<in> set ns \<Longrightarrow> m \<notin> set (moved sw) \<Longrightarrow> f (D @ m # q) = None" using Cons.prems(7) by simp
  show ?case
  proof (cases "n \<in> set (moved sw)")
    case True
    with Cons.prems(1) have "removePlaced sw ns stuck s = (r, t)" by simp
    from Cons.IH [OF this Cons.prems(2) side(1,2) Cons.prems(5,6) fresh'] True show ?thesis by auto
  next
    case False
    obtain r1 s1 where rm: "osRemove (D @ [n]) s = (r1, s1)" by (cases "osRemove (D @ [n]) s")
    have ok1: "okFs s1" by (rule keepsD [OF osRemove_ok Cons.prems(5) rm])
    have fn: "\<And>q. f (D @ n # q) = None" using Cons.prems(7) False by simp
    note res = osRemove_res [OF rm]
    show ?thesis
    proof (cases "\<exists>e. r1 = Inl e \<and> \<not> isNotExist e")
      case True
      then obtain e where e: "r1 = Inl e" "\<not> isNotExist e" by blast
      with Cons.prems(1,2) rm False have run: "removePlaced sw ns (stuck @ [n]) s1 = (r, t)"
        by (simp add: andThen_def observe_apply)
      have "tree s1 = tree s" using res e by auto
      then have "swapState D sn an f (set (moved sw)) P Q (lk s1)" using Cons.prems(6) by simp
      from Cons.IH [OF run Cons.prems(2) side(1,2) ok1 this fresh'] show ?thesis by auto
    next
      case nf: False
      then have run: "removePlaced sw ns stuck s1 = (r, t)" using Cons.prems(1,2) rm False
        by (cases r1) (auto simp: andThen_def observe_apply)
      have "lk s1 = (lk s)(D @ [n] := None)" using res nf by (auto simp: look_del fun_upd_idem)
      from gone [OF Cons.prems(6) False side(3,4) fn ok1 this]
      have st1: "swapState D sn an f (set (moved sw)) (P - {n}) Q (lk s1)" .
      from Cons.IH [OF run Cons.prems(2) side(1,2) ok1 st1 fresh'] obtain stuck' P' where
        "r = Inr stuck'" "okFs t" "P' \<subseteq> P - {n}" "swapState D sn an f (set (moved sw)) P' Q (lk t)"
        "stuck' = [] \<longrightarrow> stuck = [] \<and> (\<forall>n \<in> set ns. n \<notin> set (moved sw) \<longrightarrow> n \<notin> P')" by blast
      then show ?thesis by (intro exI [of _ stuck'] exI [of _ P']) auto
    qed
  qed
qed

lemma moveBack_res:
  assumes "moveBack sw ns stuck s = (r, t)" "layout sw D sn an" "sn \<noteq> an" "sn \<notin> set ns" "an \<notin> set ns" "okFs s"
    and "swapState D sn an f M P Q (lk s)" "distinct ns" "set ns \<subseteq> M"
  shows "\<exists>stuck' M' P'. r = Inr stuck' \<and> okFs t \<and> M' \<subseteq> M \<and> P' \<subseteq> P \<and> P' \<inter> (M - M') = {}
    \<and> swapState D sn an f M' P' Q (lk t)
    \<and> (stuck' = [] \<longrightarrow> stuck = [] \<and> M' \<inter> set ns = {} \<and> P' \<inter> set ns = {})"
  using assms
proof (induction ns arbitrary: s stuck M P)
  case Nil
  then show ?case by auto
next
  case (Cons n ns)
  have side: "sn \<notin> set ns" "an \<notin> set ns" "n \<noteq> sn" "n \<noteq> an" "distinct ns" "n \<in> M" "n \<notin> set ns" using Cons.prems by auto
  obtain r1 s1 where rn: "osRename (D @ [an, n]) (D @ [n]) s = (r1, s1)" by (cases "osRename (D @ [an, n]) (D @ [n]) s")
  have ok1: "okFs s1" by (rule keepsD [OF osRename_ok Cons.prems(6) rn])
  show ?case
  proof (cases r1)
    case (Inl e)
    then have run: "moveBack sw ns (stuck @ [n]) s1 = (r, t)" using Cons.prems(1,2) rn by (simp add: andThen_def observe_apply)
    have "tree s1 = tree s" using rn Inl by (cases rule: osRename_out [OF rn]) auto
    then have st1: "swapState D sn an f M P Q (lk s1)" using Cons.prems(7) by simp
    have "set ns \<subseteq> M" using Cons.prems(9) by simp
    from Cons.IH [OF run Cons.prems(2,3) side(1,2) ok1 st1 side(5) this] obtain stuck' M' P' where
      "r = Inr stuck'" "okFs t" "M' \<subseteq> M" "P' \<subseteq> P" "P' \<inter> (M - M') = {}" "swapState D sn an f M' P' Q (lk t)"
      "stuck' \<noteq> []" by auto
    then show ?thesis by (intro exI [of _ stuck'] exI [of _ M'] exI [of _ P']) auto
  next
    case (Inr u)
    then have run: "moveBack sw ns stuck s1 = (r, t)" using Cons.prems(1,2) rn by (simp add: andThen_def observe_apply)
    have st1: "swapState D sn an f (M - {n}) (P - {n}) Q (lk s1)"
      using from_aside [OF Cons.prems(7) side(6,3,4) Cons.prems(3)] rn Inr by simp
    have "set ns \<subseteq> M - {n}" using Cons.prems(9) side(7) by auto
    from Cons.IH [OF run Cons.prems(2,3) side(1,2) ok1 st1 side(5) this] obtain stuck' M' P' where
      "r = Inr stuck'" "okFs t" "M' \<subseteq> M - {n}" "P' \<subseteq> P - {n}" "P' \<inter> (M - {n} - M') = {}" "swapState D sn an f M' P' Q (lk t)"
      "stuck' = [] \<longrightarrow> stuck = [] \<and> M' \<inter> set ns = {} \<and> P' \<inter> set ns = {}" by auto
    then show ?thesis by (intro exI [of _ stuck'] exI [of _ M'] exI [of _ P']) auto
  qed
qed

section \<open>The whole swap\<close>

lemma reading_syncDir: "reading (syncDir d)"
  unfolding syncDir_def by (intro reads) (auto split: sum.split intro!: reads)

lemma syncDir_res: "syncDir d s = (r, t) \<Longrightarrow> r = Inr () \<and> tree t = tree s"
proof -
  assume run: "syncDir d s = (r, t)"
  then have "r = Inr ()" by (auto simp: syncDir_def andThen_def observe_apply attempt_def split: prod.splits sum.splits)
  with readingD [OF reading_syncDir run] show ?thesis by simp
qed

lemma abort_res:
  assumes run: "abort sw cause s = (r, t)" and w: "layout sw D sn an" "sn \<noteq> an"
    and side: "sn \<notin> set (placed sw)" "an \<notin> set (placed sw)" "sn \<notin> set (moved sw)" "an \<notin> set (moved sw)"
    and ok: "okFs s" and st: "swapState D sn an f (set (moved sw)) (set (placed sw)) Q (lk s)"
    and d: "distinct (moved sw)"
    and fresh: "\<And>n q. n \<in> set (placed sw) \<Longrightarrow> n \<notin> set (moved sw) \<Longrightarrow> f (D @ n # q) = None"
  shows "okFs t \<and> (r = Inl (Note cause backInPlace) \<and> (\<forall>q. \<not> inTree (D @ [an]) q \<longrightarrow> \<not> inTree (D @ [sn]) q \<longrightarrow> lk t q = f q)
    \<or> r = Inl (Note cause halfReplaced)
       \<and> (\<exists>M P. M \<subseteq> set (moved sw) \<and> P \<subseteq> set (placed sw) \<and> swapState D sn an f M P Q (lk t)
            \<and> set (moved sw) - M \<subseteq> - P))"
proof -
  obtain r1 s1 where rp: "removePlaced sw (placed sw) [] s = (r1, s1)" by (cases "removePlaced sw (placed sw) [] s")
  from removePlaced_res [OF rp w(1) side(1,2) ok st fresh] obtain stuck1 P1 where
    one: "r1 = Inr stuck1" "okFs s1" "P1 \<subseteq> set (placed sw)" "swapState D sn an f (set (moved sw)) P1 Q (lk s1)"
      "stuck1 = [] \<longrightarrow> (\<forall>n \<in> set (placed sw). n \<notin> set (moved sw) \<longrightarrow> n \<notin> P1)" by auto
  obtain r2 s2 where mb: "moveBack sw (rev (moved sw)) stuck1 s1 = (r2, s2)" by (cases "moveBack sw (rev (moved sw)) stuck1 s1")
  have "sn \<notin> set (rev (moved sw))" "an \<notin> set (rev (moved sw))" "distinct (rev (moved sw))" "set (rev (moved sw)) \<subseteq> set (moved sw)"
    using side d by simp_all
  from moveBack_res [OF mb w this(1,2) one(2,4) this(3,4)] obtain stuck2 M2 P2 where
    two: "r2 = Inr stuck2" "okFs s2" "M2 \<subseteq> set (moved sw)" "P2 \<subseteq> P1" "P2 \<inter> (set (moved sw) - M2) = {}" "swapState D sn an f M2 P2 Q (lk s2)"
      "stuck2 = [] \<longrightarrow> stuck1 = [] \<and> M2 \<inter> set (moved sw) = {} \<and> P2 \<inter> set (moved sw) = {}" by auto
  obtain r3 s3 where sd: "syncDir D s2 = (r3, s3)" by (cases "syncDir D s2")
  note three = syncDir_res [OF sd]
  have ok3: "okFs s3" using three two(2) by simp
  have st3: "swapState D sn an f M2 P2 Q (lk s3)" using three two(6) by simp
  show ?thesis
  proof (cases "stuck2 = []")
    case True
    have M2: "M2 = {}" using two True by auto
    have P2: "P2 = {}"
    proof (rule equals0I)
      fix n assume n: "n \<in> P2"
      then have "n \<notin> set (moved sw)" "n \<in> P1" using two True by auto
      with one two True show False by blast
    qed
    obtain r4 s4 where ra: "osRemoveAll (D @ [an]) s3 = (r4, s4)" by (cases "osRemoveAll (D @ [an]) s3")
    have rt: "r = Inl (Note cause backInPlace)" "t = s4"
      using run rp mb sd one two three w ra True by (simp_all add: abort_def andThen_def attempt_def)
    have "okFs s4" by (rule keepsD [OF osRemoveAll_ok ok3 ra]) simp
    moreover have "lk t q = f q" if q: "\<not> inTree (D @ [an]) q" "\<not> inTree (D @ [sn]) q" for q
    proof -
      have "lk s4 q = lk s3 q"
        by (cases rule: osRemoveAll_out [OF ra]) (use q in \<open>simp_all add: look_delSome look_delTree\<close>)
      also have "\<dots> = f q"
      proof (cases "inTree D q \<and> q \<noteq> D")
        case True
        then obtain n m where "q = D @ n # m" unfolding inTree_iff by (metis append_Nil2 neq_Nil_conv)
        with q swapState_entry [OF st3, of n m] M2 P2 show ?thesis by auto
      next
        case False
        with swapState_outside [OF st3] show ?thesis by blast
      qed
      finally show ?thesis using rt by simp
    qed
    ultimately show ?thesis using rt by simp
  next
    case False
    have "r = Inl (Note cause halfReplaced)" "t = s3"
      using run rp mb sd one two three w False by (simp_all add: abort_def andThen_def)
    moreover have "set (moved sw) - M2 \<subseteq> - P2" "P2 \<subseteq> set (placed sw)" using two one by auto
    ultimately show ?thesis using ok3 st3 two(3) by blast
  qed
qed

lemma swapRun_res:
  assumes "okTree (tree s)" "entries (dest sw @ [an]) (tree s) = []"
    and "stage sw = dest sw @ [sn]" "aside sw = dest sw @ [an]" "moved sw = []" "placed sw = []"
    and "sn \<noteq> an" "sn \<notin> set (withSidecars names)" "an \<notin> set (withSidecars names)" "distinct names"
  shows "case swapRun sw names s of (r, t) \<Rightarrow>
    okTree (tree t) \<and>
    (\<forall>n rest. n \<noteq> sn \<longrightarrow> n \<noteq> an \<longrightarrow>
      (let before = look (tree s) (dest sw @ n # rest); now = look (tree t) (dest sw @ n # rest) in
       case r of
         Inr _ \<Rightarrow> now = (if n \<in> set names then look (tree s) (stage sw @ n # rest)
                       else if n \<in> set (withSidecars names) then None else before)
       | Inl e \<Rightarrow> (\<exists>c. e = Note c backInPlace) \<and> now = before
           \<or> (\<exists>c. e = Note c halfReplaced)
              \<and> (before = None \<or> now = before \<or> look (tree t) (aside sw @ n # rest) = before)))"
proof -
  let ?D = "dest sw" and ?f = "lk s"
  obtain r t where run: "swapRun sw names s = (r, t)" by (cases "swapRun sw names s")
  have w: "layout sw ?D sn an" using assms(3,4) by simp
  have an: "lk s (?D @ an # n # q) = None" for n q
  proof -
    have l: "lk s ((?D @ [an]) @ [n]) = None" using assms(2) by (simp add: entries_Nil)
    show ?thesis
    proof (cases "q = []")
      case True
      with l show ?thesis by simp
    next
      case False
      have "lk s ((?D @ [an]) @ [n]) \<noteq> Some DirN" using l by simp
      from okTree_notdir [OF assms(1) this False] show ?thesis by simp
    qed
  qed
  have st: "swapState ?D sn an ?f (set (moved sw)) {} {} (lk s)"
    by (rule swapStateI) (simp_all add: assms(5) an)
  have dm: "distinct (moved sw)" using assms(5) by simp
  obtain r1 s1 where ae: "asideEach sw (withSidecars names) s = (r1, s1)" by (cases "asideEach sw (withSidecars names) s")
  from asideEach_res [OF ae w assms(7,8,9,1) st dm] obtain sw1 fo where
    one: "r1 = Inr (sw1, fo)" "okFs s1" "layout sw1 ?D sn an" "placed sw1 = []" "distinct (moved sw1)"
      "set (moved sw1) \<subseteq> set (withSidecars names)" "swapState ?D sn an ?f (set (moved sw1)) {} {} (lk s1)"
      "fo = None \<longrightarrow> (\<forall>n \<in> set (withSidecars names). n \<in> set (moved sw1) \<or> ?f (?D @ [n]) = None)"
    using assms(5,6) by auto
  have sm: "sn \<notin> set (moved sw1)" "an \<notin> set (moved sw1)" using one(6) assms(8,9) by auto
  let ?G = "\<lambda>n rest before now. case r of
         Inr _ \<Rightarrow> now = (if n \<in> set names then look (tree s) (stage sw @ n # rest)
                       else if n \<in> set (withSidecars names) then None else before)
       | Inl e \<Rightarrow> (\<exists>c. e = Note c backInPlace) \<and> now = before
           \<or> (\<exists>c. e = Note c halfReplaced)
              \<and> (before = None \<or> now = before \<or> look (tree t) (aside sw @ n # rest) = before)"
  have aborted: "okFs t \<and> (\<forall>n rest. n \<noteq> sn \<longrightarrow> n \<noteq> an \<longrightarrow> ?G n rest (lk s (?D @ n # rest)) (lk t (?D @ n # rest)))"
    if ab: "abort sw2 c s2 = (r, t)" and l2: "layout sw2 ?D sn an" "moved sw2 = moved sw1" "okFs s2"
      and st2: "swapState ?D sn an ?f (set (moved sw2)) (set (placed sw2)) Q (lk s2)"
      and pl: "sn \<notin> set (placed sw2)" "an \<notin> set (placed sw2)"
      and fresh: "\<And>n q. n \<in> set (placed sw2) \<Longrightarrow> n \<notin> set (moved sw2) \<Longrightarrow> ?f (?D @ n # q) = None"
    for sw2 c s2 Q
  proof -
    have sm2: "sn \<notin> set (moved sw2)" "an \<notin> set (moved sw2)" "distinct (moved sw2)" using sm one(5) l2(2) by simp_all
    from abort_res [OF ab l2(1) assms(7) pl sm2(1,2) l2(3) st2 sm2(3) fresh]
    consider "okFs t" "r = Inl (Note c backInPlace)" "\<forall>q. \<not> inTree (?D @ [an]) q \<longrightarrow> \<not> inTree (?D @ [sn]) q \<longrightarrow> lk t q = ?f q"
      | M P where "okFs t" "r = Inl (Note c halfReplaced)" "M \<subseteq> set (moved sw2)" "P \<subseteq> set (placed sw2)"
        "swapState ?D sn an ?f M P Q (lk t)" "set (moved sw2) - M \<subseteq> - P" by blast
    then show ?thesis
    proof cases
      case 1
      have "lk t (?D @ n # rest) = lk s (?D @ n # rest)" if "n \<noteq> sn" "n \<noteq> an" for n rest
        using spec [OF 1(3), of "?D @ n # rest"] that by auto
      with 1(1,2) show ?thesis by simp
    next
      case 2
      have "lk s (?D @ n # rest) = None \<or> lk t (?D @ n # rest) = lk s (?D @ n # rest)
          \<or> lk t (aside sw @ n # rest) = lk s (?D @ n # rest)" if n: "n \<noteq> sn" "n \<noteq> an" for n rest
      proof (cases "n \<in> M")
        case True
        with swapState_aside [OF 2(5), of n rest] w show ?thesis by simp
      next
        case nM: False
        show ?thesis
        proof (cases "n \<in> P")
          case True
          then have "n \<in> set (placed sw2)" "n \<notin> set (moved sw2)" using 2(4,6) nM by blast+
          with fresh [of n rest] show ?thesis by simp
        next
          case False
          with swapState_entry [OF 2(5) n, of rest] nM show ?thesis by simp
        qed
      qed
      with 2(1,2) show ?thesis by simp
    qed
  qed
  have "okFs t \<and> (\<forall>n rest. n \<noteq> sn \<longrightarrow> n \<noteq> an \<longrightarrow> ?G n rest (lk s (?D @ n # rest)) (lk t (?D @ n # rest)))"
  proof (cases fo)
    case (Some c)
    then have ab: "abort sw1 c s1 = (r, t)" using run ae one(1) by (simp add: swapRun_def andThen_def)
    show ?thesis by (rule aborted [OF ab one(3) refl one(2)]) (use one in simp_all)
  next
    case None
    have moved: "n \<in> set (moved sw1) \<or> ?f (?D @ [n]) = None" if "n \<in> set (withSidecars names)" for n
      by (rule bspec [OF mp [OF one(8) None] that])
    have none: "?f (?D @ n # q) = None" if n: "n \<in> set (withSidecars names)" "n \<notin> set (moved sw1)" for n q
    proof -
      have l: "lk s (?D @ [n]) = None" using moved n by blast
      then have "lk s (?D @ [n]) \<noteq> Some DirN" by simp
      from okTree_notdir [OF assms(1) this, of q] l show ?thesis by (cases "q = []") auto
    qed
    have sub: "set names \<subseteq> set (withSidecars names)" by (auto simp: withSidecars_def)
    obtain r2 s2 where pe: "placeEach sw1 names s1 = (r2, s2)" by (cases "placeEach sw1 names s1")
    have st1: "swapState ?D sn an ?f (set (moved sw1)) (set (placed sw1)) (set (placed sw1)) (lk s1)" using one by simp
    have "sn \<notin> set names" "an \<notin> set names" "set names \<inter> set (placed sw1) = {}" using sub assms(8,9) one(4) by auto
    from placeEach_res [OF pe one(3) assms(7) this(1,2) one(2) st1 assms(10) this(3)] obtain sw2 fo2 where
      two: "r2 = Inr (sw2, fo2)" "okFs s2" "layout sw2 ?D sn an" "moved sw2 = moved sw1" "set (placed sw2) \<subseteq> set names"
        "swapState ?D sn an ?f (set (moved sw1)) (set (placed sw2)) (set (placed sw2)) (lk s2)"
        "fo2 = None \<longrightarrow> set (placed sw2) = set names" using one(4) by auto
    show ?thesis
    proof (cases fo2)
      case (Some c)
      then have ab: "abort sw2 c s2 = (r, t)" using run ae pe one(1) two(1) None by (simp add: swapRun_def andThen_def)
      have st2: "swapState ?D sn an ?f (set (moved sw2)) (set (placed sw2)) (set (placed sw2)) (lk s2)" using two(4,6) by simp
      have side: "sn \<notin> set (placed sw2)" "an \<notin> set (placed sw2)" using two(5) sub assms(8,9) by auto
      have fresh: "?f (?D @ n # q) = None" if "n \<in> set (placed sw2)" "n \<notin> set (moved sw2)" for n q
        using none [of n q] that two(4,5) sub by auto
      show ?thesis by (rule aborted [OF ab two(3,4,2) st2 side fresh])
    next
      case n2: None
      then have rt: "r = Inr ()" "t = s2" using run ae pe one(1) two(1) None by (simp_all add: swapRun_def andThen_def)
      have P: "set (placed sw2) = set names" using two(7) n2 by simp
      have "lk t (?D @ n # rest) = (if n \<in> set names then lk s (stage sw @ n # rest)
          else if n \<in> set (withSidecars names) then None else lk s (?D @ n # rest))" if n: "n \<noteq> sn" "n \<noteq> an" for n rest
        using swapState_entry [OF two(6) n, of rest] none [of n rest] one(6) w P rt by auto
      with rt two(2) show ?thesis by simp
    qed
  qed
  with run show ?thesis by (simp add: Let_def)
qed

text \<open>
  Claim C2.  The swap of a restore is all or nothing, or says that it is not.  With the staged files
  in one directory and an empty aside directory, both in the destination, whatever rename or
  removal fails: on success every entry that was staged has exactly the staged content, the
  \<open>.wal\<close> and \<open>.tmp\<close> beside it are gone, and the rest of the destination is as before; an error that
  says nothing was replaced leaves every entry of the destination as before; any other error
  leaves every entry there was either in place or, whole, in the aside directory.
\<close>

theorem swap_all_or_nothing:
  assumes "okTree (tree s)" "entries (dest sw @ [an]) (tree s) = []"
    and "stage sw = dest sw @ [sn]" "aside sw = dest sw @ [an]" "moved sw = []" "placed sw = []"
    and "sn \<noteq> an" "sn \<notin> set (withSidecars names)" "an \<notin> set (withSidecars names)" "distinct names"
  shows "case swapRun sw names s of (r, t) \<Rightarrow>
    okTree (tree t) \<and>
    (\<forall>n rest. n \<noteq> sn \<longrightarrow> n \<noteq> an \<longrightarrow>
      (let before = look (tree s) (dest sw @ n # rest); now = look (tree t) (dest sw @ n # rest) in
       case r of
         Inr _ \<Rightarrow> now = (if n \<in> set names then look (tree s) (stage sw @ n # rest)
                       else if n \<in> set (withSidecars names) then None else before)
       | Inl e \<Rightarrow> (\<exists>c. e = Note c backInPlace) \<and> now = before
           \<or> (\<exists>c. e = Note c halfReplaced)
              \<and> (before = None \<or> now = before \<or> look (tree t) (aside sw @ n # rest) = before)))"
  by (rule swapRun_res [OF assms])

definition swapSample :: "fault list \<Rightarrow> fsys" where
  "swapSample fs = \<lparr>tree = [([lit ''d'', lit ''S'', lit ''x''], FileN (lit ''new'') 384), ([lit ''d'', lit ''x''], FileN (lit ''old'') 384),
     ([lit ''d'', lit ''S''], DirN), ([lit ''d'', lit ''A''], DirN), ([lit ''d''], DirN)],
     faults = fs, rand = [], rounds = [], started = 0, flocked = []\<rparr>"

lemma swapSample_ok: "okTree (tree (swapSample fs))"
  by (auto simp: okTree_def swapSample_def look_def Cons_eq_append_conv append_eq_Cons_conv)

definition sampleSwap :: swap where
  "sampleSwap = \<lparr>dest = [lit ''d''], stage = [lit ''d'', lit ''S''], aside = [lit ''d'', lit ''A''], moved = [], placed = []\<rparr>"

text \<open>The move into place fails, so the old file comes back.\<close>

theorem swap_all_or_nothing_witness:
  "fst (swapRun sampleSwap [lit ''x''] (swapSample [Fine, Fine, Fine, Fine, Fails (OsErr ''full'') 0]))
      = Inl (Note (Wrap ''writing: '' (OsErr ''full'')) backInPlace)
   \<and> look (tree (snd (swapRun sampleSwap [lit ''x''] (swapSample [Fine, Fine, Fine, Fine, Fails (OsErr ''full'') 0]))))
        [lit ''d'', lit ''x''] = Some (FileN (lit ''old'') 384)"
proof
  let ?s = "swapSample [Fine, Fine, Fine, Fine, Fails (OsErr ''full'') 0]"
  obtain r t where run: "swapRun sampleSwap [lit ''x''] ?s = (r, t)" by (cases "swapRun sampleSwap [lit ''x''] ?s")
  have "fst (swapRun sampleSwap [lit ''x''] ?s) = Inl (Note (Wrap ''writing: '' (OsErr ''full'')) backInPlace)" by code_simp
  then show r: "fst (swapRun sampleSwap [lit ''x''] ?s) = Inl (Note (Wrap ''writing: '' (OsErr ''full'')) backInPlace)" .
  then have r': "r = Inl (Note (Wrap ''writing: '' (OsErr ''full'')) backInPlace)" using run by simp
  have hyps: "entries (dest sampleSwap @ [lit ''A'']) (tree ?s) = []" "stage sampleSwap = dest sampleSwap @ [lit ''S'']"
    "aside sampleSwap = dest sampleSwap @ [lit ''A'']" "moved sampleSwap = []" "placed sampleSwap = []" "lit ''S'' \<noteq> lit ''A''"
    "lit ''S'' \<notin> set (withSidecars [lit ''x''])" "lit ''A'' \<notin> set (withSidecars [lit ''x''])" "distinct [lit ''x'']"
    by code_simp+
  have ne: "lit ''x'' \<noteq> lit ''S''" "lit ''x'' \<noteq> lit ''A''" by simp_all
  have old: "look (tree ?s) (dest sampleSwap @ lit ''x'' # []) = Some (FileN (lit ''old'') 384)" by code_simp
  have bh: "backInPlace \<noteq> halfReplaced" by (simp add: backInPlace_def halfReplaced_def)
  have all: "\<forall>n rest. n \<noteq> lit ''S'' \<longrightarrow> n \<noteq> lit ''A'' \<longrightarrow>
      (let before = look (tree ?s) (dest sampleSwap @ n # rest); now = look (tree t) (dest sampleSwap @ n # rest) in
       case r of
         Inr _ \<Rightarrow> now = (if n \<in> set [lit ''x''] then look (tree ?s) (stage sampleSwap @ n # rest)
                       else if n \<in> set (withSidecars [lit ''x'']) then None else before)
       | Inl e \<Rightarrow> (\<exists>c. e = Note c backInPlace) \<and> now = before
           \<or> (\<exists>c. e = Note c halfReplaced)
              \<and> (before = None \<or> now = before \<or> look (tree t) (aside sampleSwap @ n # rest) = before))"
    using swap_all_or_nothing [OF swapSample_ok hyps] unfolding run prod.case by (rule conjunct2)
  have "look (tree t) (dest sampleSwap @ lit ''x'' # []) = look (tree ?s) (dest sampleSwap @ lit ''x'' # [])"
    using mp [OF mp [OF spec [OF spec [OF all, of "lit ''x''"], of "[]"] ne(1)] ne(2)] bh
    unfolding r' Let_def sum.case by blast
  then show "look (tree (snd (swapRun sampleSwap [lit ''x''] ?s))) [lit ''d'', lit ''x''] = Some (FileN (lit ''old'') 384)"
    using run old by (simp add: sampleSwap_def)
qed

end
