(* ===== verification/BackupRestore.thy ===== *)
theory BackupRestore
  imports BackupSwap
begin

text \<open>
  \<open>Restore\<close> as a whole: what every phase may touch, and the guarantee of the swap carried out to
  the destination directory.
\<close>

section \<open>What the phases touch\<close>

lemma reading_ok: "reading m \<Longrightarrow> keeps okFs m"
  by (simp add: keeps_def reading_def)

lemma reading_waitLock [reads]: "reading (waitLock f d)"
  unfolding reading_def using waitLock_res by (metis prod.collapse)

lemma reading_unlock [reads]: "reading (unlock f)"
  by (simp add: reading_def unlock_def)

lemma reading_holderSuffix [reads]: "reading (holderSuffix f)"
  unfolding reading_def using holderSuffix_reading by (metis prod.collapse)

definition lockFiles :: "path \<Rightarrow> gostr \<Rightarrow> path set" where
  "lockFiles d n = {d @ [n @ lockSuffix], d @ [n @ wantSuffix]}"

lemma sfx_snoc [simp]: "sfx (d @ [n]) e = d @ [n @ e]"
  by (simp add: sfx_def)

lemmas touches_lock_calls = touches_reading [OF reading_waitLock] touches_reading [OF reading_unlock]
  touches_reading [OF reading_holderSuffix]

lemma touches_openSideFile: "sfx p e \<in> X \<Longrightarrow> touches X (openSideFile p e)"
  unfolding openSideFile_def by (intro frame touches_osOpen)

lemma openSideFile_ok [fsok]: "keeps okFs (openSideFile p e)"
  unfolding openSideFile_def by (intro fsok)

lemma touches_flockSidecar:
  assumes "{sfx p wantSuffix, sfx p lockSuffix} \<subseteq> X"
  shows "touches X (flockSidecar p timeout)"
proof -
  have "sfx p wantSuffix \<in> X" "sfx p lockSuffix \<in> X" using assms by simp_all
  then show ?thesis unfolding flockSidecar_def
    by (auto intro!: frame touches_openSideFile touches_lock_calls split: sum.split)
qed

lemma flockSidecar_ok [fsok]: "keeps okFs (flockSidecar p timeout)"
  unfolding flockSidecar_def
  by (auto intro!: fsok reading_ok [OF reading_waitLock] reading_ok [OF reading_unlock]
      reading_ok [OF reading_holderSuffix] split: sum.split)

lemma deferring_Inr: "deferring c m s = (Inr x, t) \<longleftrightarrow> (\<exists>u. m s = (Inr x, u) \<and> t = snd (c u))"
  by (auto simp: deferring_apply split: prod.splits)

lemma flockSidecar_name: "flockSidecar p timeout s = (Inr f, t) \<Longrightarrow> f = sfx p lockSuffix"
proof -
  assume "flockSidecar p timeout s = (Inr f, t)"
  then obtain w s1 u queued s2 where "(if \<not> queued then throw (LockedError (Msg ''duckdb: timed out queueing''))
          else andThen (openSideFile p lockSuffix) (\<lambda>f.
            andThen (observe (waitLock f timeout)) (\<lambda>held.
              case held of
                Inl e \<Rightarrow> throw e
              | Inr h \<Rightarrow>
                  if h then ok f
                  else andThen (holderSuffix f) (\<lambda>who.
                    throw (LockedError (Msg (''duckdb: database is locked by another process'' @ str who))))))) s2 = (Inr f, u)"
    unfolding flockSidecar_def andThen_Inr deferring_Inr by blast
  then have "andThen (openSideFile p lockSuffix) (\<lambda>f.
            andThen (observe (waitLock f timeout)) (\<lambda>held.
              case held of
                Inl e \<Rightarrow> throw e
              | Inr h \<Rightarrow>
                  if h then ok f
                  else andThen (holderSuffix f) (\<lambda>who.
                    throw (LockedError (Msg (''duckdb: database is locked by another process'' @ str who)))))) s2 = (Inr f, u)"
    by (cases queued) simp_all
  then obtain f' s3 held s4 where o': "openSideFile p lockSuffix s2 = (Inr f', s3)"
    and h: "(case held of
                Inl e \<Rightarrow> throw e
              | Inr h \<Rightarrow>
                  if h then ok f'
                  else andThen (holderSuffix f') (\<lambda>who.
                    throw (LockedError (Msg (''duckdb: database is locked by another process'' @ str who))))) s4 = (Inr f, u)"
    unfolding andThen_Inr by blast
  have "f = f'" using h by (cases held) (auto simp: andThen_Inr split: if_splits)
  with openSideFile_res [OF o'] show ?thesis by simp
qed

lemma touches_AcquireLock:
  assumes "{sfx p wantSuffix, sfx p lockSuffix} \<subseteq> X"
  shows "touches X (AcquireLock pid p timeout)"
proof (rule touchesI)
  fix s r t q
  assume run: "AcquireLock pid p timeout s = (r, t)" and q: "q \<notin> X"
  obtain r1 s1 where fl: "flockSidecar p timeout s = (r1, s1)" by (cases "flockSidecar p timeout s")
  have one: "lk s1 q = lk s q" by (rule touchesD [OF touches_flockSidecar [OF assms] fl q])
  show "lk t q = lk s q"
  proof (cases r1)
    case (Inl e)
    with run fl one show ?thesis by (simp add: AcquireLock_def andThen_def)
  next
    case (Inr f)
    with flockSidecar_name fl have f: "f = sfx p lockSuffix" by simp
    have "touches X (writePid pid f)"
      unfolding writePid_def using assms f by (intro frame touches_fileOverwrite) auto
    moreover obtain r2 s2 where wp: "writePid pid f s1 = (r2, s2)" by (cases "writePid pid f s1")
    moreover have "t = s2" using run fl Inr wp
      by (auto simp: AcquireLock_def andThen_def writePid_def attempt_def)
    ultimately show ?thesis using one touchesD [of X "writePid pid f" s1 r2 s2 q] q by simp
  qed
qed

lemma AcquireLock_ok [fsok]: "keeps okFs (AcquireLock pid p timeout)"
  unfolding AcquireLock_def writePid_def by (intro fsok)

lemma reading_Release [reads]: "reading (Release l)"
  unfolding Release_def by (auto split: option.split intro!: reads)

lemma reading_releaseLocks [reads]: "reading (releaseLocks ls)"
proof (induction ls)
  case (Cons l ls)
  then show ?case by (simp, intro reads)
qed (simp add: reading_def)

lemma reading_hasWAL [reads]: "reading (hasWAL p)"
  unfolding hasWAL_def by (intro reads) (auto split: sum.split intro!: reads)

lemma reading_isDatabase [reads]: "reading (isDatabase p)"
  unfolding isDatabase_def by (intro reads) (auto split: sum.split intro!: reads)

lemma reading_each [reads]: "(\<And>x. reading (f x)) \<Longrightarrow> reading (each f xs)"
proof (induction xs)
  case (Cons x xs)
  then show ?case by (simp, intro reads)
qed (simp add: reading_def)

lemma reading_regularOrAbsent [reads]: "reading (regularOrAbsent p)"
  unfolding regularOrAbsent_def by (intro reads) (auto split: sum.split intro!: reads)

lemma reading_checkReplaceable [reads]: "reading (checkReplaceable d ns)"
  unfolding checkReplaceable_def by (intro reads)

lemma reading_lift [reads]: "reading (lift r)"
  by (simp add: reading_def lift_def)

lemma touches_acquireLocks:
  "(\<And>n. n \<in> set ns \<Longrightarrow> lockFiles d n \<subseteq> X) \<Longrightarrow> touches X (acquireLocks pid d ns ls)"
proof (induction ns arbitrary: ls)
  case (Cons n ns)
  then have IH: "touches X (acquireLocks pid d ns l)" for l by simp
  have lf: "{sfx (d @ [n]) wantSuffix, sfx (d @ [n]) lockSuffix} \<subseteq> X"
    using Cons.prems [of n] by (auto simp: lockFiles_def)
  show ?case
    using IH touches_AcquireLock [OF lf]
    by (auto intro!: frame touches_reading [OF reading_isDatabase] touches_reading [OF reading_releaseLocks] split: sum.split)
qed (simp add: frame)

lemma acquireLocks_ok [fsok]: "keeps okFs (acquireLocks pid d ns ls)"
proof (induction ns arbitrary: ls)
  case (Cons n ns)
  then show ?case
    by (auto intro!: fsok reading_ok [OF reading_isDatabase] reading_ok [OF reading_releaseLocks] split: sum.split)
qed (simp add: fsok)

lemma acquireDestLocks_ok [fsok]: "keeps okFs (acquireDestLocks pid d ns)"
  unfolding acquireDestLocks_def by (rule acquireLocks_ok)

lemma touches_sweep:
  "(\<And>n r. HasPrefix n stagePrefix \<Longrightarrow> d @ n # r \<in> X) \<Longrightarrow> touches X (sweepStageDirs oldDir d)"
  unfolding sweepStageDirs_def
  by (auto simp: inTree_iff intro!: frame touches_osRemoveAll split: sum.split)

lemma sweep_ok [fsok]: "keeps okFs (sweepStageDirs oldDir d)"
  unfolding sweepStageDirs_def by (auto intro!: fsok split: sum.split)

lemma touches_writeSynced: "p \<in> X \<Longrightarrow> touches X (writeSynced p c)"
  unfolding writeSynced_def
  by (auto intro!: frame touches_osOpen touches_fileWrite split: sum.split)

lemma writeSynced_ok [fsok]: "keeps okFs (writeSynced p c)"
  unfolding writeSynced_def by (auto intro!: fsok split: sum.split)

text \<open>A staged file has its bytes.\<close>

lemma writeSynced_res:
  assumes "writeSynced p c s = (Inr (), t)" "lk s p = None"
  shows "lk t p = Some (FileN c 384)"
proof -
  obtain s1 where op: "osOpen True p s = (Inr (), s1)"
    and rest: "andThen (observe (andThen (fileWrite p c) (\<lambda>_. quiet))) (\<lambda>r. case r of
       Inl e \<Rightarrow> andThen (attempt quiet) (\<lambda>_. throw e) | Inr _ \<Rightarrow> quiet) s1 = (Inr (), t)"
    using assms(1) by (auto simp: writeSynced_def andThen_Inr)
  have ne: "p \<noteq> []" using assms(2) by auto
  have l1: "lk s1 p = Some (FileN [] 384)" using op assms(2) ne by (cases rule: osOpen_out [OF op]) (auto simp: look_put)
  obtain r2 s2 where fw: "fileWrite p c s1 = (r2, s2)" by (cases "fileWrite p c s1")
  obtain r3 s3 where q1: "quiet s2 = (r3, s3)" by (cases "quiet s2")
  obtain r4 s4 where q2: "quiet s3 = (r4, s4)" by (cases "quiet s3")
  have r: "r2 = Inr ()" "r3 = Inr ()" "t = s4" using rest fw q1 q2
    by (auto simp: andThen_def observe_apply attempt_def split: sum.splits)
  then have "tree s2 = put p (FileN c 384) (tree s1)" using fileWrite_res [OF fw l1] by auto
  with quiet_res [OF q1] quiet_res [OF q2] r ne show ?thesis by (simp add: look_put)
qed

section \<open>What the archive gives\<close>

lemma Base_Clean_plain: "n = Base s \<Longrightarrow> n \<noteq> dot \<Longrightarrow> n \<noteq> dotdot \<Longrightarrow> n \<noteq> [] \<Longrightarrow> n \<noteq> [slash] \<Longrightarrow> plain n"
proof -
  assume n: "n = Base s" "n \<noteq> dot" "n \<noteq> dotdot" "n \<noteq> []" "n \<noteq> [slash]"
  then have "n = rev (takeWhile (\<lambda>r. r \<noteq> slash) (dropWhile (\<lambda>r. r = slash) (rev s)))"
    by (auto simp: Base_def Let_def split: if_splits)
  moreover have "slash \<notin> set (takeWhile (\<lambda>r. r \<noteq> slash) (dropWhile (\<lambda>r. r = slash) (rev s)))"
    by (auto dest: dropWhile_set)
  ultimately have "slash \<notin> set n" by simp
  with n show ?thesis by (simp add: plain_def)
qed

lemma plain_Base: "plain n \<Longrightarrow> Base n = n"
proof -
  assume p: "plain n"
  then have "n \<noteq> []" "slash \<notin> set n" by (simp_all add: plain_def)
  then have d: "dropWhile (\<lambda>r. r = slash) (rev n) = rev n"
    by (cases n rule: rev_cases) auto
  have w: "takeWhile (\<lambda>r. r \<noteq> slash) (rev n) = rev n"
    using \<open>slash \<notin> set n\<close> by (auto simp: takeWhile_eq_all_conv)
  show ?thesis unfolding Base_def Let_def d w using \<open>n \<noteq> []\<close> by simp
qed

lemma setEntry_keys: "fst ` set (setEntry k v m) = insert k (fst ` set m)"
  by (force simp: setEntry_def)

lemma setEntry_distinct: "distinct (map fst m) \<Longrightarrow> distinct (map fst (setEntry k v m))"
  by (induction m) (auto simp: setEntry_def)

lemma extractLoop_keys:
  "extractLoop hs fin out = Inr m \<Longrightarrow> distinct (map fst out) \<Longrightarrow> list_all (plain \<circ> fst) out \<Longrightarrow>
     distinct (map fst m) \<and> list_all (plain \<circ> fst) m"
proof (induction hs arbitrary: out)
  case (Cons h hs)
  let ?n = "Base (Clean (hname h))"
  show ?case
  proof (cases "\<not> regular h \<or> ?n = dot \<or> ?n = dotdot \<or> ?n = [] \<or> ?n = [slash]")
    case True
    then have "extractLoop (h # hs) fin out = extractLoop hs fin out"
      unfolding extractLoop.simps Let_def by (elim disjE) simp_all
    with Cons.prems(1) have "extractLoop hs fin out = Inr m" by simp
    from Cons.IH [OF this Cons.prems(2,3)] show ?thesis .
  next
    case False
    then have skip: "regular h" "\<not> (?n = dot \<or> ?n = dotdot \<or> ?n = [] \<or> ?n = [slash])" by simp_all
    then have p: "plain ?n" using Base_Clean_plain by blast
    obtain c where c: "body h = Inr c" using Cons.prems(1) skip by (cases "body h") (simp_all add: Let_def)
    let ?out = "setEntry ?n (take (maxEntryBytes + 1) c) out"
    have run: "extractLoop hs fin ?out = Inr m"
      using Cons.prems(1) skip c by (simp add: Let_def split: if_splits)
    have "distinct (map fst ?out)" using Cons.prems(2) by (rule setEntry_distinct)
    moreover have "list_all (plain \<circ> fst) ?out"
    proof -
      have "\<forall>k \<in> fst ` set ?out. plain k" using Cons.prems(3) p by (simp add: setEntry_keys list_all_iff)
      then show ?thesis by (simp add: list_all_iff)
    qed
    ultimately show ?thesis by (rule Cons.IH [OF run])
  qed
qed (simp split: option.splits)

lemma extractTar_keys: "extractTar untar a = Inr m \<Longrightarrow> distinct (map fst m) \<and> list_all (plain \<circ> fst) m"
  unfolding extractTar_def by (auto split: prod.splits dest!: extractLoop_keys)

lemma restore_names: "extractTar untar a = Inr m \<Longrightarrow> sort (map (Base \<circ> fst) m) = sort (map fst m)"
proof -
  assume "extractTar untar a = Inr m"
  from extractTar_keys [OF this] have "map (Base \<circ> fst) m = map fst m" by (auto simp: list_all_iff plain_Base)
  then show ?thesis by (rule arg_cong)
qed

section \<open>Staging\<close>

lemma stageAll_res:
  assumes "stageAll stg files ns s = (Inr u, t)" "\<forall>n \<in> set ns. lk s (stg @ [n]) = None" "distinct ns"
  shows "\<forall>n \<in> set ns. lk t (stg @ [n]) = Some (FileN (the (map_of files n)) 384)"
  using assms
proof (induction ns arbitrary: s)
  case (Cons n ns)
  obtain r1 s1 where q: "quiet s = (r1, s1)" by (cases "quiet s")
  from Cons.prems(1) q obtain s2 where w: "writeSynced (stg @ [n]) (the (map_of files n)) s1 = (Inr (), s2)"
    and rest: "stageAll stg files ns s2 = (Inr u, t)"
    by (auto simp: stageAll_def andThen_Inr wrapping_def split: prod.splits sum.splits)
  have s1: "tree s1 = tree s" using quiet_res [OF q] by simp
  have n: "lk s2 (stg @ [n]) = Some (FileN (the (map_of files n)) 384)"
    by (rule writeSynced_res [OF w]) (use Cons.prems(2) s1 in simp)
  have tw: "touches {stg @ [n]} (writeSynced (stg @ [n]) (the (map_of files n)))" by (rule touches_writeSynced) simp
  have "\<forall>m \<in> set ns. lk s2 (stg @ [m]) = None"
  proof
    fix m assume m: "m \<in> set ns"
    with Cons.prems(3) have "stg @ [m] \<notin> {stg @ [n]}" by auto
    from touchesD [OF tw w this] Cons.prems(2) m s1 show "lk s2 (stg @ [m]) = None" by simp
  qed
  from Cons.IH [OF rest this] Cons.prems(3)
  have IH: "\<forall>m \<in> set ns. lk t (stg @ [m]) = Some (FileN (the (map_of files m)) 384)" by simp
  have "touches {stg @ [m] |m. m \<in> set ns} (stageAll stg files ns)"
    unfolding stageAll_def by (intro frame touches_writeSynced) blast
  moreover have "stg @ [n] \<notin> {stg @ [m] |m. m \<in> set ns}" using Cons.prems(3) by auto
  ultimately have "lk t (stg @ [n]) = lk s2 (stg @ [n])"
    using touchesD [of "{stg @ [m] |m. m \<in> set ns}" "stageAll stg files ns" s2 "Inr u" t "stg @ [n]"] rest by blast
  with n IH show ?case by simp
qed simp

lemma touches_stageAll: "(\<And>n. n \<in> set ns \<Longrightarrow> stg @ [n] \<in> X) \<Longrightarrow> touches X (stageAll stg files ns)"
  unfolding stageAll_def by (intro frame touches_writeSynced) blast

lemma stageAll_ok [fsok]: "keeps okFs (stageAll stg files ns)"
  unfolding stageAll_def by (intro fsok)

text \<open>Entries with names the restore makes up itself.\<close>

definition ownName :: "gostr \<Rightarrow> bool" where
  "ownName n \<longleftrightarrow> HasPrefix n stagePrefix \<or> HasPrefix n asidePrefix"

lemma prefixes_differ: "HasPrefix n stagePrefix \<Longrightarrow> \<not> HasPrefix n asidePrefix"
  by (auto simp: HasPrefix_iff stagePrefix_def asidePrefix_def)

text \<open>What a restore promises of an entry's subtree: before, now, and in the aside directories.\<close>

definition promised :: "(gostr \<times> bytes) list \<Rightarrow> path \<Rightarrow> err + gostr list \<Rightarrow> (path \<Rightarrow> node option) \<Rightarrow> (path \<Rightarrow> node option)
    \<Rightarrow> gostr \<Rightarrow> path \<Rightarrow> bool" where
  "promised files d r f g n rest =
     (case r of
        Inr names \<Rightarrow> g (d @ n # rest) =
          (case map_of files n of
             Some b \<Rightarrow> if rest = [] then Some (FileN b 384) else None
           | None \<Rightarrow> if n \<in> set (withSidecars (map fst files)) then None else f (d @ n # rest))
      | Inl e \<Rightarrow> g (d @ n # rest) = f (d @ n # rest)
          \<or> (\<exists>c. e = Note c halfReplaced) \<and> (f (d @ n # rest) = None
              \<or> (\<exists>x. g (d @ (asidePrefix @ x) # n # rest) = f (d @ n # rest))))"

lemma withSidecars_set: "set xs = set ys \<Longrightarrow> set (withSidecars xs) = set (withSidecars ys)"
  by (simp add: withSidecars_def)

lemma stageAndSwap_res:
  assumes run: "stageAndSwap d (d @ [stagePrefix @ x]) files (sort (map fst files)) s = (r, t)"
    and ok: "okFs s" and keys: "distinct (map fst files)"
    and fresh: "\<And>n q. lk s (d @ (stagePrefix @ x) # n # q) = None"
    and own: "list_all (\<lambda>n. \<not> ownName n) (withSidecars (map fst files))"
  shows "okFs t \<and> (\<forall>n rest. \<not> ownName n \<longrightarrow> promised files d r (lk s) (lk t) n rest)
    \<and> (\<forall>names. r = Inr names \<longrightarrow> names = sort (map fst files))"
proof -
  let ?sn = "stagePrefix @ x" and ?N = "sort (map fst files)"
  let ?stg = "d @ [?sn]"
  have same: "set ?N = set (map fst files)" by simp
  have ns: "set (withSidecars ?N) = set (withSidecars (map fst files))" by (rule withSidecars_set) simp
  have early: "okFs t \<and> (\<forall>n rest. \<not> ownName n \<longrightarrow> promised files d (Inl e) (lk s) (lk t) n rest)"
    if "okFs t" "\<And>n rest. \<not> ownName n \<Longrightarrow> lk t (d @ n # rest) = lk s (d @ n # rest)" for e t
    using that by (simp add: promised_def)
  let ?X = "{d @ n # q |n q. ownName n}"
  have tX: "touches ?X (stageAll ?stg files ?N)"
    by (rule touches_stageAll) (auto simp: ownName_def HasPrefix_iff)
  have notX: "d @ n # rest \<notin> ?X" if "\<not> ownName n" for n rest using that by auto
  from run [unfolded stageAndSwap_def] show ?thesis
  proof (cases rule: andThen_cases)
    case (1 e)
    with early [of t e] keepsD [OF stageAll_ok ok 1(1)] touchesD [OF tX 1(1) notX] show ?thesis by simp
  next
    case st: (2 u s1)
    have ok1: "okFs s1" by (rule keepsD [OF stageAll_ok ok st(1)])
    have l1: "lk s1 (d @ n # rest) = lk s (d @ n # rest)" if "\<not> ownName n" for n rest
      using touchesD [OF tX st(1) notX [OF that]] .
    have staged1: "\<forall>n \<in> set ?N. lk s1 (?stg @ [n]) = Some (FileN (the (map_of files n)) 384)"
      by (rule stageAll_res [OF st(1)]) (use fresh keys in auto)
    from st(2) show ?thesis
    proof (cases rule: andThen_cases)
      case (1 e)
      with quiet_res [OF 1(1)] early [of t e] ok1 l1 show ?thesis by simp
    next
      case qu: (2 u s2)
      then have s2: "tree s2 = tree s1" using quiet_res by blast
      from qu(2) show ?thesis
      proof (cases rule: andThen_cases)
        case (1 e)
        then obtain e' where "osTemp DirN d asidePrefix s2 = (Inl e', t)"
          by (auto simp: wrapping_def split: prod.splits sum.splits)
        from osTemp_res [OF this] 1(2) early [of t e] ok1 l1 s2 show ?thesis by simp
      next
        case tm: (2 asd s3)
        then have tmp: "osTemp DirN d asidePrefix s2 = (Inr asd, s3)"
          by (auto simp: wrapping_def split: prod.splits sum.splits)
        from osTemp_res [OF tmp] obtain y where y: "asd = d @ [asidePrefix @ y]" "lk s2 (d @ [asidePrefix @ y]) = None"
            "lk s2 d = Some DirN" "tree s3 = put (d @ [asidePrefix @ y]) DirN (tree s2)" by auto
        let ?an = "asidePrefix @ y"
        have ok2: "okFs s2" using ok1 s2 by simp
        have ok3: "okFs s3" by (rule keepsD [OF osTemp_ok ok2 tmp])
        have l3: "lk s3 = (lk s1)(d @ [?an] \<mapsto> DirN)" using y s2 by (simp add: look_put)
        have ne: "?sn \<noteq> ?an" by (simp add: stagePrefix_def asidePrefix_def)
        have empty: "entries (d @ [?an]) (tree s3) = []"
        proof -
          have "lk s2 ((d @ [?an]) @ [m]) = None" for m
            by (rule okTree_notdir [OF ok2]) (simp_all add: y(2))
          then show ?thesis unfolding entries_Nil l3 using s2 by simp
        qed
        have an: "?an \<notin> set (withSidecars ?N)" "?sn \<notin> set (withSidecars ?N)"
        proof -
          have "ownName ?an" "ownName ?sn" by (auto simp: ownName_def HasPrefix_iff)
          with own show "?an \<notin> set (withSidecars ?N)" "?sn \<notin> set (withSidecars ?N)"
            unfolding ns list_all_iff by blast+
        qed
        define sw where "sw = \<lparr>dest = d, stage = ?stg, aside = asd, moved = [], placed = []\<rparr>"
        have dN: "distinct ?N" using keys by simp
        have swf: "dest sw = d" "stage sw = d @ [?sn]" "aside sw = d @ [?an]" "moved sw = []" "placed sw = []"
          by (simp_all add: sw_def y(1))
        obtain r4 s4 where sr: "swapRun sw ?N s3 = (r4, s4)" by (cases "swapRun sw ?N s3")
        have hyp: "entries (dest sw @ [?an]) (tree s3) = []" "stage sw = dest sw @ [?sn]" "aside sw = dest sw @ [?an]"
          using empty by (simp_all add: swf)
        note sw_res = swapRun_res [OF ok3 hyp swf(4,5) ne an(2,1) dN, unfolded sr prod.case swf(1-3)]
        have ok4: "okFs s4" using sw_res by (rule conjunct1)
        have l3e: "lk s3 (d @ n # rest) = lk s (d @ n # rest)" if "\<not> ownName n" for n rest
        proof -
          have "n \<noteq> ?an" using that by (auto simp: ownName_def HasPrefix_iff)
          with l1 [OF that] show ?thesis by (simp add: l3)
        qed
        have own_ne: "n \<noteq> ?sn" "n \<noteq> ?an" if "\<not> ownName n" for n
          using that by (auto simp: ownName_def HasPrefix_iff)
        from tm(2) have run4: "andThen (swapRun sw ?N) (\<lambda>_. andThen (syncDir d) (\<lambda>_.
            andThen (attempt (osRemoveAll asd)) (\<lambda>_. ok ?N))) s3 = (r, t)" by (simp add: sw_def)
        show ?thesis
        proof (cases r4)
          case (Inl e)
          then have rt: "r = Inl e" "t = s4" using run4 sr by (simp_all add: andThen_def)
          have "promised files d r (lk s) (lk t) n rest" if n: "\<not> ownName n" for n rest
            using mp [OF mp [OF spec [OF spec [OF conjunct2 [OF sw_res], of n], of rest] own_ne(1) [OF n]] own_ne(2) [OF n]]
              l3e [OF n, of rest] Inl rt
            by (auto simp: promised_def Let_def)
          with rt ok4 show ?thesis by simp
        next
          case (Inr u)
          obtain r5 s5 where sd: "syncDir d s4 = (r5, s5)" by (cases "syncDir d s4")
          obtain r6 s6 where ra: "osRemoveAll asd s5 = (r6, s6)" by (cases "osRemoveAll asd s5")
          have s5: "tree s5 = tree s4" "r5 = Inr ()" using syncDir_res [OF sd] by simp_all
          have rt: "r = Inr ?N" "t = s6" using run4 sr Inr sd s5 ra by (simp_all add: andThen_def attempt_def)
          have "okFs s5" using ok4 s5 by simp
          then have "okFs s6" using keepsD [OF osRemoveAll_ok _ ra] y(1) by simp
          moreover have "promised files d r (lk s) (lk t) n rest" if n: "\<not> ownName n" for n rest
          proof -
            have "\<not> inTree asd (d @ n # rest)" using own_ne(2) [OF n] by (auto simp: y(1))
            then have "lk s6 (d @ n # rest) = lk s4 (d @ n # rest)"
              using touchesD [OF touches_osRemoveAll [OF _ subset_refl] ra] y(1) s5(1) by auto
            also have "\<dots> = (if n \<in> set ?N then lk s3 (d @ ?sn # n # rest)
                else if n \<in> set (withSidecars ?N) then None else lk s3 (d @ n # rest))"
              using mp [OF mp [OF spec [OF spec [OF conjunct2 [OF sw_res], of n], of rest] own_ne(1) [OF n]] own_ne(2) [OF n]] Inr
              by (simp add: Let_def)
            finally have now: "lk t (d @ n # rest) = (if n \<in> set ?N then lk s3 (d @ ?sn # n # rest)
                else if n \<in> set (withSidecars ?N) then None else lk s3 (d @ n # rest))" using rt by simp
            have stg3: "lk s3 (d @ ?sn # n # rest) = (if rest = [] then Some (FileN (the (map_of files n)) 384) else None)"
              if "n \<in> set ?N"
            proof -
              have f: "lk s1 (?stg @ [n]) = Some (FileN (the (map_of files n)) 384)" using staged1 that by blast
              show ?thesis
              proof (cases "rest = []")
                case True
                with f ne show ?thesis by (simp add: l3)
              next
                case False
                have "lk s1 (?stg @ [n]) \<noteq> Some DirN" using f by simp
                from okTree_notdir [OF ok1 this False] False ne show ?thesis by (simp add: l3)
              qed
            qed
            show ?thesis
            proof (cases "map_of files n")
              case None
              then have "n \<notin> set ?N" by (simp add: map_of_eq_None_iff)
              with None now ns l3e [OF n, of rest] rt show ?thesis by (simp add: promised_def)
            next
              case (Some b)
              then have "n \<in> set ?N" by (metis map_of_SomeD fst_conv imageI same set_map)
              with Some now stg3 rt show ?thesis by (simp add: promised_def)
            qed
          qed
          ultimately show ?thesis using rt by simp
        qed
      qed
    qed
  qed
qed

lemma lift_Inr: "lift (Inr x) = ok x"
  by (rule ext) (simp add: lift_def)

lemma wrapping_ok: "wrapping f (ok x) = ok x"
  by (rule ext) (simp add: wrapping_def)

lemma promised_mono:
  assumes "promised files d r f g n rest" "f' (d @ n # rest) = f (d @ n # rest)" "g' (d @ n # rest) = g (d @ n # rest)"
    and "\<And>x. g' (d @ (asidePrefix @ x) # n # rest) = g (d @ (asidePrefix @ x) # n # rest)"
  shows "promised files d r f' g' n rest"
  using assms(1) unfolding promised_def assms(2,3,4) .

lemma promised_unchanged: "g (d @ n # rest) = f (d @ n # rest) \<Longrightarrow> promised files d (Inl e) f g n rest"
  by (simp add: promised_def)

lemma restoreLocked_res:
  assumes run: "restoreLocked oldDir d files (sort (map fst files)) s = (r, t)"
    and ok: "okFs s" and keys: "distinct (map fst files)"
    and own: "list_all (\<lambda>n. \<not> ownName n) (withSidecars (map fst files))"
  shows "okFs t \<and> (\<forall>n rest. \<not> ownName n \<longrightarrow> promised files d r (lk s) (lk t) n rest)
    \<and> (\<forall>names. r = Inr names \<longrightarrow> names = sort (map fst files))"
proof -
  let ?X = "{d @ n # q |n q. HasPrefix n stagePrefix}"
  have tX: "touches ?X (sweepStageDirs oldDir d)" by (rule touches_sweep) blast
  have notX: "d @ n # rest \<notin> ?X" if "\<not> ownName n" for n rest using that by (auto simp: ownName_def)
  from run [unfolded restoreLocked_def] show ?thesis
  proof (cases rule: andThen_cases)
    case (1 e)
    with keepsD [OF sweep_ok ok 1(1)] touchesD [OF tX 1(1) notX] show ?thesis
      by (simp add: promised_unchanged)
  next
    case sw: (2 u s1)
    have ok1: "okFs s1" by (rule keepsD [OF sweep_ok ok sw(1)])
    have l1: "lk s1 (d @ n # rest) = lk s (d @ n # rest)" if "\<not> ownName n" for n rest
      using touchesD [OF tX sw(1) notX [OF that]] .
    from sw(2) show ?thesis
    proof (cases rule: andThen_cases)
      case (1 e)
      then obtain e' where "osTemp DirN d stagePrefix s1 = (Inl e', t)"
        by (auto simp: wrapping_def split: prod.splits sum.splits)
      from osTemp_res [OF this] 1(2) ok1 l1 show ?thesis by (simp add: promised_unchanged)
    next
      case tm: (2 stg s2)
      then have tmp: "osTemp DirN d stagePrefix s1 = (Inr stg, s2)"
        by (auto simp: wrapping_def split: prod.splits sum.splits)
      from osTemp_res [OF tmp] obtain x where x: "stg = d @ [stagePrefix @ x]" "lk s1 (d @ [stagePrefix @ x]) = None"
        "tree s2 = put (d @ [stagePrefix @ x]) DirN (tree s1)" by auto
      let ?sn = "stagePrefix @ x"
      have l2: "lk s2 = (lk s1)(d @ [?sn] \<mapsto> DirN)" using x by (simp add: look_put)
      have ok2: "okFs s2" by (rule keepsD [OF osTemp_ok ok1 tmp])
      have fresh: "lk s2 (d @ ?sn # n # q) = None" for n q
      proof -
        have "lk s1 ((d @ [?sn]) @ n # q) = None" by (rule okTree_notdir [OF ok1]) (simp_all add: x(2))
        then show ?thesis by (simp add: l2)
      qed
      obtain r3 s3 where ss: "stageAndSwap d stg files (sort (map fst files)) s2 = (r3, s3)"
        by (cases "stageAndSwap d stg files (sort (map fst files)) s2")
      obtain r4 s4 where ra: "osRemoveAll stg s3 = (r4, s4)" by (cases "osRemoveAll stg s3")
      have rt: "r = r3" "t = s4" using tm(2) ss ra by (simp_all add: deferring_apply attempt_def)
      note res = stageAndSwap_res [OF ss [unfolded x(1)] ok2 keys fresh own]
      have ok4: "okFs s4" using keepsD [OF osRemoveAll_ok _ ra] res x(1) by simp
      have l4: "lk s4 q = lk s3 q" if "\<not> inTree stg q" for q
        using touchesD [OF touches_osRemoveAll [OF _ subset_refl] ra, of q] that x(1) by auto
      have "promised files d r (lk s) (lk t) n rest" if n: "\<not> ownName n" for n rest
      proof (rule promised_mono)
        show "promised files d r (lk s2) (lk s3) n rest" using res n rt by blast
        have ne: "n \<noteq> ?sn" using n by (auto simp: ownName_def HasPrefix_iff)
        show "lk s (d @ n # rest) = lk s2 (d @ n # rest)" using l1 [OF n, of rest] ne by (simp add: l2)
        show "lk t (d @ n # rest) = lk s3 (d @ n # rest)" using l4 ne x(1) rt by simp
        show "lk t (d @ (asidePrefix @ y) # n # rest) = lk s3 (d @ (asidePrefix @ y) # n # rest)" for y
        proof -
          have "\<not> inTree stg (d @ (asidePrefix @ y) # n # rest)" by (simp add: x(1) stagePrefix_def asidePrefix_def)
          then show ?thesis using l4 rt by simp
        qed
      qed
      with ok4 res rt show ?thesis by blast
    qed
  qed
qed

text \<open>Decryption and extraction come first and touch nothing.\<close>

text \<open>What a restore does before the destination's files are touched, and the rest of it.\<close>

definition restorePrep :: "nat \<Rightarrow> path \<Rightarrow> gostr list \<Rightarrow> path option list fsact" where
  "restorePrep pid d ns =
     andThen quiet (\<lambda>_.
     andThen (wrapping (Wrap ''creating: '') (mkdirAll [] d)) (\<lambda>_.
     andThen (checkReplaceable d ns) (\<lambda>_. acquireDestLocks pid d ns)))"

lemma restore_front:
  assumes "decrypt sealed key = Inr plaintext" "extractTar untar plaintext = Inr files"
  shows "Restore decrypt untar pid oldDir sealed key d =
     andThen (restorePrep pid d (sort (map fst files))) (\<lambda>locks.
       deferring (releaseLocks locks) (restoreLocked oldDir d files (sort (map fst files))))"
  unfolding Restore_def assms(1) lift_Inr wrapping_ok andThen_ok assms(2) restore_names [OF assms(2)] Let_def
    restorePrep_def andThen_assoc ..

lemma touches_mkdirAll: "touches {q. inTree q d} (mkdirAll [] d)"
proof (rule touchesI)
  fix s r t q assume "mkdirAll [] d s = (r, t)" "q \<notin> {q. inTree q d}"
  with mkdirAll_res [of "[]" d s r t] show "lk t q = lk s q" by auto
qed

lemma restorePrep_ok: "keeps okFs (restorePrep pid d ns)"
proof -
  have "keeps okFs (checkReplaceable d ns)"
    using reading_checkReplaceable unfolding keeps_def reading_def by simp
  then show ?thesis
    unfolding restorePrep_def by (intro andThen_okFs combi_ok mkdirAll_ok acquireDestLocks_ok fsok)
qed

definition lockNames :: "(gostr \<times> bytes) list \<Rightarrow> gostr set" where
  "lockNames files = (\<lambda>f. fst f @ lockSuffix) ` set files \<union> (\<lambda>f. fst f @ wantSuffix) ` set files"

lemma restorePrep_unchanged:
  assumes "restorePrep pid d (sort (map fst files)) s = (r, t)" and "n \<notin> lockNames files"
  shows "lk t (d @ n # rest) = lk s (d @ n # rest)"
proof -
  let ?N = "sort (map fst files)"
  let ?X = "{q. inTree q d} \<union> \<Union> (lockFiles d ` set ?N)"
  have l: "touches ?X (acquireDestLocks pid d ?N)"
    unfolding acquireDestLocks_def by (rule touches_acquireLocks) blast
  have m: "touches ?X (mkdirAll [] d)"
    using touches_mkdirAll [of d] unfolding touches_def by blast
  have x: "touches ?X (restorePrep pid d ?N)"
    unfolding restorePrep_def by (intro frame touches_reading [OF reading_checkReplaceable] l m)
  have n: "d @ n # rest \<notin> ?X"
    using assms(2) by (auto simp: lockFiles_def lockNames_def inTree_iff)
  show ?thesis using touchesD [OF x assms(1) n] .
qed

text \<open>
  Claim C1.  A restore is all or nothing towards the destination, or says that it is not.  For an
  archive that decrypts and parses, none of whose entries or sidecars is named like the restore's
  own temporary directories: whatever call fails at whatever point, the tree stays well formed,
  and for every entry of the destination other than those directories and the databases' lock
  files: on success it is the archived file, with the archived bytes and mode 0600, when the
  archive has one of that name, it is gone when it was a \<open>.wal\<close> or \<open>.tmp\<close> of an archived file, and it is
  as before otherwise, and the names reported are the archive's, sorted; after an error it is as
  before, unless the error says the rollback failed, and then it is as before or was moved whole
  into an aside directory.
\<close>

theorem restore_all_or_nothing:
  assumes "okTree (tree s)" "decrypt sealed key = Inr plaintext" "extractTar untar plaintext = Inr files"
    and "list_all (\<lambda>n. \<not> ownName n) (withSidecars (map fst files))"
  shows "case Restore decrypt untar pid oldDir sealed key d s of (r, t) \<Rightarrow>
    okTree (tree t)
    \<and> (\<forall>n rest. \<not> ownName n \<longrightarrow> n \<notin> lockNames files \<longrightarrow>
         promised files d r (look (tree s)) (look (tree t)) n rest)
    \<and> (\<forall>names. r = Inr names \<longrightarrow> names = sort (map fst files))"
proof -
  let ?N = "sort (map fst files)"
  obtain r t where run: "Restore decrypt untar pid oldDir sealed key d s = (r, t)"
    by (cases "Restore decrypt untar pid oldDir sealed key d s")
  have "okFs t \<and> (\<forall>n rest. \<not> ownName n \<longrightarrow> n \<notin> lockNames files \<longrightarrow> promised files d r (lk s) (lk t) n rest)
    \<and> (\<forall>names. r = Inr names \<longrightarrow> names = ?N)"
    using run unfolding restore_front [where decrypt = decrypt and untar = untar, OF assms(2,3)]
  proof (cases rule: andThen_cases)
    case (1 e)
    from keepsD [OF restorePrep_ok _ 1(1)] restorePrep_unchanged [OF 1(1)] assms(1) 1(2)
    show ?thesis by (simp add: promised_unchanged)
  next
    case rl: (2 locks s4)
    have ok4: "okFs s4" using keepsD [OF restorePrep_ok _ rl(1)] assms(1) by simp
    obtain r5 s5 where rs: "restoreLocked oldDir d files ?N s4 = (r5, s5)" by (cases "restoreLocked oldDir d files ?N s4")
    obtain r6 s6 where rel: "releaseLocks locks s5 = (r6, s6)" by (cases "releaseLocks locks s5")
    have rt: "r = r5" "t = s6" using rl(2) rs rel by (simp_all add: deferring_apply)
    have s6: "tree s6 = tree s5" by (rule readingD [OF reading_releaseLocks rel])
    note res = restoreLocked_res [OF rs ok4 conjunct1 [OF extractTar_keys [OF assms(3)]] assms(4)]
    have "promised files d r (lk s) (lk t) n rest" if n: "\<not> ownName n" "n \<notin> lockNames files" for n rest
    proof (rule promised_mono)
      show "promised files d r (lk s4) (lk s5) n rest" using res n(1) rt by blast
    qed (use restorePrep_unchanged [OF rl(1) n(2)] s6 rt in simp_all)
    with res s6 rt show ?thesis by simp
  qed
  then show ?thesis unfolding run by blast
qed

text \<open>A tar reader for the witness: entries as encoded by \<open>encodeMap\<close>, all regular.\<close>

definition sampleUntar :: "bytes \<Rightarrow> tarEntry list \<times> err option" where
  "sampleUntar b = (case decodeMap b of
     Inl e \<Rightarrow> ([], Some e)
   | Inr c \<Rightarrow> (map (\<lambda>(n, d). \<lparr>regular = True, hname = n, body = Inr d\<rparr>) c, None))"

lemma extract_small:
  "extractLoop [\<lparr>regular = True, hname = lit ''x'', body = Inr (lit ''new'')\<rparr>] None [] = Inr [(lit ''x'', lit ''new'')]"
proof -
  have "Base (Clean (lit ''x'')) = lit ''x''" by code_simp
  moreover have "3 \<le> maxEntryBytes" by (simp add: maxEntryBytes_def)
  moreover have "lit ''x'' \<noteq> dot" "lit ''x'' \<noteq> dotdot" by (simp_all add: dot_def dotdot_def)
  ultimately show ?thesis by (simp add: setEntry_def)
qed

theorem restore_all_or_nothing_witness:
  "let s = (swapSample [])\<lparr>rand := [lit ''1'', lit ''2'']\<rparr>;
       R = Restore (\<lambda>b k. Inr b) sampleUntar 7 (\<lambda>n. False) (encodeMap [(lit ''x'', lit ''new'')]) [] [lit ''d''] s in
     fst R = Inr [lit ''x''] \<and> look (tree (snd R)) [lit ''d'', lit ''x''] = Some (FileN (lit ''new'') 384)"
proof -
  let ?s = "(swapSample [])\<lparr>rand := [lit ''1'', lit ''2'']\<rparr>" and ?d = "\<lambda>b (k :: bytes). Inr b :: err + bytes"
    and ?e = "encodeMap [(lit ''x'', lit ''new'')]"
  let ?R = "Restore ?d sampleUntar 7 (\<lambda>n. False) ?e [] [lit ''d''] ?s"
  have ext: "extractTar sampleUntar ?e = Inr [(lit ''x'', lit ''new'')]"
    using extract_small by (simp add: extractTar_def sampleUntar_def decode_encode)
  have ok: "okTree (tree ?s)" using swapSample_ok by simp
  have own: "list_all (\<lambda>n. \<not> ownName n) (withSidecars (map fst [(lit ''x'', lit ''new'')]))" by code_simp
  have nn: "\<not> ownName (lit ''x'')" "lit ''x'' \<notin> lockNames [(lit ''x'', lit ''new'')]" by code_simp+
  have dec: "?d ?e [] = Inr ?e" ..
  have r: "fst ?R = Inr [lit ''x'']" unfolding restore_front [where decrypt = ?d and sealed = ?e and key = "[]" and plaintext = ?e, OF dec ext] by code_simp
  obtain u t where run: "?R = (u, t)" by (cases ?R)
  have all: "\<forall>n rest. \<not> ownName n \<longrightarrow> n \<notin> lockNames [(lit ''x'', lit ''new'')] \<longrightarrow>
      promised [(lit ''x'', lit ''new'')] [lit ''d''] u (look (tree ?s)) (look (tree t)) n rest"
    using restore_all_or_nothing [where decrypt = ?d and sealed = ?e and key = "[]" and plaintext = ?e and pid = 7
        and oldDir = "\<lambda>n. False" and d = "[lit ''d'']", OF ok dec ext own]
    unfolding run prod.case by (elim conjE)
  have "promised [(lit ''x'', lit ''new'')] [lit ''d''] u (look (tree ?s)) (look (tree t)) (lit ''x'') []"
    using mp [OF mp [OF spec [OF spec [OF all, of "lit ''x''"], of "[]"] nn(1)] nn(2)] .
  with r run show ?thesis by (simp add: promised_def)
qed

end
