(* ===== verification/BackupArchive.thy ===== *)
theory BackupArchive
  imports BackupRestore
begin

text \<open>
  What an archive holds: the contents of a database including its write-ahead log, taken without
  losing any of it, and the files extraction gives back.
\<close>

section \<open>Contents of a database\<close>

text \<open>What the file at \<open>p\<close> means together with the log beside it.\<close>

definition effective :: "(bytes \<Rightarrow> bytes \<Rightarrow> bytes) \<Rightarrow> path \<Rightarrow> (path \<Rightarrow> node option) \<Rightarrow> bytes option" where
  "effective ck p f = (case f p of
     Some (FileN d m) \<Rightarrow> (case f (sfx p walSuffix) of Some (FileN w m') \<Rightarrow> Some (ck d w) | _ \<Rightarrow> Some d)
   | _ \<Rightarrow> None)"

definition duckFile :: "bytes \<Rightarrow> bool" where
  "duckFile d \<longleftrightarrow> duckMagicOffset + length duckMagic \<le> length d
     \<and> take (length duckMagic) (drop duckMagicOffset d) = duckMagic"

abbreviation means :: "(bytes \<Rightarrow> bytes \<Rightarrow> bytes) \<Rightarrow> path \<Rightarrow> bytes option \<Rightarrow> fsys \<Rightarrow> bool" where
  "means ck p c s \<equiv> effective ck p (lk s) = c"

lemma sfx_ne [simp]: "sfx p e \<noteq> []" by (simp add: sfx_def)

lemma sfx_other: "p \<noteq> [] \<Longrightarrow> e \<noteq> [] \<Longrightarrow> sfx p e \<noteq> p"
proof -
  assume "p \<noteq> []" "e \<noteq> []"
  then have "last (sfx p e) \<noteq> last p" by (simp add: sfx_def)
  then show ?thesis by metis
qed

lemma sfx_inj: "a \<noteq> b \<Longrightarrow> sfx p a \<noteq> sfx p b"
  by (simp add: sfx_def)

lemma keeps_touches:
  assumes "touches X m" "p \<notin> X" "sfx p walSuffix \<notin> X"
  shows "keeps (means ck p c) m"
proof (rule keepsI)
  fix s r t assume "means ck p c s" "m s = (r, t)"
  from touchesD [OF assms(1) \<open>m s = (r, t)\<close>] assms(2,3)
  have eq: "lk t p = lk s p" "lk t (sfx p walSuffix) = lk s (sfx p walSuffix)" by auto
  show "means ck p c t" using \<open>means ck p c s\<close> unfolding effective_def eq .
qed

lemma keeps_reading: "reading m \<Longrightarrow> keeps (means ck p c) m"
  by (simp add: keeps_def reading_def)

lemma keeps_osChmod: "keeps (means ck p c) (osChmod q m)"
proof (rule keepsI)
  fix s r t assume s: "means ck p c s" and run: "osChmod q m s = (r, t)"
  from run have "tree t = tree s \<or> (\<exists>d m'. lk s q = Some (FileN d m') \<and> q \<noteq> [] \<and> tree t = put q (FileN d m) (tree s))"
    unfolding osChmod_def by (cases rule: sys_cases) (auto simp: untouched_def split: option.splits node.splits)
  then show "means ck p c t"
  proof
    assume "tree t = tree s"
    with s show ?thesis by simp
  next
    assume "\<exists>d m'. lk s q = Some (FileN d m') \<and> q \<noteq> [] \<and> tree t = put q (FileN d m) (tree s)"
    then obtain d m' where "lk s q = Some (FileN d m')" "lk t = (lk s)(q \<mapsto> FileN d m)" by (auto simp: look_put)
    with s show ?thesis by (auto simp: effective_def split: option.splits node.splits)
  qed
qed

lemma checkpoint_res:
  assumes "checkpoint ck p s = (r, t)" "p \<noteq> []" "means ck p c s"
  shows "means ck p c t \<and> (r = Inr () \<longrightarrow> c \<noteq> None \<longrightarrow> (\<exists>m. lk t p = Some (FileN (the c) m)))"
proof -
  have ne: "sfx p walSuffix \<noteq> p" using assms(2) by (rule sfx_other) (simp add: walSuffix_def)
  from assms(1) show ?thesis unfolding checkpoint_def
  proof (cases rule: sys_cases)
    case (1 s')
    show ?thesis
    proof (cases "\<exists>d m w m'. lk s p = Some (FileN d m) \<and> lk s (sfx p walSuffix) = Some (FileN w m')")
      case True
      then obtain d m w m' where l: "lk s p = Some (FileN d m)" "lk s (sfx p walSuffix) = Some (FileN w m')" by blast
      with 1 have rt: "r = Inr ()" "tree t = del (sfx p walSuffix) (put p (FileN (ck d w) m) (tree s))" by auto
      have lt: "lk t = (lk s)(p \<mapsto> FileN (ck d w) m, sfx p walSuffix := None)"
        using rt(2) assms(2) by (simp add: look_put look_del)
      have "c = Some (ck d w)" using assms(3) l by (simp add: effective_def)
      with lt ne show ?thesis by (simp add: effective_def)
    next
      case False
      with 1 have rt: "tree t = tree s" by (auto split: option.splits node.splits)
      have "\<exists>m. lk s p = Some (FileN (the c) m)" if "c \<noteq> None"
        using that assms(3) False by (auto simp: effective_def split: option.splits node.splits)
      with rt assms(3) show ?thesis by simp
    qed
  next
    case (2 e k s')
    with assms(3) show ?thesis by (simp add: untouched_def)
  qed
qed

lemma osReadFile_data: "osReadFile p s = (Inr d, t) \<Longrightarrow> \<exists>m. lk s p = Some (FileN d m)"
  using osReadFile_res by blast

lemma checkpointCloseAndRead_res:
  assumes "checkpointCloseAndRead ck p s = (r, t)" "p \<noteq> []" "means ck p c s" "c \<noteq> None"
  shows "means ck p c t \<and> (\<forall>d. r = Inr d \<longrightarrow> Some d = c)"
proof -
  obtain r1 s1 where cp: "checkpoint ck p s = (r1, s1)" by (cases "checkpoint ck p s")
  note one = checkpoint_res [OF cp assms(2,3)]
  obtain r2 s2 where q: "quiet s1 = (r2, s2)" by (cases "quiet s1")
  note two = quiet_res [OF q]
  obtain r2' s2' where q': "quiet s2 = (r2', s2')" by (cases "quiet s2")
  obtain r2'' s2'' where q'': "quiet s1 = (r2'', s2'')" by (cases "quiet s1")
  show ?thesis
  proof (cases "r1 = Inr () \<and> r2 = Inr ()")
    case True
    then have "osReadFile p s2 = (r, t)" using assms(1) cp q
      by (simp add: checkpointCloseAndRead_def andThen_def observe_apply wrapping_def)
    with osReadFile_res [of p s2 r t] two one True assms(4) show ?thesis by fastforce
  next
    case False
    have "tree t = tree s1 \<and> (\<exists>e. r = Inl e)"
    proof (cases r1)
      case (Inl e)
      then have "r = Inl (Wrap ''checkpointing: '' e)" "t = s2" using assms(1) cp q
        by (simp_all add: checkpointCloseAndRead_def andThen_def observe_apply wrapping_def attempt_def)
      with two show ?thesis by simp
    next
      case (Inr u)
      then obtain e where "r2 = Inl e" using False two by auto
      with Inr have "r = Inl (Wrap ''closing after checkpoint: '' e)" "t = s2'" using assms(1) cp q q'
        by (simp_all add: checkpointCloseAndRead_def andThen_def observe_apply wrapping_def attempt_def)
      with two quiet_res [OF q'] show ?thesis by simp
    qed
    with one show ?thesis by auto
  qed
qed

lemmas means_rules = combi_ok andThen_okFs keeps_reading [OF reading_calls(1)] keeps_reading [OF reading_calls(4)] keeps_osChmod

lemma duckOpen_means: "keeps (means ck p c) (duckOpen q b)"
  unfolding duckOpen_def secureWAL_def securePerm_def
  by (auto intro!: means_rules split: sum.split)

lemma AcquireLock_means: "p \<noteq> [] \<Longrightarrow> keeps (means ck p c) (AcquireLock pid p timeout)"
proof (rule keeps_touches)
  assume "p \<noteq> []"
  then show "p \<notin> {sfx p wantSuffix, sfx p lockSuffix}"
    using sfx_other [of p wantSuffix] sfx_other [of p lockSuffix] by (auto simp: wantSuffix_def lockSuffix_def)
  show "sfx p walSuffix \<notin> {sfx p wantSuffix, sfx p lockSuffix}"
    by (simp add: sfx_def walSuffix_def wantSuffix_def lockSuffix_def)
qed (rule touches_AcquireLock, simp)

lemma snapshotFailed_res: "snapshotFailed e s = (r, t) \<Longrightarrow> tree t = tree s \<and> (\<exists>e. r = Inl e)"
  using readingD [of "snapshotFailed e"]
  by (auto simp: snapshotFailed_def andThen_def reading_combi reading_andThen reading_calls split: prod.splits sum.splits dest!: quiet_res)

lemma snapshotDB_res:
  assumes "snapshotDB ck pid p s = (r, t)" "p \<noteq> []" "means ck p c s" "c \<noteq> None"
  shows "means ck p c t \<and> (\<forall>fs. r = Inr fs \<longrightarrow> fs = [(last p, the c)])"
proof -
  obtain l s1 where al: "AcquireLock pid p lockTimeout s = (l, s1)" by (cases "AcquireLock pid p lockTimeout s")
  have m1: "means ck p c s1" by (rule keepsD [OF AcquireLock_means [OF assms(2)] assms(3) al])
  show ?thesis
  proof (cases l)
    case (Inl e)
    then have "snapshotFailed e s1 = (r, t)" using assms(1) al by (simp add: snapshotDB_def andThen_def observe_apply)
    from snapshotFailed_res [OF this] m1 show ?thesis by auto
  next
    case (Inr lock)
    let ?body = "andThen (duckOpen p False) (\<lambda>_. checkpointCloseAndRead ck p)"
    obtain b s2 where bd: "?body s1 = (b, s2)" by (cases "?body s1")
    have b: "means ck p c s2 \<and> (\<forall>d. b = Inr d \<longrightarrow> Some d = c)"
      using bd
    proof (cases rule: andThen_cases)
      case (1 e)
      from keepsD [OF duckOpen_means m1 1(1)] 1(2) show ?thesis by simp
    next
      case (2 x u)
      from checkpointCloseAndRead_res [OF 2(2) assms(2) keepsD [OF duckOpen_means m1 2(1)] assms(4)]
      show ?thesis .
    qed
    obtain r3 s3 where rest: "(case b of Inr data \<Rightarrow> ok [(last p, data)] | Inl e \<Rightarrow> snapshotFailed e) s2 = (r3, s3)"
      by (cases "(case b of Inr data \<Rightarrow> ok [(last p, data)] | Inl e \<Rightarrow> snapshotFailed e) s2")
    have rt: "r = r3" "tree t = tree s3"
      using assms(1) al Inr bd rest readingD [OF reading_Release [of lock]]
      by (auto simp: snapshotDB_def andThen_def observe_apply deferring_apply split: prod.splits sum.splits)
    show ?thesis
    proof (cases b)
      case b': (Inl e)
      with rest snapshotFailed_res [of e s2 r3 s3] b rt show ?thesis by auto
    next
      case b': (Inr d)
      with b have "c = Some d" by simp
      with rest b b' rt show ?thesis by auto
    qed
  qed
qed

text \<open>A file that is not taken for a database does not start like one.\<close>

lemma isDatabase_magic:
  assumes "isDatabase p s = (Inr False, u)" and "look (tree s) p = Some (FileN d m)"
  shows "\<not> duckFile d"
proof
  assume duck: "duckFile d"
  obtain r3 s3 where hw: "hasWAL p s = (r3, s3)" by (cases "hasWAL p s")
  have s3: "tree s3 = tree s" by (rule readingD [OF reading_hasWAL hw])
  obtain r4 s4 where rf: "osReadFile p s3 = (r4, s4)" by (cases "osReadFile p s3")
  have "r3 = Inr False" using assms(1) hw by (auto simp: isDatabase_def andThen_def split: sum.splits bool.splits)
  then have "(case r4 of Inl e \<Rightarrow> if isNotExist e then ok False else throw e
      | Inr d \<Rightarrow> if length d < duckMagicOffset + length duckMagic then ok False
         else ok (take (length duckMagic) (drop duckMagicOffset d) = duckMagic)) s4 = (Inr False, u)"
    using assms(1) hw rf by (simp add: isDatabase_def andThen_def observe_apply)
  moreover have "r4 = Inr d \<or> (\<exists>e. r4 = Inl e \<and> \<not> isNotExist e)"
    using rf s3 assms(2) unfolding osReadFile_def by (cases rule: sys_cases) (auto simp: untouched_def)
  ultimately show False using duck by (auto simp: duckFile_def split: if_splits)
qed

lemma readPlain_res:
  assumes "readPlain p s = (r, t)" and "look (tree s) p = Some (FileN d m)"
  shows "tree t = tree s \<and> (\<forall>fs. r = Inr fs \<longrightarrow> fs = [(last p, d)])"
proof -
  obtain r5 s5 where rf: "osReadFile p s = (r5, s5)" by (cases "osReadFile p s")
  with assms(1) have "t = s5" "\<forall>fs. r = Inr fs \<longrightarrow> (\<exists>d. r5 = Inr d \<and> fs = [(last p, d)])"
    by (auto simp: readPlain_def andThen_def wrapping_def split: sum.splits)
  with osReadFile_res [OF rf] assms(2) show ?thesis by auto
qed

text \<open>The ways through \<open>snapshot\<close> of a file that exists.\<close>

lemma snapshot_cases:
  assumes "snapshot ck pid p s = (r, t)" and "look (tree s) p = Some (FileN d m)"
  obtains e where "r = Inl e" "tree t = tree s"
  | s2 where "tree s2 = tree s" "snapshotDB ck pid p s2 = (r, t)"
  | s2 where "tree s2 = tree s" "readPlain p s2 = (r, t)" "\<not> duckFile d"
proof -
  obtain r1 s1 where st: "osStat p s = (r1, s1)" by (cases "osStat p s")
  note st' = osStat_res [OF st]
  obtain r2 s2 where db: "isDatabase p s1 = (r2, s2)" by (cases "isDatabase p s1")
  have s2: "tree s2 = tree s" using readingD [OF reading_isDatabase db] st' by simp
  show thesis
  proof (cases r1)
    case (Inl e)
    then have "\<not> isNotExist e" using st' assms(2) by auto
    then have "r = Inl (Wrap ''reading: '' e)" "t = s1" using assms(1) st Inl
      by (auto simp: snapshot_def andThen_def observe_apply)
    with st' that(1) show thesis by simp
  next
    case k: (Inr k)
    show thesis
    proof (cases r2)
      case e: (Inl e)
      then have "r = Inl (Wrap ''examining: '' e)" "t = s2" using assms(1) st k db
        by (auto simp: snapshot_def andThen_def observe_apply wrapping_def)
      with s2 that(1) show thesis by simp
    next
      case b: (Inr b)
      then have go: "(if b then snapshotDB ck pid p s2 else readPlain p s2) = (r, t)" using assms(1) st k db
        by (cases b) (simp_all add: snapshot_def andThen_def observe_apply wrapping_def)
      show thesis
      proof (cases b)
        case True
        with go s2 that(2) show thesis by simp
      next
        case False
        with isDatabase_magic [of p s1 s2 d m] db b st' assms(2) have "\<not> duckFile d" by simp
        with go False s2 that(3) show thesis by simp
      qed
    qed
  qed
qed

text \<open>
  Claim C3.  A snapshot loses nothing and leaves no log behind: for a file that exists and is a
  database or has no log beside it, whatever call fails, the contents, that is the file with its
  log folded in, stay what they were, and a snapshot that succeeds is one entry named after the
  file with exactly these contents.  \<open>ck\<close> is what the engine's checkpoint makes of file and log.
\<close>

theorem snapshot_takes_whole_database:
  assumes "p \<noteq> []" "look (tree s) p = Some (FileN d m)"
    and "duckFile d \<or> \<not> isFile (look (tree s) (sfx p walSuffix))"
  shows "case snapshot ck pid p s of (r, t) \<Rightarrow>
    effective ck p (look (tree t)) = effective ck p (look (tree s))
    \<and> (case r of Inl e \<Rightarrow> True | Inr fs \<Rightarrow> fs = [(last p, the (effective ck p (look (tree s))))])"
proof -
  let ?c = "effective ck p (lk s)"
  have some: "?c \<noteq> None" using assms(2) by (auto simp: effective_def split: option.split node.split)
  obtain r t where run: "snapshot ck pid p s = (r, t)" by (cases "snapshot ck pid p s")
  from run assms(2) have "means ck p ?c t \<and> (\<forall>fs. r = Inr fs \<longrightarrow> fs = [(last p, the ?c)])"
  proof (cases rule: snapshot_cases)
    case (1 e)
    then show ?thesis by simp
  next
    case (2 s2)
    from snapshotDB_res [OF 2(2) assms(1) _ some] 2(1) show ?thesis by simp
  next
    case (3 s2)
    then have "?c = Some d" using assms(2,3) by (auto simp: effective_def isFile_def split: option.split node.split)
    with readPlain_res [OF 3(2), of d m] 3(1) assms(2) show ?thesis by simp
  qed
  with run show ?thesis by (auto split: sum.split)
qed

definition sampleDb :: fsys where
  "sampleDb = \<lparr>tree = [([lit ''d''], DirN), ([lit ''d'', lit ''x''], FileN (lit ''12345678DUCK...'') 420),
     ([lit ''d'', lit ''x.wal''], FileN (lit ''+log'') 384)], faults = [], rand = [],
     rounds = replicate 2 \<lparr>tried = Inr True, clock = 1, ended = None\<rparr>, started = 0, flocked = []\<rparr>"

theorem snapshot_takes_whole_database_witness:
  "effective (@) [lit ''d'', lit ''x''] (look (tree (snd (snapshot (@) 7 [lit ''d'', lit ''x''] sampleDb))))
      = Some (lit ''12345678DUCK...+log'')
   \<and> fst (snapshot (@) 7 [lit ''d'', lit ''x''] sampleDb) = Inr [(lit ''x'', lit ''12345678DUCK...+log'')]"
proof -
  let ?p = "[lit ''d'', lit ''x'']"
  have l: "look (tree sampleDb) ?p = Some (FileN (lit ''12345678DUCK...'') 420)" by code_simp
  have eff: "effective (@) ?p (look (tree sampleDb)) = Some (lit ''12345678DUCK...+log'')" by code_simp
  have duck: "duckFile (lit ''12345678DUCK...'')" by code_simp
  obtain r t where run: "snapshot (@) 7 ?p sampleDb = (r, t)" by (cases "snapshot (@) 7 ?p sampleDb")
  have "\<exists>fs. fst (snapshot (@) 7 ?p sampleDb) = Inr fs"
  proof -
    have "fst (snapshot (@) 7 ?p sampleDb) = Inr [(lit ''x'', lit ''12345678DUCK...+log'')]" by code_simp
    then show ?thesis by blast
  qed
  then obtain fs where "r = Inr fs" using run by auto
  with snapshot_takes_whole_database [OF _ l disjI1 [OF duck], of "(@)" 7, unfolded run prod.case] eff run
  show ?thesis by simp
qed

end
