(* ===== verification/ConfigFiles.thy ===== *)
theory ConfigFiles
  imports BackupRestore
begin

text \<open>
  src/config/files.go and the file part of src/config/config.go: files under an application's
  home, archiving, guarded removal; and src/lifecycle (install, clean, nuke, hooks).  Paths are
  strings here; \<open>at cwd p\<close> is the place in the file system that \<open>p\<close> names for a process in the
  directory \<open>cwd\<close>.  Parameters: the Unicode tables, the environment, the stamp of the clock, and
  the callbacks an application supplies.
\<close>

definition Abs :: "gostr \<Rightarrow> gostr \<Rightarrow> gostr" where
  "Abs cwd p = (if IsAbs p then Clean p else PathJoin [cwd, p])"

definition at :: "gostr \<Rightarrow> gostr \<Rightarrow> path" where
  "at cwd p = comps (Abs cwd p)"

section \<open>config.go: home and the config file\<close>

type_synonym format = gostr

definition FormatYAML :: format where "FormatYAML = lit ''yaml''"
definition FormatJSON :: format where "FormatJSON = lit ''json''"

definition defaultBasenames :: "gostr list" where
  "defaultBasenames = [lit ''config.yaml'', lit ''config.yml'', lit ''config.json'']"

definition Home :: "(gostr \<Rightarrow> gostr) \<Rightarrow> err + gostr \<Rightarrow> gostr \<Rightarrow> gostr \<Rightarrow> gostr \<Rightarrow> err + gostr" where
  "Home getenv userHome override envVar dirName =
     (if override \<noteq> [] then Inr override
      else if envVar \<noteq> [] \<and> getenv envVar \<noteq> [] then Inr (getenv envVar)
      else (case userHome of
          Inl e \<Rightarrow> Inl (Wrap ''cannot resolve home directory: '' e)
        | Inr hdir \<Rightarrow> Inr (PathJoin [hdir, dirName])))"

definition formatOf :: "unicode \<Rightarrow> gostr \<Rightarrow> format" where
  "formatOf U name = (if EqualFold U (Ext name) (lit ''.json'') then FormatJSON else FormatYAML)"

fun readFirst :: "unicode \<Rightarrow> gostr \<Rightarrow> gostr \<Rightarrow> gostr list \<Rightarrow> (bytes \<times> format) fsact" where
  "readFirst U cwd home [] = ok ([], [])"
| "readFirst U cwd home (name # names) =
     andThen (observe (osReadFile (at cwd (PathJoin [home, name])))) (\<lambda>r. case r of
       Inr data \<Rightarrow> ok (data, formatOf U name)
     | Inl e \<Rightarrow> if \<not> isNotExist e then throw (Wrap ''reading: '' e) else readFirst U cwd home names)"

definition ReadFile :: "unicode \<Rightarrow> gostr \<Rightarrow> gostr \<Rightarrow> gostr list \<Rightarrow> (bytes \<times> format) fsact" where
  "ReadFile U cwd home basenames =
     readFirst U cwd home (if basenames = [] then defaultBasenames else basenames)"

section \<open>files.go\<close>

definition WriteItem :: "gostr \<Rightarrow> gostr \<Rightarrow> gostr \<Rightarrow> bytes \<Rightarrow> gostr fsact" where
  "WriteItem cwd dir filename content =
     andThen (EnsureDir (at cwd dir)) (\<lambda>_.
     let p = PathJoin [dir, filename] in
     andThen (wrapping (Wrap ''writing: '') (WriteAtomic (at cwd p) content)) (\<lambda>_. ok p))"

definition WriteConfigFile :: "gostr \<Rightarrow> gostr \<Rightarrow> bytes \<Rightarrow> format \<Rightarrow> gostr fsact" where
  "WriteConfigFile cwd home content format =
     (let name = (if format = FormatJSON then lit ''config.json'' else lit ''config.yaml'') in
      WriteItem cwd home name content)"

definition ReadFileAt :: "unicode \<Rightarrow> gostr \<Rightarrow> gostr \<Rightarrow> (bytes \<times> format) fsact" where
  "ReadFileAt U cwd p =
     andThen (wrapping (Wrap ''reading: '') (osReadFile (at cwd p))) (\<lambda>data. ok (data, formatOf U p))"

definition ReadRaw :: "gostr \<Rightarrow> gostr \<Rightarrow> bytes option fsact" where
  "ReadRaw cwd p = andThen (observe (osReadFile (at cwd p))) (\<lambda>r. case r of
     Inl e \<Rightarrow> if isNotExist e then ok None else throw (Wrap ''reading: '' e)
   | Inr data \<Rightarrow> ok (Some data))"

text \<open>Both results of \<open>RemoveFiles\<close>: the removed paths and the error.\<close>

fun removeFilesLoop :: "gostr \<Rightarrow> gostr \<Rightarrow> gostr \<Rightarrow> gostr list \<Rightarrow> gostr list \<Rightarrow> (gostr list \<times> err option) fsact" where
  "removeFilesLoop cwd dir base [] removed = ok (removed, None)"
| "removeFilesLoop cwd dir base (ext # exts) removed =
     (let p = PathJoin [dir, base @ ext] in
      andThen (observe (osRemove (at cwd p))) (\<lambda>r. case r of
        Inr _ \<Rightarrow> removeFilesLoop cwd dir base exts (removed @ [p])
      | Inl e \<Rightarrow> if \<not> isNotExist e then ok (removed, Some (Wrap ''removing: '' e))
                 else removeFilesLoop cwd dir base exts removed))"

definition RemoveFiles :: "gostr \<Rightarrow> gostr \<Rightarrow> gostr \<Rightarrow> gostr list \<Rightarrow> (gostr list \<times> err option) fsact" where
  "RemoveFiles cwd dir base exts =
     removeFilesLoop cwd dir base (if exts = [] then CollectionExts else exts) []"

definition RemoveItem :: "gostr \<Rightarrow> gostr \<Rightarrow> unit fsact" where
  "RemoveItem cwd p = andThen (observe (osRemove (at cwd p))) (\<lambda>r. case r of
     Inl e \<Rightarrow> if \<not> isNotExist e then throw (Wrap ''removing: '' e) else ok ()
   | Inr _ \<Rightarrow> ok ())"

definition Exists :: "gostr \<Rightarrow> gostr \<Rightarrow> bool fsact" where
  "Exists cwd p = andThen (observe (osStat (at cwd p))) (\<lambda>r. case r of Inl e \<Rightarrow> ok False | Inr _ \<Rightarrow> ok True)"

definition IsFile :: "gostr \<Rightarrow> gostr \<Rightarrow> bool fsact" where
  "IsFile cwd p = andThen (observe (osStat (at cwd p))) (\<lambda>r. case r of Inl e \<Rightarrow> ok False | Inr n \<Rightarrow> ok (n \<noteq> DirN))"

definition IsDir :: "gostr \<Rightarrow> gostr \<Rightarrow> bool fsact" where
  "IsDir cwd p = andThen (observe (osStat (at cwd p))) (\<lambda>r. case r of Inl e \<Rightarrow> ok False | Inr n \<Rightarrow> ok (n = DirN))"

text \<open>\<open>filepath.Abs\<close> asks for the working directory, which may fail, when the path is relative.\<close>

definition RemoveAll :: "gostr \<Rightarrow> gostr \<Rightarrow> unit fsact" where
  "RemoveAll cwd p =
     (if TrimSpace p = [] then throw (Msg ''refusing to remove empty path'')
      else andThen (if IsAbs p then ok () else wrapping (Wrap ''resolving: '') quiet) (\<lambda>_.
        let absolute = Clean (Abs cwd p); root = Clean [slash] in
        if absolute = root then throw (Msg ''refusing to remove filesystem root'')
        else wrapping (Wrap ''removing: '') (osRemoveAll (comps absolute))))"

fun archiveDirLoop :: "gostr \<Rightarrow> gostr \<Rightarrow> gostr \<Rightarrow> nat list \<Rightarrow> gostr fsact" where
  "archiveDirLoop cwd root stamp [] = throw (Msg ''too many archives'')"
| "archiveDirLoop cwd root stamp (i # is) =
     (let target = (if i > 1 then PathJoin [root, stamp @ lit ''-'' @ itoa i] else PathJoin [root, stamp]) in
      andThen (observe (osMkdir (at cwd target))) (\<lambda>r. case r of
        Inr _ \<Rightarrow> ok target
      | Inl e \<Rightarrow> if \<not> isExist e then throw (Wrap ''creating: '' e) else archiveDirLoop cwd root stamp is))"

definition newArchiveDir :: "gostr \<Rightarrow> gostr \<Rightarrow> gostr \<Rightarrow> gostr fsact" where
  "newArchiveDir cwd root stamp = archiveDirLoop cwd root stamp [1..<101]"

fun cleanEntries :: "gostr \<Rightarrow> gostr list \<Rightarrow> err + gostr list" where
  "cleanEntries home [] = Inr []"
| "cleanEntries home (name # names) =
     (case JoinUnder home name of
        Inl e \<Rightarrow> Inl (Wrap ''archiving: '' e)
      | Inr p \<Rightarrow> (case Rel home p of
          Inl e \<Rightarrow> Inl (Wrap ''archiving: '' e)
        | Inr r \<Rightarrow> (case cleanEntries home names of Inl e \<Rightarrow> Inl e | Inr rs \<Rightarrow> Inr (r # rs))))"

definition pathOr :: "err + gostr \<Rightarrow> gostr" where
  "pathOr r = (case r of Inl e \<Rightarrow> [] | Inr p \<Rightarrow> p)"

fun archiveEntries :: "gostr \<Rightarrow> gostr \<Rightarrow> gostr \<Rightarrow> gostr list \<Rightarrow> gostr list \<Rightarrow> (gostr list \<times> err option) fsact" where
  "archiveEntries cwd home target [] moved' = ok (moved', None)"
| "archiveEntries cwd home target (n # ns) moved' =
     (let src = pathOr (JoinUnder home n) in
      andThen (Exists cwd src) (\<lambda>there.
        if \<not> there then archiveEntries cwd home target ns moved'
        else let tgt = pathOr (JoinUnder target n) in
          andThen (observe (EnsureDir (at cwd (Dir tgt)))) (\<lambda>r. case r of
            Inl e \<Rightarrow> ok (moved', Some e)
          | Inr _ \<Rightarrow> andThen (observe (osRename (at cwd src) (at cwd tgt))) (\<lambda>r. case r of
              Inl e \<Rightarrow> ok (moved', Some (Wrap ''archiving: '' e))
            | Inr _ \<Rightarrow> archiveEntries cwd home target ns (moved' @ [n])))))"

text \<open>The three results of \<open>Archive\<close>: the directory, what moved, the error.\<close>

definition ArchiveHome :: "gostr \<Rightarrow> gostr \<Rightarrow> gostr \<Rightarrow> gostr list \<Rightarrow> (gostr \<times> gostr list \<times> err option) fsact" where
  "ArchiveHome cwd stamp home names =
     (case cleanEntries home names of
        Inl e \<Rightarrow> ok ([], [], Some e)
      | Inr cleaned \<Rightarrow>
          let root = PathJoin [home, lit ''.archive''] in
          andThen (observe (EnsureDir (at cwd root))) (\<lambda>r. case r of
            Inl e \<Rightarrow> ok ([], [], Some e)
          | Inr _ \<Rightarrow> andThen (observe (newArchiveDir cwd root stamp)) (\<lambda>r. case r of
              Inl e \<Rightarrow> ok ([], [], Some e)
            | Inr target \<Rightarrow> andThen (archiveEntries cwd home target cleaned []) (\<lambda>(moved', failed). case failed of
                Some e \<Rightarrow> ok (target, moved', Some e)
              | None \<Rightarrow> andThen (if moved' = [] then attempt (osRemove (at cwd target)) else ok ())
                  (\<lambda>_. ok (target, moved', None))))))"

definition UserConfigPath :: "err + gostr \<Rightarrow> gostr \<Rightarrow> gostr \<Rightarrow> err + gostr" where
  "UserConfigPath userConfigDir app name = (case userConfigDir of
     Inl e \<Rightarrow> Inl (Wrap ''resolving user config dir: '' e)
   | Inr d \<Rightarrow> Inr (PathJoin [d, app, name]))"

section \<open>lifecycle\<close>

record fileSeed =
  RelPath :: gostr
  Content :: bytes

record installSpec =
  specHome :: gostr
  Force :: bool
  Dirs :: "gostr list"
  SeedFiles :: "fileSeed list"
  ConfigBasenames :: "gostr list"

fun anyConfig :: "gostr \<Rightarrow> gostr \<Rightarrow> gostr list \<Rightarrow> bool fsact" where
  "anyConfig cwd home [] = ok False"
| "anyConfig cwd home (n # ns) = andThen (IsFile cwd (PathJoin [home, n])) (\<lambda>f.
     if f then ok True else anyConfig cwd home ns)"

definition installDir :: "gostr \<Rightarrow> gostr \<Rightarrow> gostr \<Rightarrow> unit fsact" where
  "installDir cwd home d =
     (case (if d \<noteq> [] then JoinUnder home d else Inr home) of
        Inl e \<Rightarrow> throw (Wrap ''install directory: '' e)
      | Inr p \<Rightarrow> EnsureDir (at cwd p))"

text \<open>Both results: the created paths (dropped on most errors, as the code does) and the error.\<close>

fun installFiles :: "gostr \<Rightarrow> installSpec \<Rightarrow> fileSeed list \<Rightarrow> gostr list \<Rightarrow> (gostr list \<times> err option) fsact" where
  "installFiles cwd spec [] created = ok (created, None)"
| "installFiles cwd spec (f # fs) created =
     (case JoinUnder (specHome spec) (RelPath f) of
        Inl e \<Rightarrow> ok (created, Some (Wrap ''install file: '' e))
      | Inr p \<Rightarrow>
          andThen (if Force spec then ok False else IsFile cwd p) (\<lambda>keep.
            if keep then installFiles cwd spec fs created
            else andThen (observe (EnsureDir (at cwd (Dir p)))) (\<lambda>r. case r of
              Inl e \<Rightarrow> ok ([], Some e)
            | Inr _ \<Rightarrow> andThen (observe (WriteItem cwd (Dir p) (Base p) (Content f))) (\<lambda>r. case r of
                Inl e \<Rightarrow> ok ([], Some e)
              | Inr _ \<Rightarrow> installFiles cwd spec fs (created @ [p])))))"

text \<open>\<open>callback\<close> is the application's callback, given the created paths and able to change them.\<close>

definition Install :: "gostr \<Rightarrow> (gostr \<Rightarrow> gostr list \<Rightarrow> (gostr list \<times> err option) fsact) option
    \<Rightarrow> installSpec \<Rightarrow> (gostr list \<times> err option) fsact" where
  "Install cwd callback spec =
     (let home = specHome spec in
      if home = [] then ok ([], Some (Msg ''lifecycle: empty home''))
      else
        let basenames = (if ConfigBasenames spec = [] then defaultBasenames else ConfigBasenames spec) in
        andThen (if Force spec then ok False else anyConfig cwd home basenames) (\<lambda>installed.
          if installed then ok ([], Some (Msg ''already has a config file''))
          else andThen (observe (each (installDir cwd home) ([] # Dirs spec))) (\<lambda>r. case r of
            Inl e \<Rightarrow> ok ([], Some e)
          | Inr _ \<Rightarrow> andThen (installFiles cwd spec (SeedFiles spec) []) (\<lambda>(created, failed). case failed of
              Some e \<Rightarrow> ok (created, Some e)
            | None \<Rightarrow> (case callback of None \<Rightarrow> ok (created, None) | Some f \<Rightarrow> f home created)))))"

definition LifecycleClean :: "gostr \<Rightarrow> gostr \<Rightarrow> gostr \<Rightarrow> gostr list \<Rightarrow> (gostr \<times> gostr list \<times> err option) fsact" where
  "LifecycleClean cwd stamp home names = ArchiveHome cwd stamp home names"

definition Nuke :: "gostr \<Rightarrow> (gostr \<Rightarrow> gostr list \<Rightarrow> (gostr list \<times> err option) fsact) option
    \<Rightarrow> gostr \<Rightarrow> installSpec \<Rightarrow> (gostr list \<times> err option) fsact" where
  "Nuke cwd callback home reinstall =
     andThen (observe (RemoveAll cwd home)) (\<lambda>r. case r of
       Inl e \<Rightarrow> ok ([], Some (Wrap ''removing: '' e))
     | Inr _ \<Rightarrow> Install cwd callback (reinstall\<lparr>specHome := home, Force := True\<rparr>))"

text \<open>Hooks: which script runs, and running it with an injected runner.\<close>

record scripts =
  Bash :: gostr
  PowerShell :: gostr

definition Select :: "bool \<Rightarrow> scripts \<Rightarrow> (gostr \<times> gostr) option" where
  "Select windows s =
     (let bash = TrimSpace (Bash s); ps = TrimSpace (PowerShell s) in
      if windows then
        if ps \<noteq> [] then Some (lit ''powershell'', ps)
        else if bash \<noteq> [] then Some (lit ''bash'', bash) else None
      else if bash \<noteq> [] then Some (lit ''bash'', bash)
        else if ps \<noteq> [] then Some (lit ''powershell'', ps) else None)"

definition RunScriptsWith :: "bool \<Rightarrow> (gostr \<Rightarrow> gostr \<Rightarrow> err option) \<Rightarrow> scripts \<Rightarrow> err option" where
  "RunScriptsWith windows run s = (case Select windows s of None \<Rightarrow> None | Some (kind, script) \<Rightarrow> run kind script)"

text \<open>\<open>lookPath\<close> and \<open>exec\<close> are the search on PATH and the running of a command.\<close>

definition LookBash :: "(gostr \<Rightarrow> gostr option) \<Rightarrow> err + gostr" where
  "LookBash lookPath = (case lookPath (lit ''bash'') of Some p \<Rightarrow> Inr p
     | None \<Rightarrow> (case lookPath (lit ''sh'') of Some p \<Rightarrow> Inr p | None \<Rightarrow> Inl (Msg ''bash/sh not found on PATH'')))"

definition LookPowerShell :: "(gostr \<Rightarrow> gostr option) \<Rightarrow> err + gostr" where
  "LookPowerShell lookPath = (case lookPath (lit ''pwsh'') of Some p \<Rightarrow> Inr p
     | None \<Rightarrow> (case lookPath (lit ''powershell'') of Some p \<Rightarrow> Inr p
        | None \<Rightarrow> Inl (Msg ''pwsh/powershell not found on PATH'')))"

definition runBash :: "(gostr \<Rightarrow> gostr option) \<Rightarrow> (gostr \<Rightarrow> gostr list \<Rightarrow> err option) \<Rightarrow> gostr \<Rightarrow> err option" where
  "runBash lookPath execute script = (case LookBash lookPath of
     Inl e \<Rightarrow> Some e | Inr bin \<Rightarrow> map_option (Wrap ''bash hook: '') (execute bin [lit ''-c'', script]))"

definition runPowerShell :: "(gostr \<Rightarrow> gostr option) \<Rightarrow> (gostr \<Rightarrow> gostr list \<Rightarrow> err option) \<Rightarrow> gostr \<Rightarrow> err option" where
  "runPowerShell lookPath execute script = (case LookPowerShell lookPath of
     Inl e \<Rightarrow> Some e
   | Inr bin \<Rightarrow> map_option (Wrap ''powershell hook: '')
       (execute bin [lit ''-NoProfile'', lit ''-NonInteractive'', lit ''-Command'', script]))"

definition DefaultRun :: "(gostr \<Rightarrow> gostr option) \<Rightarrow> (gostr \<Rightarrow> gostr list \<Rightarrow> err option) \<Rightarrow> gostr \<Rightarrow> gostr \<Rightarrow> err option" where
  "DefaultRun lookPath execute kind script =
     (if kind = lit ''bash'' then runBash lookPath execute script
      else if kind = lit ''powershell'' then runPowerShell lookPath execute script
      else Some (Msg ''unknown shell kind''))"

definition RunScripts :: "bool \<Rightarrow> (gostr \<Rightarrow> gostr option) \<Rightarrow> (gostr \<Rightarrow> gostr list \<Rightarrow> err option) \<Rightarrow> scripts \<Rightarrow> err option" where
  "RunScripts windows lookPath execute s = RunScriptsWith windows (DefaultRun lookPath execute) s"

section \<open>Where paths lead\<close>

lemma comps_Abs: "IsAbs cwd \<Longrightarrow> IsAbs (Abs cwd p)"
proof (cases "IsAbs p")
  case True
  then show ?thesis using comps_Clean [of p] by (simp add: Abs_def)
next
  case False
  assume a: "IsAbs cwd"
  then have "cwd \<noteq> []" by (auto simp: IsAbs_def)
  with a False show ?thesis
  proof (cases "p = []")
    case True
    with \<open>cwd \<noteq> []\<close> a comps_Clean [of cwd] False show ?thesis by (simp add: Abs_def PathJoin_def)
  next
    case ne: False
    have "PathJoin [cwd, p] = Clean (cwd @ slash # p)" using \<open>cwd \<noteq> []\<close> ne by (simp add: PathJoin_def)
    with a \<open>cwd \<noteq> []\<close> False comps_Clean [of "cwd @ slash # p"] show ?thesis by (simp add: Abs_def IsAbs_append)
  qed
qed

text \<open>Two spellings with the same components and the same rootedness lead to the same place.\<close>

lemma fold_join:
  assumes "\<forall>c \<in> set cs. slash \<notin> set c"
  shows "fold (cleanStep True) (rev (fold (cleanStep False) cs [])) out = fold (cleanStep True) cs out"
  using assms
proof (induction cs rule: rev_induct)
  case (snoc c cs)
  define f where "f = fold (cleanStep False) cs []"
  have IH: "fold (cleanStep True) (rev f) out = fold (cleanStep True) cs out" using snoc by (simp add: f_def)
  have sh: "cleanList False (rev f)" unfolding f_def by (rule fold_shape) (use snoc.prems in auto)
  have "fold (cleanStep True) (rev (cleanStep False c f)) out = cleanStep True c (fold (cleanStep True) cs out)"
  proof (cases "c = [] \<or> c = dot")
    case True
    then show ?thesis using IH by auto
  next
    case False
    show ?thesis
    proof (cases "c = dotdot")
      case dd: True
      show ?thesis
      proof (cases f)
        case Nil
        then show ?thesis using IH dd by simp
      next
        case (Cons d ds)
        show ?thesis
        proof (cases "d = dotdot")
          case True
          then show ?thesis using IH dd Cons by simp
        next
          case nd: False
          with cleanList_set [OF sh, of d] Cons have p: "plain d" by simp
          have "fold (cleanStep True) cs out = d # fold (cleanStep True) (rev ds) out" using IH Cons p by simp
          then show ?thesis using dd Cons nd by simp
        qed
      qed
    next
      case nd: False
      with False snoc.prems have "plain c" by (auto simp: plain_def)
      then show ?thesis using IH by simp
    qed
  qed
  then show ?case by (simp add: f_def)
qed simp

lemma at_comps:
  assumes "IsAbs cwd" "p \<noteq> []"
  shows "at cwd p = (if IsAbs p then comps p else rev (fold (cleanStep True) (comps p) (rev (comps cwd))))"
proof (cases "IsAbs p")
  case True
  then show ?thesis using comps_Clean [of p] by (simp add: at_def Abs_def)
next
  case False
  have "at cwd p = joinp (comps cwd) p"
    using comps_PathJoin [OF assms] False by (simp add: at_def Abs_def)
  also have "\<dots> = rev (fold (cleanStep True) (comps p) (rev (comps cwd)))"
    unfolding joinp_def comps_def [of p] using False fold_join [OF Split1_no_sep] by simp
  finally show ?thesis using False by simp
qed

lemma at_same:
  assumes "IsAbs cwd" "p \<noteq> []" "q \<noteq> []" "IsAbs p = IsAbs q" "comps p = comps q"
  shows "at cwd p = at cwd q"
  using at_comps [OF assms(1,2)] at_comps [OF assms(1,3)] assms(4,5) by simp

text \<open>What \<open>JoinUnder\<close> accepts can be taken apart and put together.\<close>

lemma JoinUnder_parts:
  assumes "JoinUnder base r = Inr p"
  shows "\<exists>bs c. comps p = bs @ [c] \<and> plain c \<and> Clean p = p \<and> p \<noteq> []"
proof -
  note j = JoinUnder_comps [OF assms]
  have b: "base \<noteq> []" "p = PathJoin [base, Clean r]"
    using assms by (auto simp: JoinUnder_def Let_def TrimSpace_def split: if_splits)
  then have "Clean p = p" using Clean_PathJoin by simp
  moreover from this have "p \<noteq> []" using Clean_nonempty [of p] by simp
  moreover obtain bs c where "comps p = bs @ [c]" "c \<in> set (comps r)"
  proof -
    obtain rs c where "comps r = rs @ [c]" using j by (cases "comps r" rule: rev_cases) auto
    then show ?thesis using that [of "comps base @ rs" c] j by simp
  qed
  ultimately show ?thesis using j by auto
qed

lemma at_Dir_Base:
  assumes "IsAbs cwd" "JoinUnder base r = Inr p"
  shows "at cwd (PathJoin [Dir p, Base p]) = at cwd p"
proof -
  obtain bs c where p: "comps p = bs @ [c]" "plain c" "Clean p = p" "p \<noteq> []" using JoinUnder_parts [OF assms(2)] by blast
  note bd = Base_Dir [OF p(3,1)]
  have cc: "comps c = [c]" "\<not> IsAbs c" "c \<noteq> []"
    using p(2) by (auto simp: comps_def plain_def Split1_plain IsAbs_def split: list.splits)
  have "comps (PathJoin [Dir p, c]) = bs @ [c] \<and> IsAbs (PathJoin [Dir p, c]) = IsAbs p"
    using comps_join [of "Dir p" c] bd cc p(2) by simp
  moreover have "PathJoin [Dir p, c] \<noteq> []" using Clean_PathJoin [of "Dir p" c] bd Clean_nonempty by metis
  ultimately show ?thesis using at_same [OF assms(1)] p bd by metis
qed

section \<open>Calls without faults\<close>

abbreviation faultless :: "fsys \<Rightarrow> bool" where "faultless s \<equiv> faults s = []"

named_theorems quiets "calls that bring no fault of their own"

lemma sys_faultless: "(\<And>s. faults (snd (call s)) = faults s) \<Longrightarrow> keeps faultless (sys partial call)"
  by (simp add: keeps_def sys_def)

lemma calls_faultless [quiets]:
  "keeps faultless (osStat p)" "keeps faultless (osMkdir p)" "keeps faultless quiet" "keeps faultless (osTemp n d pre)"
  "keeps faultless (osRemove p)" "keeps faultless (osRename a b)" "keeps faultless (fileChmod p m)"
  "keeps faultless (fileWrite p c)"
  unfolding osStat_def osMkdir_def quiet_def osTemp_def osRemove_def osRename_def fileChmod_def fileWrite_def
  by (rule sys_faultless, simp add: appendTo_def split: option.split node.split prod.split)+

lemmas combi_faultless [quiets] = combi_ok [where I = faultless] andThen_okFs [where I = faultless] each_ok [where I = faultless]

lemma SyncDir_faultless [quiets]: "keeps faultless (SyncDir d)"
  unfolding SyncDir_def by (intro quiets) (auto split: sum.split intro!: quiets)

lemma WriteAtomic_faultless [quiets]: "keeps faultless (WriteAtomic p c)"
  unfolding WriteAtomic_def by (intro quiets)

lemma mkdirAll_faultless [quiets]: "keeps faultless (mkdirAll d ns)"
proof (induction ns arbitrary: d)
  case (Cons n ns)
  then show ?case by (auto split: sum.split node.split intro!: quiets)
qed (auto intro: quiets)

lemma EnsureDir_faultless [quiets]: "keeps faultless (EnsureDir p)"
  unfolding EnsureDir_def by (intro quiets)

lemma IsFile_faultless [quiets]: "keeps faultless (IsFile cwd p)"
  unfolding IsFile_def by (intro quiets) (auto split: sum.split intro!: quiets)

lemma IsFile_res:
  assumes "IsFile cwd p s = (r, t)"
  shows "tree t = tree s" "faultless s \<Longrightarrow> r = Inr (\<exists>n. lk s (at cwd p) = Some n \<and> n \<noteq> DirN)"
    "\<exists>b. r = Inr b \<and> (b \<longrightarrow> (\<exists>n. lk s (at cwd p) = Some n \<and> n \<noteq> DirN))"
proof -
  obtain r1 s1 where st: "osStat (at cwd p) s = (r1, s1)" by (cases "osStat (at cwd p) s")
  then have rt: "t = s1" "r = Inr (case r1 of Inl e \<Rightarrow> False | Inr n \<Rightarrow> n \<noteq> DirN)"
    using assms by (auto simp: IsFile_def andThen_def observe_def split: sum.splits)
  note res = osStat_res [OF st]
  then show "tree t = tree s" using rt by simp
  show "\<exists>b. r = Inr b \<and> (b \<longrightarrow> (\<exists>n. lk s (at cwd p) = Some n \<and> n \<noteq> DirN))"
    using rt res by (cases r1) auto
  assume "faultless s"
  then have "r1 = (case lk s (at cwd p) of Some n \<Rightarrow> Inr n | None \<Rightarrow> Inl noSuch)"
    using st by (auto simp: osStat_def sys_def split: option.splits)
  then show "r = Inr (\<exists>n. lk s (at cwd p) = Some n \<and> n \<noteq> DirN)" using rt by (cases "lk s (at cwd p)") auto
qed

section \<open>Installing\<close>

definition seedPlace :: "gostr \<Rightarrow> gostr \<Rightarrow> fileSeed \<Rightarrow> path" where
  "seedPlace cwd home f = at cwd (pathOr (JoinUnder home (RelPath f)))"

text \<open>What one seed may do to the tree: add, or put its own content at its own place.\<close>

lemma WriteItem_res:
  assumes "okFs s" "WriteItem cwd d n c s = (r, t)"
  shows "lk t q = lk s q \<or> lk s q = None \<or> q = at cwd (PathJoin [d, n]) \<and> lk t q = Some (FileN c 384) \<and> lk s q \<noteq> Some DirN"
    and "r = Inr p \<Longrightarrow> lk t (at cwd (PathJoin [d, n])) = Some (FileN c 384)"
    and "okFs t" and "faultless s \<Longrightarrow> faultless t"
proof -
  obtain r1 s1 where e: "EnsureDir (at cwd d) s = (r1, s1)" by (cases "EnsureDir (at cwd d) s")
  note er = EnsureDir_res [OF e]
  have ok1: "okFs s1" by (rule keepsD [OF EnsureDir_ok assms(1) e])
  have c1: "faultless s \<Longrightarrow> faultless s1" by (rule keepsD [OF EnsureDir_faultless _ e])
  have all: "(lk t q = lk s q \<or> lk s q = None \<or> q = at cwd (PathJoin [d, n]) \<and> lk t q = Some (FileN c 384) \<and> lk s q \<noteq> Some DirN) \<and>
      (r = Inr p \<longrightarrow> lk t (at cwd (PathJoin [d, n])) = Some (FileN c 384)) \<and> okFs t \<and> (faultless s \<longrightarrow> faultless t)"
  proof (cases r1)
    case (Inl x)
    then have "t = s1" "r = Inl x" using assms(2) e by (simp_all add: WriteItem_def andThen_def)
    with spec [OF conjunct1 [OF er], of q] ok1 c1 show ?thesis by auto
  next
    case (Inr u)
    obtain r2 s2 where w: "WriteAtomic (at cwd (PathJoin [d, n])) c s1 = (r2, s2)" by (cases "WriteAtomic (at cwd (PathJoin [d, n])) c s1")
    have t: "t = s2" and r: "r = Inr p \<longrightarrow> r2 = Inr ()" using assms(2) e Inr w
      by (auto simp: WriteItem_def Let_def andThen_def wrapping_def split: sum.splits)
    note wr = WriteAtomic_res [OF ok1 w]
    have "lk s2 q = lk s1 q \<or> lk s1 q = None \<or> q = at cwd (PathJoin [d, n]) \<and> lk s2 q = Some (FileN c 384) \<and> lk s1 q \<noteq> Some DirN"
      using wr by (elim disjE exE conjE) (simp_all split: if_split)
    moreover have "okFs s2" by (rule keepsD [OF WriteAtomic_ok ok1 w])
    moreover have "faultless s \<longrightarrow> faultless s2" using keepsD [OF WriteAtomic_faultless _ w] c1 by blast
    moreover have "r = Inr p \<longrightarrow> lk s2 (at cwd (PathJoin [d, n])) = Some (FileN c 384)" using wr r by auto
    ultimately show ?thesis
      using spec [OF conjunct1 [OF er], of q] unfolding t by auto
  qed
  then show "lk t q = lk s q \<or> lk s q = None \<or> q = at cwd (PathJoin [d, n]) \<and> lk t q = Some (FileN c 384) \<and> lk s q \<noteq> Some DirN" ..
  from all show "okFs t" "faultless s \<Longrightarrow> faultless t" by blast+
  assume "r = Inr p"
  with all show "lk t (at cwd (PathJoin [d, n])) = Some (FileN c 384)" by blast
qed

text \<open>
  What an installation may do to the entries there were: nothing, or, where that is allowed, put a
  seed's content at the seed's own place.
\<close>

definition seedsOnly :: "gostr \<Rightarrow> gostr \<Rightarrow> bool \<Rightarrow> fileSeed list \<Rightarrow> fsys \<Rightarrow> fsys \<Rightarrow> bool" where
  "seedsOnly cwd home may fs s t \<longleftrightarrow>
     (\<forall>q n. lk s q = Some n \<longrightarrow> lk t q = Some n
        \<or> may \<and> n \<noteq> DirN \<and> (\<exists>f \<in> set fs. q = seedPlace cwd home f \<and> lk t q = Some (FileN (Content f) 384)))"

definition seedThere :: "gostr \<Rightarrow> gostr \<Rightarrow> fsys \<Rightarrow> fileSeed \<Rightarrow> bool" where
  "seedThere cwd home t f \<longleftrightarrow> (\<exists>n. lk t (seedPlace cwd home f) = Some n \<and> n \<noteq> DirN)"

lemma seedsOnlyI: "(\<And>q. lk t q = lk s q \<or> lk s q = None) \<Longrightarrow> seedsOnly cwd home may fs s t"
  unfolding seedsOnly_def by (metis option.distinct(1))

lemma seedsOnly_mono:
  "seedsOnly cwd home may fs s t \<Longrightarrow> set fs \<subseteq> set fs' \<Longrightarrow> (may \<Longrightarrow> may') \<Longrightarrow> seedsOnly cwd home may' fs' s t"
  unfolding seedsOnly_def by blast

lemma seedsOnly_trans:
  assumes "seedsOnly cwd home may fs s t" "seedsOnly cwd home may' fs' t u" "may \<or> may' \<Longrightarrow> m"
  shows "seedsOnly cwd home m (fs @ fs') s u"
  unfolding seedsOnly_def
proof (intro allI impI)
  fix q n
  assume q: "lk s q = Some n"
  from assms(1) q consider "lk t q = Some n"
    | f where "may" "n \<noteq> DirN" "f \<in> set fs" "q = seedPlace cwd home f" "lk t q = Some (FileN (Content f) 384)"
    unfolding seedsOnly_def by blast
  then show "lk u q = Some n \<or> m \<and> n \<noteq> DirN \<and> (\<exists>f \<in> set (fs @ fs'). q = seedPlace cwd home f \<and> lk u q = Some (FileN (Content f) 384))"
  proof cases
    case 1
    with assms(2,3) show ?thesis unfolding seedsOnly_def by auto
  next
    case 2
    with assms(2) have "lk u q = Some (FileN (Content f) 384)
        \<or> may' \<and> (\<exists>f \<in> set fs'. q = seedPlace cwd home f \<and> lk u q = Some (FileN (Content f) 384))"
      unfolding seedsOnly_def by blast
    with 2 assms(3) show ?thesis by auto
  qed
qed

lemma seedThere_later:
  "seedThere cwd home s f \<Longrightarrow> seedsOnly cwd home may fs s t \<Longrightarrow> seedThere cwd home t f"
  unfolding seedThere_def seedsOnly_def by fastforce

lemma writeSeed_res:
  assumes "okFs s" "IsAbs cwd" "JoinUnder home (RelPath f) = Inr p"
    and "WriteItem cwd (Dir p) (Base p) (Content f) s = (r, t)"
  shows "okFs t" "faultless s \<Longrightarrow> faultless t" "seedsOnly cwd home True [f] s t"
    "r = Inr x \<Longrightarrow> seedThere cwd home t f"
    "\<not> seedThere cwd home s f \<Longrightarrow> seedsOnly cwd home False [f] s t"
proof -
  note w = WriteItem_res [OF assms(1,4)]
  have pl: "at cwd (PathJoin [Dir p, Base p]) = seedPlace cwd home f"
    using at_Dir_Base [OF assms(2,3)] assms(3) by (simp add: seedPlace_def pathOr_def)
  show "okFs t" "faultless s \<Longrightarrow> faultless t" by (fact w(3,4))+
  show "seedsOnly cwd home True [f] s t" unfolding seedsOnly_def
  proof (intro allI impI)
    fix q n
    assume "lk s q = Some n"
    with w(1) [of q] pl show "lk t q = Some n \<or> True \<and> n \<noteq> DirN \<and> (\<exists>f \<in> set [f]. q = seedPlace cwd home f \<and> lk t q = Some (FileN (Content f) 384))"
      by auto
  qed
  show "seedThere cwd home t f" if "r = Inr x" using w(2) [OF that] pl by (simp add: seedThere_def)
  show "seedsOnly cwd home False [f] s t" if "\<not> seedThere cwd home s f"
  proof (intro seedsOnlyI)
    fix q
    show "lk t q = lk s q \<or> lk s q = None"
      using w(1) [of q] that pl by (cases "lk s q") (auto simp: seedThere_def)
  qed
qed

text \<open>One seed: what happens to the tree, and whether the loop goes on.\<close>

lemma installFiles_step:
  assumes "IsAbs cwd" "okFs s" "installFiles cwd spec (f # fs) created s = (r, t)"
    "may \<longleftrightarrow> \<not> faultless s \<or> Force spec"
  obtains v where "okFs v" "faultless s \<longrightarrow> faultless v" "seedsOnly cwd (specHome spec) may [f] s v"
    "(\<exists>created'. installFiles cwd spec fs created' v = (r, t) \<and> seedThere cwd (specHome spec) v f)
      \<or> v = t \<and> (\<nexists>c. r = Inr (c, None))"
proof -
  let ?h = "specHome spec"
  note result = that
  show thesis
  proof (cases "JoinUnder ?h (RelPath f)")
    case (Inl e)
    with assms(2,3) show ?thesis by (intro result [of s]) (auto intro: seedsOnlyI)
  next
    case (Inr p)
    have pl: "seedPlace cwd ?h f = at cwd p" by (simp add: seedPlace_def pathOr_def Inr)
    obtain k s1 where k: "(if Force spec then ok False else IsFile cwd p) s = (Inr k, s1)"
      and t1: "tree s1 = tree s" and c1: "faultless s \<longrightarrow> faultless s1"
      and kt: "k \<longrightarrow> seedThere cwd ?h s f" and kf: "\<not> k \<longrightarrow> \<not> may \<longrightarrow> \<not> seedThere cwd ?h s f"
    proof (cases "Force spec")
      case True
      then show ?thesis using that [of False s] assms(4) by simp
    next
      case False
      obtain r1 s1 where i: "IsFile cwd p s = (r1, s1)" by (cases "IsFile cwd p s")
      note ir = IsFile_res [OF i]
      obtain k where "r1 = Inr k" using ir(3) by blast
      with ir pl keepsD [OF IsFile_faultless _ i] False i assms(4) show ?thesis
        by (intro that [of k s1]) (auto simp: seedThere_def)
    qed
    have ok1: "okFs s1" using assms(2) t1 by simp
    show ?thesis
    proof (cases k)
      case True
      with assms(3) Inr k have "installFiles cwd spec fs created s1 = (r, t)" by (simp add: andThen_def)
      moreover have "seedThere cwd ?h s1 f" using kt True t1 by (simp add: seedThere_def)
      ultimately show ?thesis using ok1 c1 t1 by (intro result [of s1]) (auto intro: seedsOnlyI)
    next
      case False
      obtain r2 s2 where e: "EnsureDir (at cwd (Dir p)) s1 = (r2, s2)" by (cases "EnsureDir (at cwd (Dir p)) s1")
      have ok2: "okFs s2" by (rule keepsD [OF EnsureDir_ok ok1 e])
      have c2: "faultless s \<longrightarrow> faultless s2" using keepsD [OF EnsureDir_faultless _ e] c1 by blast
      have d2: "lk s2 q = lk s q \<or> lk s q = None \<and> lk s2 q = Some DirN" for q
        using EnsureDir_res [OF e] t1 by auto
      have d2s: "seedsOnly cwd ?h may [] s s2" by (intro seedsOnlyI) (metis d2)
      have run: "(case r2 of Inl e \<Rightarrow> ok ([], Some e)
          | Inr _ \<Rightarrow> andThen (observe (WriteItem cwd (Dir p) (Base p) (Content f))) (\<lambda>r. case r of
              Inl e \<Rightarrow> ok ([], Some e) | Inr _ \<Rightarrow> installFiles cwd spec fs (created @ [p]))) s2 = (r, t)"
        using assms(3) Inr k False e by (cases r2; simp add: andThen_def observe_apply)
      show ?thesis
      proof (cases r2)
        case (Inl x)
        with run have "t = s2" "r = Inr ([], Some x)" by simp_all
        with ok2 c2 seedsOnly_mono [OF d2s] show ?thesis by (intro result [of s2]) auto
      next
        case (Inr u)
        obtain r3 s3 where w: "WriteItem cwd (Dir p) (Base p) (Content f) s2 = (r3, s3)"
          by (cases "WriteItem cwd (Dir p) (Base p) (Content f) s2")
        note wr = writeSeed_res [OF ok2 assms(1) \<open>JoinUnder ?h (RelPath f) = Inr p\<close> w]
        have "seedsOnly cwd ?h may [f] s2 s3"
        proof (cases may)
          case False
          have "\<not> seedThere cwd ?h s2 f"
            using kf \<open>\<not> k\<close> False d2 [of "seedPlace cwd ?h f"] by (auto simp: seedThere_def)
          from wr(5) [OF this] False show ?thesis by simp
        qed (simp add: wr(3))
        then have so: "seedsOnly cwd ?h may [f] s s3"
          using seedsOnly_trans [OF d2s, of may "[f]" s3 may] by simp
        have "(\<exists>created'. installFiles cwd spec fs created' s3 = (r, t) \<and> seedThere cwd ?h s3 f)
            \<or> s3 = t \<and> (\<nexists>c. r = Inr (c, None))"
        proof (cases r3)
          case (Inl x)
          with run Inr w show ?thesis by (auto simp: andThen_def observe_apply)
        next
          case (Inr y)
          with run \<open>r2 = Inr u\<close> w wr(4) show ?thesis by (auto simp: andThen_def observe_apply)
        qed
        with wr(1,2) c2 so show ?thesis by (intro result [of s3]) auto
      qed
    qed
  qed
qed

lemma installFiles_res:
  assumes "IsAbs cwd" "okFs s" "installFiles cwd spec fs created s = (r, t)"
    "may \<longleftrightarrow> \<not> faultless s \<or> Force spec"
  shows "seedsOnly cwd (specHome spec) may fs s t
    \<and> ((\<exists>c. r = Inr (c, None)) \<longrightarrow> list_all (seedThere cwd (specHome spec) t) fs)"
  using assms
proof (induction fs arbitrary: s created may)
  case Nil
  then show ?case by (auto intro: seedsOnlyI)
next
  case (Cons f fs)
  let ?h = "specHome spec"
  obtain v where v: "okFs v" "faultless s \<longrightarrow> faultless v" "seedsOnly cwd ?h may [f] s v"
    and rest: "(\<exists>created'. installFiles cwd spec fs created' v = (r, t) \<and> seedThere cwd ?h v f)
      \<or> v = t \<and> (\<nexists>c. r = Inr (c, None))"
    by (rule installFiles_step [OF Cons.prems])
  from rest show ?case
  proof
    assume "\<exists>created'. installFiles cwd spec fs created' v = (r, t) \<and> seedThere cwd ?h v f"
    then obtain created' where run: "installFiles cwd spec fs created' v = (r, t)" and f: "seedThere cwd ?h v f" by blast
    note IH = Cons.IH [OF Cons.prems(1) v(1) run refl]
    have "may \<or> (\<not> faultless v \<or> Force spec) \<Longrightarrow> may" using Cons.prems(4) v(2) by blast
    from seedsOnly_trans [OF v(3) conjunct1 [OF IH] this] have "seedsOnly cwd ?h may (f # fs) s t" by simp
    moreover have "seedThere cwd ?h t f" using seedThere_later f IH by blast
    ultimately show ?thesis using IH by simp
  next
    assume e: "v = t \<and> (\<nexists>c. r = Inr (c, None))"
    with seedsOnly_mono [OF v(3)] have "seedsOnly cwd ?h may (f # fs) s t" by simp
    with e show ?thesis by blast
  qed
qed

lemma installDir_res:
  assumes "okFs s" "installDir cwd home d s = (r, t)"
  shows "okFs t" "faultless s \<Longrightarrow> faultless t" "seedsOnly cwd h may [] s t"
proof -
  have "t = s \<or> (\<exists>p r'. EnsureDir p s = (r', t))"
    using assms(2) by (auto simp: installDir_def split: sum.splits if_splits)
  then consider "t = s" | p r' where "EnsureDir p s = (r', t)" by blast
  then have all: "okFs t \<and> (faultless s \<longrightarrow> faultless t) \<and> (\<forall>q. lk t q = lk s q \<or> lk s q = None)"
  proof cases
    case (2 p r')
    have "lk t q = lk s q \<or> lk s q = None" for q using spec [OF conjunct1 [OF EnsureDir_res [OF 2]], of q] by auto
    moreover have "okFs t" by (rule keepsD [OF EnsureDir_ok assms(1) 2])
    moreover have "faultless s \<longrightarrow> faultless t" using keepsD [OF EnsureDir_faultless _ 2] by blast
    ultimately show ?thesis by blast
  qed (simp add: assms(1))
  then show "okFs t" "faultless s \<Longrightarrow> faultless t" by simp_all
  show "seedsOnly cwd h may [] s t" by (rule seedsOnlyI) (rule spec [OF conjunct2 [OF conjunct2 [OF all]]])
qed

lemma installDirs_res:
  "okFs s \<Longrightarrow> each (installDir cwd home) ds s = (r, t) \<Longrightarrow>
     okFs t \<and> (faultless s \<longrightarrow> faultless t) \<and> seedsOnly cwd h may [] s t"
proof (induction ds arbitrary: s)
  case Nil
  then show ?case by (auto intro: seedsOnlyI)
next
  case (Cons d ds)
  obtain r1 s1 where d: "installDir cwd home d s = (r1, s1)" by (cases "installDir cwd home d s")
  note dr = installDir_res [OF Cons.prems(1) d]
  show ?case
  proof (cases r1)
    case (Inl e)
    with Cons.prems(2) d dr show ?thesis by (simp add: andThen_def)
  next
    case (Inr u)
    with Cons.prems(2) d have run: "each (installDir cwd home) ds s1 = (r, t)" by (simp add: andThen_def)
    note IH = Cons.IH [OF dr(1) run]
    have "seedsOnly cwd h may ([] @ []) s t"
      by (rule seedsOnly_trans [OF dr(3) [of h may] conjunct2 [OF conjunct2 [OF IH]]]) simp
    with IH dr(2) show ?thesis by simp
  qed
qed

lemma anyConfig_res:
  "okFs s \<Longrightarrow> anyConfig cwd home ns s = (r, t) \<Longrightarrow>
     tree t = tree s \<and> (faultless s \<longrightarrow> faultless t) \<and> (\<exists>b. r = Inr b)
     \<and> (faultless s \<longrightarrow> r = Inr (\<exists>n \<in> set ns. \<exists>k. lk s (at cwd (PathJoin [home, n])) = Some k \<and> k \<noteq> DirN))"
proof (induction ns arbitrary: s)
  case (Cons n ns)
  obtain r1 s1 where i: "IsFile cwd (PathJoin [home, n]) s = (r1, s1)" by (cases "IsFile cwd (PathJoin [home, n]) s")
  note ir = IsFile_res [OF i] and ic = keepsD [OF IsFile_faultless _ i]
  obtain b where b: "r1 = Inr b" using ir(3) by blast
  show ?case
  proof (cases b)
    case True
    with Cons.prems(2) i b have "t = s1" "r = Inr True" by (auto simp: andThen_def)
    with ir ic b True show ?thesis by auto
  next
    case False
    with Cons.prems(2) i b have run: "anyConfig cwd home ns s1 = (r, t)" by (simp add: andThen_def)
    have "okFs s1" using Cons.prems(1) ir(1) by simp
    from Cons.IH [OF this run] ir ic b False show ?thesis by auto
  qed
qed auto

text \<open>Everything \<open>Install\<close> does without a callback.\<close>

lemma Install_res:
  assumes "IsAbs cwd" "okFs s" "Install cwd None spec s = (r, t)"
  shows "seedsOnly cwd (specHome spec) (\<not> faultless s \<or> Force spec) (SeedFiles spec) s t
    \<and> ((\<exists>c. r = Inr (c, None)) \<longrightarrow> list_all (seedThere cwd (specHome spec) t) (SeedFiles spec))
    \<and> (faultless s \<longrightarrow> \<not> Force spec \<longrightarrow> n \<in> set (if ConfigBasenames spec = [] then defaultBasenames else ConfigBasenames spec) \<longrightarrow>
         lk s (at cwd (PathJoin [specHome spec, n])) = Some k \<longrightarrow> k \<noteq> DirN \<longrightarrow> tree t = tree s \<and> (\<exists>e. r = Inr ([], Some e)))"
proof (cases "specHome spec = []")
  case True
  with assms(3) show ?thesis by (auto simp: Install_def intro: seedsOnlyI)
next
  case False
  let ?h = "specHome spec" and ?names = "if ConfigBasenames spec = [] then defaultBasenames else ConfigBasenames spec"
  let ?may = "\<not> faultless s \<or> Force spec"
  obtain k0 s1 where k: "(if Force spec then ok False else anyConfig cwd ?h ?names) s = (Inr k0, s1)"
    and t1: "tree s1 = tree s" and c1: "faultless s \<longrightarrow> faultless s1"
    and kf: "faultless s \<and> \<not> Force spec \<longrightarrow> k0 = (\<exists>n \<in> set ?names. \<exists>k. lk s (at cwd (PathJoin [?h, n])) = Some k \<and> k \<noteq> DirN)"
  proof (cases "Force spec")
    case True
    then show ?thesis using that [of False s] by simp
  next
    case False
    obtain r1 s1 where i: "anyConfig cwd ?h ?names s = (r1, s1)" by (cases "anyConfig cwd ?h ?names s")
    from anyConfig_res [OF assms(2) i] False i show ?thesis by (auto intro: that)
  qed
  have ok1: "okFs s1" using assms(2) t1 by simp
  have s1: "seedsOnly cwd ?h ?may [] s s1" using t1 by (auto intro: seedsOnlyI)
  have run: "(if k0 then ok ([], Some (Msg ''already has a config file''))
      else andThen (observe (each (installDir cwd ?h) ([] # Dirs spec))) (\<lambda>r. case r of
        Inl e \<Rightarrow> ok ([], Some e)
      | Inr _ \<Rightarrow> andThen (installFiles cwd spec (SeedFiles spec) []) (\<lambda>(created, failed). case failed of
          Some e \<Rightarrow> ok (created, Some e) | None \<Rightarrow> ok (created, None)))) s1 = (r, t)"
    using assms(3) unfolding Install_def Let_def if_not_P [OF False] option.case
      step_ok [of "if Force spec then ok False else anyConfig cwd ?h ?names" s k0 s1, OF k] .
  show ?thesis
  proof (cases k0)
    case True
    with run have "t = s1" "r = Inr ([], Some (Msg ''already has a config file''))" by simp_all
    with t1 seedsOnly_mono [OF s1, of "SeedFiles spec" ?may] show ?thesis by simp
  next
    case nk: False
    obtain r2 s2 where e: "each (installDir cwd ?h) ([] # Dirs spec) s1 = (r2, s2)"
      by (cases "each (installDir cwd ?h) ([] # Dirs spec) s1")
    have er: "okFs s2" "faultless s1 \<longrightarrow> faultless s2" "seedsOnly cwd ?h ?may [] s1 s2"
      using installDirs_res [OF ok1 e] by blast+
    have so: "seedsOnly cwd ?h ?may [] s s2" using seedsOnly_trans [OF s1 er(3), of ?may] by simp
    have no: "\<not> (faultless s \<and> \<not> Force spec \<and> n \<in> set ?names \<and> lk s (at cwd (PathJoin [?h, n])) = Some k \<and> k \<noteq> DirN)"
      using kf nk by blast
    show ?thesis
    proof (cases r2)
      case (Inl x)
      from run nk Inl have "t = s2" "r = Inr ([], Some x)" by (simp_all only: if_False step_observe [of "each (installDir cwd ?h) ([] # Dirs spec)" s1 r2 s2, OF e] sum.case ok_apply prod.inject)
      moreover have "seedsOnly cwd ?h ?may (SeedFiles spec) s s2" by (rule seedsOnly_mono [OF so]) simp_all
      ultimately show ?thesis using no by blast
    next
      case (Inr u)
      obtain r3 s3 where f: "installFiles cwd spec (SeedFiles spec) [] s2 = (r3, s3)"
        by (cases "installFiles cwd spec (SeedFiles spec) [] s2")
      note fr = installFiles_res [OF assms(1) er(1) f refl]
      have "andThen (installFiles cwd spec (SeedFiles spec) []) (\<lambda>(created, failed). case failed of
          Some e \<Rightarrow> ok (created, Some e) | None \<Rightarrow> ok (created, None)) s2 = (r, t)"
        using run nk Inr by (simp only: if_False step_observe [of "each (installDir cwd ?h) ([] # Dirs spec)" s1 r2 s2, OF e] sum.case)
      then have "t = s3" "(\<exists>c. r = Inr (c, None)) \<longrightarrow> (\<exists>c. r3 = Inr (c, None))"
        using f by (auto simp: andThen_def split: sum.splits prod.splits option.splits)
      moreover have "seedsOnly cwd ?h ?may ([] @ SeedFiles spec) s s3"
        by (rule seedsOnly_trans [OF so conjunct1 [OF fr]]) (use er(2) c1 in blast)
      ultimately show ?thesis using fr no unfolding append_Nil by blast
    qed
  qed
qed

text \<open>
  Claim C26.  \<open>Install\<close> (without a callback, in a well-formed tree, from an absolute directory) keeps
  what is there: whatever fails, every entry of the file system stays as it was, except that,
  when forced or when a system call failed, a file at the place of a seed may have that seed's
  content; a directory is never replaced.  When it returns without an error every seed has a file at its
  place.  And when nothing fails, it is not forced and one of the configuration files exists, it
  changes nothing and returns an error.
\<close>

theorem install_keeps_existing_files:
  assumes "okTree (tree s)" "IsAbs cwd" "Install cwd None spec s = (r, t)"
  shows "(\<forall>q n. look (tree s) q = Some n \<longrightarrow> look (tree t) q = Some n
        \<or> (faults s \<noteq> [] \<or> Force spec) \<and> n \<noteq> DirN
          \<and> (\<exists>f \<in> set (SeedFiles spec). q = seedPlace cwd (specHome spec) f
               \<and> look (tree t) q = Some (FileN (Content f) 384)))
    \<and> ((\<exists>c. r = Inr (c, None)) \<longrightarrow> (\<forall>f \<in> set (SeedFiles spec). seedThere cwd (specHome spec) t f))
    \<and> (\<forall>n k. faults s = [] \<longrightarrow> \<not> Force spec
        \<longrightarrow> n \<in> set (if ConfigBasenames spec = [] then defaultBasenames else ConfigBasenames spec)
        \<longrightarrow> look (tree s) (at cwd (PathJoin [specHome spec, n])) = Some k \<longrightarrow> k \<noteq> DirN
        \<longrightarrow> tree t = tree s \<and> (\<exists>e. r = Inr ([], Some e)))"
proof (intro conjI)
  note res = Install_res [OF assms(2,1,3), unfolded seedsOnly_def list_all_iff]
  show "\<forall>q n. look (tree s) q = Some n \<longrightarrow> look (tree t) q = Some n
        \<or> (faults s \<noteq> [] \<or> Force spec) \<and> n \<noteq> DirN
          \<and> (\<exists>f \<in> set (SeedFiles spec). q = seedPlace cwd (specHome spec) f
               \<and> look (tree t) q = Some (FileN (Content f) 384))"
    by (rule conjunct1 [OF res])
  show "(\<exists>c. r = Inr (c, None)) \<longrightarrow> (\<forall>f \<in> set (SeedFiles spec). seedThere cwd (specHome spec) t f)"
    by (rule conjunct1 [OF conjunct2 [OF res]])
qed (intro allI, rule conjunct2 [OF conjunct2 [OF Install_res [OF assms(2,1,3)]]])

definition sampleSpec :: "gostr list \<Rightarrow> installSpec" where
  "sampleSpec names = \<lparr>specHome = lit ''/h'', Force = False, Dirs = [],
     SeedFiles = [\<lparr>RelPath = lit ''a'', Content = lit ''new''\<rparr>, \<lparr>RelPath = lit ''d/b'', Content = lit ''b''\<rparr>],
     ConfigBasenames = names\<rparr>"

theorem install_keeps_existing_files_witness:
  "fst (Install (lit ''/'') None (sampleSpec []) (sampleFs [])) = Inr ([lit ''/h/d/b''], None)
   \<and> look (tree (snd (Install (lit ''/'') None (sampleSpec []) (sampleFs [])))) [lit ''h'', lit ''a'']
      = Some (FileN (lit ''old'') 384)
   \<and> seedThere (lit ''/'') (lit ''/h'') (snd (Install (lit ''/'') None (sampleSpec []) (sampleFs [])))
       \<lparr>RelPath = lit ''d/b'', Content = lit ''b''\<rparr>
   \<and> tree (snd (Install (lit ''/'') None (sampleSpec [lit ''a'']) (sampleFs []))) = tree (sampleFs [])"
proof (intro conjI)
  have abs: "IsAbs (lit ''/'')" by code_simp
  obtain r t where run: "Install (lit ''/'') None (sampleSpec []) (sampleFs []) = (r, t)"
    by (cases "Install (lit ''/'') None (sampleSpec []) (sampleFs [])")
  obtain r' t' where run': "Install (lit ''/'') None (sampleSpec [lit ''a'']) (sampleFs []) = (r', t')"
    by (cases "Install (lit ''/'') None (sampleSpec [lit ''a'']) (sampleFs [])")
  note w = install_keeps_existing_files [OF sampleFs_ok abs run]
    and w' = install_keeps_existing_files [OF sampleFs_ok abs run']
  have "fst (Install (lit ''/'') None (sampleSpec []) (sampleFs [])) = Inr ([lit ''/h/d/b''], None)" by code_simp
  then show r: "fst (Install (lit ''/'') None (sampleSpec []) (sampleFs [])) = Inr ([lit ''/h/d/b''], None)" .
  have "look (tree (sampleFs [])) [lit ''h'', lit ''a''] = Some (FileN (lit ''old'') 384)" by code_simp
  with conjunct1 [OF w] show "look (tree (snd (Install (lit ''/'') None (sampleSpec []) (sampleFs [])))) [lit ''h'', lit ''a'']
      = Some (FileN (lit ''old'') 384)" unfolding run by (simp add: sampleSpec_def sampleFs_def)
  show "seedThere (lit ''/'') (lit ''/h'') (snd (Install (lit ''/'') None (sampleSpec []) (sampleFs [])))
       \<lparr>RelPath = lit ''d/b'', Content = lit ''b''\<rparr>"
    using conjunct1 [OF conjunct2 [OF w]] r unfolding run by (simp add: sampleSpec_def)
  have "look (tree (sampleFs [])) (at (lit ''/'') (PathJoin [lit ''/h'', lit ''a''])) = Some (FileN (lit ''old'') 384)"
    by code_simp
  with conjunct2 [OF conjunct2 [OF w']]
  show "tree (snd (Install (lit ''/'') None (sampleSpec [lit ''a'']) (sampleFs []))) = tree (sampleFs [])"
    unfolding run' by (simp add: sampleSpec_def sampleFs_def)
qed

text \<open>A failing \<open>Stat\<close> is taken for a missing file, which is then overwritten without \<open>Force\<close>.\<close>

lemma stat_error_overwrites:
  "\<not> Force (sampleSpec [])
   \<and> look (tree (sampleFs [])) [lit ''h'', lit ''a''] = Some (FileN (lit ''old'') 384)
   \<and> (case Install (lit ''/'') None (sampleSpec []) ((sampleFs [Fine, Fine, Fine, Fine, Fails (OsErr ''interrupted'') 0])
          \<lparr>rand := [lit ''1'', lit ''2'']\<rparr>) of
        (r, t) \<Rightarrow> r = Inr ([lit ''/h/a'', lit ''/h/d/b''], None)
          \<and> look (tree t) [lit ''h'', lit ''a''] = Some (FileN (lit ''new'') 384))"
  by code_simp

end
