(* ===== verification/ConfigDB.thy ===== *)
theory ConfigDB
  imports Stores ConfigFiles
begin

text \<open>
  src/configdb (configdb.go, revision.go): the versioned store of configuration documents, one
  current snapshot per name and its archived predecessors, and the marker file that changes with
  every write.  The state is the store of theory Stores over the two tables, the path of the
  database and the file system of theory FileSys.  Parameters: SHA-256, the engine's order of tied rows, the
  precision of its timestamps.  \<open>clk\<close> gives the successive readings of the clock in one call.  The
  history's sequence number is left out: no statement reads it.
\<close>

section \<open>Data\<close>

record Snapshot =
  Name :: gostr
  Sum :: gostr
  Fmt :: format
  Doc :: bytes
  At :: time

record cfgTables =
  current :: "Snapshot list"
  history :: "Snapshot list"

record cfgStore =
  docs :: "cfgTables store"
  dbPath :: gostr
  home :: fsys

type_synonym 'a cfgop = "(cfgStore, err, 'a) act"
type_synonym sha = "bytes \<Rightarrow> bytes"

definition cfgErrUnavailable :: err where
  "cfgErrUnavailable = ErrUnavailable []"

text \<open>Methods use the database or the file system of the store.\<close>

definition onDocs :: "(cfgTables store, err, 'a) act \<Rightarrow> 'a cfgop" where
  "onDocs m s = (case m (docs s) of (r, d) \<Rightarrow> (r, s\<lparr>docs := d\<rparr>))"

definition onHome :: "'a fsact \<Rightarrow> 'a cfgop" where
  "onHome m s = (case m (home s) of (r, f) \<Rightarrow> (r, s\<lparr>home := f\<rparr>))"

definition isNil :: "cfgStore \<Rightarrow> bool" where
  "isNil s \<longleftrightarrow> \<not> present (docs s)"

section \<open>Methods\<close>

definition cfg_Open :: "call \<Rightarrow> unit cfgop" where
  "cfg_Open c = onDocs (\<lambda>d. case Ensure (env c) (lockPath c) (opened d) of (r, w) \<Rightarrow> (r, d\<lparr>opened := w\<rparr>))"

definition cfg_Close :: "string \<Rightarrow> cfgStore \<Rightarrow> cfgStore" where
  "cfg_Close path s =
     (if isNil s then s
      else let w = opened (docs s) in
        (case Close path (hnd w, tab w) of (h, m) \<Rightarrow> s\<lparr>docs := (docs s)\<lparr>opened := w\<lparr>hnd := h, tab := m\<rparr>\<rparr>\<rparr>))"

definition hexDigit :: "int \<Rightarrow> rune" where
  "hexDigit n = (if n < 10 then 48 + n else 87 + n)"

definition EncodeToString :: "bytes \<Rightarrow> gostr" where
  "EncodeToString b = concat (map (\<lambda>x. [hexDigit (x div 16), hexDigit (x mod 16)]) b)"

definition Hash :: "sha \<Rightarrow> format \<Rightarrow> bytes \<Rightarrow> gostr" where
  "Hash H fmt content = EncodeToString (H (fmt @ [0] @ content))"

definition currentOn :: "faults \<Rightarrow> gostr \<Rightarrow> (cfgTables conn, err, Snapshot option) act" where
  "currentOn F name = query F (\<lambda>d. find (\<lambda>v. Name v = name) (current d))"

definition cfg_Current :: "call \<Rightarrow> gostr \<Rightarrow> Snapshot option cfgop" where
  "cfg_Current c name s =
     (if isNil s then ok None s
      else onDocs (within cfgErrUnavailable c (currentOn (engine c) name)) s)"

definition insertHistory :: "Snapshot \<Rightarrow> cfgTables \<Rightarrow> err + (cfgTables \<times> unit)" where
  "insertHistory v d = Inr (d\<lparr>history := history d @ [v]\<rparr>, ())"

definition deleteCurrent :: "gostr \<Rightarrow> cfgTables \<Rightarrow> err + (cfgTables \<times> int)" where
  "deleteCurrent name d = (case deleteWhere (\<lambda>v. Name v = name) (current d) of
     Inl e \<Rightarrow> Inl e | Inr (t, n) \<Rightarrow> Inr (d\<lparr>current := t\<rparr>, n))"

definition deleteHistory :: "gostr \<Rightarrow> cfgTables \<Rightarrow> err + (cfgTables \<times> int)" where
  "deleteHistory name d = (case deleteWhere (\<lambda>v. Name v = name) (history d) of
     Inl e \<Rightarrow> Inl e | Inr (t, n) \<Rightarrow> Inr (d\<lparr>history := t\<rparr>, n))"

definition insertCurrent :: "Snapshot \<Rightarrow> cfgTables \<Rightarrow> err + (cfgTables \<times> unit)" where
  "insertCurrent v d = (case insertKeyed Name v (current d) of
     Inl e \<Rightarrow> Inl e | Inr (t, u) \<Rightarrow> Inr (d\<lparr>current := t\<rparr>, u))"

definition importBody :: "(time \<Rightarrow> time) \<Rightarrow> faults \<Rightarrow> (nat \<Rightarrow> time) \<Rightarrow> Snapshot \<Rightarrow> Snapshot option
    \<Rightarrow> (cfgTables conn, err, unit) act" where
  "importBody ts F clk v cur = inTx F
     (andThen (case cur of None \<Rightarrow> ok () | Some v0 \<Rightarrow> exec F (insertHistory (v0\<lparr>At := ts (clk 0)\<rparr>))) (\<lambda>_.
      andThen (exec F (deleteCurrent (Name v))) (\<lambda>_.
      exec F (insertCurrent (v\<lparr>At := ts (clk 1)\<rparr>)))))"

text \<open>revision.go\<close>

definition revSuffix :: gostr where "revSuffix = lit ''.gen''"

definition SplitPath :: "gostr \<Rightarrow> gostr \<times> gostr" where
  "SplitPath p = (rev (dropWhile (\<lambda>r. r \<noteq> slash) (rev p)), rev (takeWhile (\<lambda>r. r \<noteq> slash) (rev p)))"

definition digit36 :: "nat \<Rightarrow> rune" where
  "digit36 n = (if n < 10 then 48 + int n else 87 + int n)"

fun itoa36 :: "nat \<Rightarrow> gostr" where
  "itoa36 n = (if n < 36 then [digit36 n] else itoa36 (n div 36) @ [digit36 (n mod 36)])"

declare itoa36.simps [simp del]

definition FormatInt36 :: "int \<Rightarrow> gostr" where
  "FormatInt36 i = (if i < 0 then 45 # itoa36 (nat (- i)) else itoa36 (nat i))"

text \<open>\<open>UnixNano\<close> of a time that counts from Go's zero time.\<close>

definition UnixNano :: "time \<Rightarrow> int" where
  "UnixNano t = wrap64 (t - 62135596800 * 1000000000)"

definition revision :: "sha \<Rightarrow> time \<Rightarrow> bytes \<Rightarrow> gostr" where
  "revision H t change = FormatInt36 (UnixNano t) @ lit ''-'' @ take 12 (Hash H (lit ''gen'') change)"

definition bump :: "sha \<Rightarrow> gostr \<Rightarrow> time \<Rightarrow> bytes \<Rightarrow> unit cfgop" where
  "bump H cwd t change s =
     (let p = dbPath s @ revSuffix;
          rev = revision H t change;
          (dir, file) = SplitPath p;
          dir = (if dir = [] then dot else dir)
      in wrapping ErrGenerationMarker (andThen (onHome (WriteItem cwd dir file (rev @ [10]))) (\<lambda>_. ok ())) s)"

definition Generation :: "gostr \<Rightarrow> cfgStore \<Rightarrow> gostr option \<times> cfgStore" where
  "Generation cwd s =
     (if isNil s then (None, s)
      else (case onHome (osReadFile (at cwd (dbPath s @ revSuffix))) s of
          (Inl e, t) \<Rightarrow> (None, t)
        | (Inr b, t) \<Rightarrow> (let rev = TrimSpace b in (if rev = [] then None else Some rev, t))))"

text \<open>The writers.\<close>

definition cfg_Import :: "(time \<Rightarrow> time) \<Rightarrow> sha \<Rightarrow> call \<Rightarrow> gostr \<Rightarrow> (nat \<Rightarrow> time) \<Rightarrow> gostr \<Rightarrow> bytes \<Rightarrow> format \<Rightarrow> unit cfgop" where
  "cfg_Import ts H c cwd clk name content fmt s =
     (if isNil s then throw cfgErrUnavailable s
      else let hash = Hash H fmt content in
        andThen (onDocs (within cfgErrUnavailable c
          (andThen (currentOn (engine c) name) (\<lambda>cur.
             importBody ts (engine c) clk \<lparr>Name = name, Sum = hash, Fmt = fmt, Doc = content, At = 0\<rparr> cur))))
        (\<lambda>_. bump H cwd (clk 2) (name @ lit '':'' @ hash)) s)"

definition cfg_Forget :: "sha \<Rightarrow> call \<Rightarrow> gostr \<Rightarrow> (nat \<Rightarrow> time) \<Rightarrow> gostr \<Rightarrow> unit cfgop" where
  "cfg_Forget H c cwd clk name s =
     (if isNil s then throw cfgErrUnavailable s
      else andThen (onDocs (within cfgErrUnavailable c (inTx (engine c)
          (andThen (exec (engine c) (deleteCurrent name)) (\<lambda>_.
           andThen (exec (engine c) (deleteHistory name)) (\<lambda>_. ok ()))))))
        (\<lambda>_. bump H cwd (clk 0) (lit ''forget:'' @ name)) s)"

text \<open>\<open>ORDER BY archived_at DESC LIMIT\<close>: \<open>arr\<close> decides among equal times.\<close>

definition byArchived :: "(Snapshot list \<Rightarrow> Snapshot list) \<Rightarrow> Snapshot list \<Rightarrow> Snapshot list" where
  "byArchived arr t = sort_key (\<lambda>v. - At v) (arr t)"

definition cfg_History :: "(Snapshot list \<Rightarrow> Snapshot list) \<Rightarrow> call \<Rightarrow> gostr \<Rightarrow> int \<Rightarrow> Snapshot list cfgop" where
  "cfg_History arr c name limit s =
     (if isNil s then ok [] s
      else let limit = (if limit \<le> 0 then 50 else limit) in
        onDocs (within cfgErrUnavailable c (query (engine c) (\<lambda>d.
          take (nat limit) (byArchived arr (filter (\<lambda>v. Name v = name) (history d)))))) s)"

section \<open>What the methods do to the tables\<close>

definition currentOf :: "cfgTables \<Rightarrow> gostr \<Rightarrow> Snapshot option" where
  "currentOf d name = find (\<lambda>v. Name v = name) (current d)"

definition pastOf :: "cfgTables \<Rightarrow> gostr \<Rightarrow> Snapshot list" where
  "pastOf d name = filter (\<lambda>v. Name v = name) (history d)"

definition tablesOk :: "sha \<Rightarrow> cfgTables \<Rightarrow> bool" where
  "tablesOk H d \<longleftrightarrow> keyed Name (current d)
     \<and> (\<forall>v \<in> set (current d) \<union> set (history d). Sum v = Hash H (Fmt v) (Doc v))"

definition tables :: "cfgStore \<Rightarrow> cfgTables" where
  "tables s = committed (tablesOf (docs s))"

definition idle :: "cfgStore \<Rightarrow> bool" where
  "idle s \<longleftrightarrow> idle_conn (tablesOf (docs s))"

definition newVersion :: "sha \<Rightarrow> gostr \<Rightarrow> bytes \<Rightarrow> format \<Rightarrow> time \<Rightarrow> Snapshot" where
  "newVersion H name content fmt t = \<lparr>Name = name, Sum = Hash H fmt content, Fmt = fmt, Doc = content, At = t\<rparr>"

lemma newVersion_simps [simp]:
  "Name (newVersion H name content fmt t) = name" "Sum (newVersion H name content fmt t) = Hash H fmt content"
  "Fmt (newVersion H name content fmt t) = fmt" "Doc (newVersion H name content fmt t) = content"
  "At (newVersion H name content fmt t) = t"
  by (simp_all add: newVersion_def)

definition imported :: "Snapshot \<Rightarrow> time \<Rightarrow> cfgTables \<Rightarrow> cfgTables" where
  "imported v t d = \<lparr>current = filter (\<lambda>w. Name w \<noteq> Name v) (current d) @ [v],
     history = history d @ (case currentOf d (Name v) of None \<Rightarrow> [] | Some w \<Rightarrow> [w\<lparr>At := t\<rparr>])\<rparr>"

definition forgotten :: "gostr \<Rightarrow> cfgTables \<Rightarrow> cfgTables" where
  "forgotten name d = \<lparr>current = filter (\<lambda>w. Name w \<noteq> name) (current d), history = filter (\<lambda>w. Name w \<noteq> name) (history d)\<rparr>"

lemma atomically_cong:
  assumes "atomically F m f" "\<And>d. f d = g d"
  shows "atomically F m g"
proof -
  have "f = g" by (rule ext) (rule assms(2))
  with assms(1) show ?thesis by simp
qed

lemma atomically_after_query:
  assumes "\<And>x. atomically F (k x) (g x)"
  shows "atomically F (andThen (query F q) k) (\<lambda>d. g (q d) d)"
  unfolding atomically_def
proof (intro allI impI)
  fix c res c'
  assume i: "idle_conn c" and run: "andThen (query F q) k c = (res, c')"
  obtain r1 c1 where q: "query F q c = (r1, c1)" by fastforce
  show "idle_conn c' \<and> (case res of Inr r \<Rightarrow> g (q (committed c)) (committed c) = Inr (committed c', r)
     | Inl e \<Rightarrow> committed c' = committed c \<and> ((\<exists>n. F n = Some e) \<or> g (q (committed c)) (committed c) = Inl e))"
  proof (cases r1)
    case (Inl e)
    with run q have "res = Inl e" "c' = c1" by (simp_all add: andThen_def)
    with atomically_Inl [OF atomically_query i] q Inl show ?thesis by auto
  next
    case (Inr x)
    with run q have k: "k x c1 = (res, c')" by (simp add: andThen_def)
    have q': "idle_conn c1" "committed c1 = committed c" "x = q (committed c)"
      using atomically_Inr [OF atomically_query i q [unfolded Inr]] by auto
    show ?thesis
    proof (cases res)
      case (Inl e)
      with atomically_Inl [OF assms q'(1)] k q' show ?thesis by auto
    next
      case (Inr y)
      with atomically_Inr [OF assms q'(1)] k q' show ?thesis by auto
    qed
  qed
qed

lemma importBody_atomic:
  "atomically F (importBody ts F clk v cur)
     (\<lambda>d. Inr (d\<lparr>current := filter (\<lambda>w. Name w \<noteq> Name v) (current d) @ [v\<lparr>At := ts (clk 1)\<rparr>],
        history := history d @ (case cur of None \<Rightarrow> [] | Some w \<Rightarrow> [w\<lparr>At := ts (clk 0)\<rparr>])\<rparr>, ()))"
proof -
  let ?first = "case cur of None \<Rightarrow> ok () | Some v0 \<Rightarrow> exec F (insertHistory (v0\<lparr>At := ts (clk 0)\<rparr>))"
  have first: "implements F ?first (\<lambda>d. Inr (d\<lparr>history := history d @ (case cur of None \<Rightarrow> [] | Some w \<Rightarrow> [w\<lparr>At := ts (clk 0)\<rparr>])\<rparr>, ()))"
  proof (cases cur)
    case None
    then show ?thesis using implements_ok [of F "()"] by simp
  next
    case (Some w)
    then show ?thesis using implements_exec [of F "insertHistory (w\<lparr>At := ts (clk 0)\<rparr>)"]
      by (simp add: insertHistory_def [abs_def])
  qed
  show ?thesis
    unfolding importBody_def
    by (rule atomically_cong [OF atomically_inTx [OF implements_andThen [OF first
          implements_andThen [OF implements_exec implements_exec]]]])
      (auto simp: seqF_def deleteCurrent_def deleteWhere_def insertCurrent_def insertKeyed_def)
qed

lemma import_atomic:
  "atomically F (andThen (currentOn F (Name v)) (\<lambda>cur. importBody ts F clk v cur))
     (\<lambda>d. Inr (imported (v\<lparr>At := ts (clk 1)\<rparr>) (ts (clk 0)) d, ()))"
  unfolding currentOn_def
  by (rule atomically_cong [OF atomically_after_query [OF importBody_atomic]]) (simp add: imported_def currentOf_def)

lemma forget_atomic:
  "atomically F (inTx F (andThen (exec F (deleteCurrent name)) (\<lambda>_. andThen (exec F (deleteHistory name)) (\<lambda>_. ok ()))))
     (\<lambda>d. Inr (forgotten name d, ()))"
  by (rule atomically_cong [OF atomically_inTx [OF implements_andThen [OF implements_exec implements_andThen [OF implements_exec implements_ok]]]])
    (simp add: seqF_def deleteCurrent_def deleteHistory_def deleteWhere_def forgotten_def)

lemma tablesOk_imported:
  assumes "tablesOk H d" "Sum v = Hash H (Fmt v) (Doc v)"
  shows "tablesOk H (imported v t d)"
proof -
  have "Sum w = Hash H (Fmt w) (Doc w)" if "currentOf d (Name v) = Some w" for w
    using that assms(1) by (auto simp: currentOf_def tablesOk_def find_Some_iff)
  with assms show ?thesis
    by (auto simp: tablesOk_def imported_def keyed_def distinct_map_filter_key split: option.split)
qed

lemma tablesOk_forgotten: "tablesOk H d \<Longrightarrow> tablesOk H (forgotten name d)"
  by (auto simp: tablesOk_def forgotten_def keyed_filter)

section \<open>What a call does\<close>

lemma onDocs_within:
  assumes "idle s" "atomically (engine c) m (\<lambda>d. Inr (g d, h d))" "onDocs (within u c m) s = (r, s')"
  shows "idle s' \<and> dbPath s' = dbPath s \<and> home s' = home s \<and> isNil s' = isNil s
    \<and> (tables s' = tables s \<and> (\<exists>e. r = Inl e) \<or> tables s' = g (tables s))
    \<and> (\<forall>x. r = Inr x \<longrightarrow> tables s' = g (tables s) \<and> x = h (tables s))"
proof -
  obtain d where w: "within u c m (docs s) = (r, d)" and s': "s' = s\<lparr>docs := d\<rparr>"
    using assms(3) by (auto simp: onDocs_def split: prod.splits)
  have p: "present d = present (docs s)" using w by (auto simp: within_def split: if_splits prod.splits)
  from stored.run_cases [OF w] show ?thesis
  proof (elim disjE exE conjE)
    fix e assume "r = Inl e" "tablesOf d = tablesOf (docs s)"
    with assms(1) s' p show ?thesis by (simp add: idle_def tables_def isNil_def)
  next
    fix r0 assume m: "m (tablesOf (docs s)) = (r0, tablesOf d)" and r: "\<forall>x. r = Inr x \<longrightarrow> r0 = Inr x"
    have i: "idle_conn (tablesOf (docs s))" using assms(1) by (simp add: idle_def)
    show ?thesis
    proof (cases r0)
      case (Inl e)
      with r have "\<exists>e. r = Inl e" by (cases r) auto
      with atomically_Inl [OF assms(2) i] m Inl s' p show ?thesis by (auto simp: idle_def tables_def isNil_def)
    next
      case (Inr x)
      with atomically_Inr [OF assms(2) i] m s' p r show ?thesis by (auto simp: idle_def tables_def isNil_def)
    qed
  qed
qed

section \<open>The marker\<close>

lemma SplitPath_append:
  assumes "SplitPath p = (dir, leaf)"
  shows "p = dir @ leaf" "slash \<notin> set leaf" "dir = [] \<or> (\<exists>a. dir = a @ [slash])"
proof -
  have "rev p = takeWhile (\<lambda>r. r \<noteq> slash) (rev p) @ dropWhile (\<lambda>r. r \<noteq> slash) (rev p)" by simp
  then have "rev (rev p) = rev (dropWhile (\<lambda>r. r \<noteq> slash) (rev p)) @ rev (takeWhile (\<lambda>r. r \<noteq> slash) (rev p))"
    unfolding rev_append [symmetric] by simp
  with assms show "p = dir @ leaf" by (auto simp: SplitPath_def)
  show "slash \<notin> set leaf" using assms by (auto simp: SplitPath_def dest: set_takeWhileD)
  show "dir = [] \<or> (\<exists>a. dir = a @ [slash])"
  proof (cases "dropWhile (\<lambda>r. r \<noteq> slash) (rev p)")
    case Nil
    with assms show ?thesis unfolding SplitPath_def by simp
  next
    case (Cons x xs)
    then have "x = slash" using hd_dropWhile [of "\<lambda>r. r \<noteq> slash" "rev p"] by (metis list.distinct(1) list.sel(1))
    with assms Cons show ?thesis unfolding SplitPath_def by auto
  qed
qed

lemma split_place:
  assumes "IsAbs cwd" "leaf \<noteq> []" "SplitPath p = (dir, leaf)"
  shows "at cwd (PathJoin [if dir = [] then dot else dir, leaf]) = at cwd p"
proof -
  note sp = SplitPath_append [OF assms(3)]
  have p: "p \<noteq> []" using sp(1) assms(2) by simp
  have join: "PathJoin [d, leaf] = Clean (d @ slash # leaf)" if "d \<noteq> []" for d
    using that assms(2) by (simp add: PathJoin_def)
  have "comps (PathJoin [if dir = [] then dot else dir, leaf]) = comps p
      \<and> IsAbs (PathJoin [if dir = [] then dot else dir, leaf]) = IsAbs p"
  proof (cases "dir = []")
    case True
    then have "p = leaf" using sp(1) by simp
    moreover have "\<not> IsAbs leaf" using sp(2) assms(2) by (cases leaf) (auto simp: IsAbs_def)
    moreover have "comps (dot @ slash # leaf) = comps leaf \<and> \<not> IsAbs (dot @ slash # leaf)"
      using \<open>\<not> IsAbs leaf\<close> by (simp add: comps_def Split1_sep_append IsAbs_def dot_def)
        (simp add: cleanStep_def dot_def)
    ultimately show ?thesis using True join [of dot] comps_Clean [of "dot @ slash # leaf"] by (simp add: dot_def)
  next
    case False
    then obtain a where a: "dir = a @ [slash]" using sp(3) by blast
    have "Split1 slash (dir @ slash # leaf) = Split1 slash a @ [] # Split1 slash leaf"
      using Split1_sep_append [of slash a "slash # leaf"] Split1_sep_append [of slash "[]" leaf] a by simp
    moreover have "Split1 slash p = Split1 slash a @ Split1 slash leaf"
      using Split1_sep_append [of slash a leaf] sp(1) a by simp
    moreover have "IsAbs (dir @ slash # leaf) = IsAbs p" using a sp(1) by (cases a) (auto simp: IsAbs_def)
    ultimately have "comps (dir @ slash # leaf) = comps p" by (simp add: comps_def cleanStep_def)
    with False join [OF False] comps_Clean [of "dir @ slash # leaf"] \<open>IsAbs (dir @ slash # leaf) = IsAbs p\<close> show ?thesis by simp
  qed
  moreover have "PathJoin [if dir = [] then dot else dir, leaf] \<noteq> []"
    using join [of "if dir = [] then dot else dir"] Clean_nonempty by (simp add: dot_def)
  ultimately show ?thesis using at_same [OF assms(1) _ p] by blast
qed

definition markerPlace :: "gostr \<Rightarrow> cfgStore \<Rightarrow> path" where
  "markerPlace cwd s = at cwd (dbPath s @ revSuffix)"

lemma bump_res:
  assumes "IsAbs cwd" "okFs (home s)" "bump H cwd t change s = (r, s')"
  shows "docs s' = docs s \<and> dbPath s' = dbPath s \<and> okFs (home s')
    \<and> (r = Inr () \<and> lk (home s') (markerPlace cwd s) = Some (FileN (revision H t change @ [10]) 384)
       \<or> (\<exists>e. r = Inl (ErrGenerationMarker e)))"
proof -
  let ?p = "dbPath s @ revSuffix"
  obtain dir leaf where sp: "SplitPath ?p = (dir, leaf)" by fastforce
  let ?d = "if dir = [] then dot else dir" and ?c = "revision H t change @ [10]"
  obtain r1 f where w: "WriteItem cwd ?d leaf ?c (home s) = (r1, f)" by fastforce
  have s': "s' = s\<lparr>home := f\<rparr>" "r = (case r1 of Inl e \<Rightarrow> Inl (ErrGenerationMarker e) | Inr _ \<Rightarrow> Inr ())"
    using assms(3) w sp by (auto simp: bump_def Let_def wrapping_def andThen_def onHome_def split: sum.splits)
  have ne: "leaf \<noteq> []"
  proof
    assume "leaf = []"
    with SplitPath_append [OF sp] have "dir = ?p" "dir = [] \<or> (\<exists>a. dir = a @ [slash])" by simp_all
    then have "last ?p = slash \<or> ?p = []" by auto
    then show False by (simp add: revSuffix_def)
  qed
  note wr = WriteItem_res [OF assms(2) w]
  have "at cwd (PathJoin [?d, leaf]) = markerPlace cwd s"
    unfolding markerPlace_def by (rule split_place [OF assms(1) ne sp])
  with wr(2,3) s' show ?thesis by (cases r1) auto
qed

lemma cfg_Import_res:
  assumes "IsAbs cwd" "okFs (home s)" "idle s" "cfg_Import ts H c cwd clk name content fmt s = (r, s')"
  shows "idle s' \<and> dbPath s' = dbPath s \<and> okFs (home s')
    \<and> (let new = imported (newVersion H name content fmt (ts (clk 1))) (ts (clk 0)) (tables s) in
        r = Inr () \<and> tables s' = new
          \<and> lk (home s') (markerPlace cwd s) = Some (FileN (revision H (clk 2) (name @ lit '':'' @ Hash H fmt content) @ [10]) 384)
      \<or> (\<exists>e. r = Inl (ErrGenerationMarker e)) \<and> tables s' = new
      \<or> (\<exists>e. r = Inl e) \<and> home s' = home s \<and> (tables s' = tables s \<or> tables s' = new))
    \<and> isNil s' = isNil s"
proof (cases "isNil s")
  case True
  with assms show ?thesis by (auto simp: cfg_Import_def Let_def)
next
  case False
  let ?v = "\<lparr>Name = name, Sum = Hash H fmt content, Fmt = fmt, Doc = content, At = 0\<rparr>"
  let ?m = "andThen (currentOn (engine c) name) (\<lambda>cur. importBody ts (engine c) clk ?v cur)"
  have at: "atomically (engine c) ?m (\<lambda>d. Inr (imported (newVersion H name content fmt (ts (clk 1))) (ts (clk 0)) d, ()))"
    using import_atomic [of "engine c" ?v ts clk] by (simp add: newVersion_def)
  have run: "andThen (onDocs (within cfgErrUnavailable c ?m))
      (\<lambda>_. bump H cwd (clk 2) (name @ lit '':'' @ Hash H fmt content)) s = (r, s')"
    using assms(4) unfolding cfg_Import_def Let_def if_not_P [OF False] .
  from run show ?thesis
  proof (rule andThen_cases)
    fix e assume d: "onDocs (within cfgErrUnavailable c ?m) s = (Inl e, s')" and r: "r = Inl e"
    from onDocs_within [OF assms(3) at d] r assms(2) show ?thesis by (auto simp: Let_def)
  next
    fix u s1
    assume d: "onDocs (within cfgErrUnavailable c ?m) s = (Inr u, s1)"
      and b: "bump H cwd (clk 2) (name @ lit '':'' @ Hash H fmt content) s1 = (r, s')"
    note dr = onDocs_within [OF assms(3) at d]
    have "okFs (home s1)" using dr assms(2) by simp
    note br = bump_res [OF assms(1) this b]
    have m: "markerPlace cwd s1 = markerPlace cwd s" using dr by (simp add: markerPlace_def)
    have "idle s' = idle s1" "tables s' = tables s1" "isNil s' = isNil s1"
      using br by (simp_all add: idle_def tables_def isNil_def)
    with dr br m show ?thesis by (simp add: Let_def) blast
  qed
qed

lemma cfg_Forget_res:
  assumes "IsAbs cwd" "okFs (home s)" "idle s" "cfg_Forget H c cwd clk name s = (r, s')"
  shows "idle s' \<and> dbPath s' = dbPath s \<and> okFs (home s')
    \<and> (tables s' = tables s \<and> (\<exists>e. r = Inl e) \<or> tables s' = forgotten name (tables s))"
proof (cases "isNil s")
  case True
  with assms show ?thesis by (auto simp: cfg_Forget_def)
next
  case False
  let ?m = "inTx (engine c) (andThen (exec (engine c) (deleteCurrent name)) (\<lambda>_.
     andThen (exec (engine c) (deleteHistory name)) (\<lambda>_. ok ())))"
  have run: "andThen (onDocs (within cfgErrUnavailable c ?m)) (\<lambda>_. bump H cwd (clk 0) (lit ''forget:'' @ name)) s = (r, s')"
    using assms(4) unfolding cfg_Forget_def if_not_P [OF False] .
  then show ?thesis
  proof (rule andThen_cases)
    fix e assume d: "onDocs (within cfgErrUnavailable c ?m) s = (Inl e, s')" and r: "r = Inl e"
    from onDocs_within [OF assms(3) forget_atomic d] r assms(2) show ?thesis by auto
  next
    fix u s1
    assume d: "onDocs (within cfgErrUnavailable c ?m) s = (Inr u, s1)"
      and b: "bump H cwd (clk 0) (lit ''forget:'' @ name) s1 = (r, s')"
    note dr = onDocs_within [OF assms(3) forget_atomic d]
    have "okFs (home s1)" using dr assms(2) by simp
    note br = bump_res [OF assms(1) this b]
    have "idle s' = idle s1" "tables s' = tables s1" using br by (simp_all add: idle_def tables_def)
    with dr br show ?thesis by simp
  qed
qed

text \<open>The readers change nothing but the handle.\<close>

lemma reader_res:
  assumes "idle s" "onDocs (within u c (query (engine c) q)) s = (r, s')"
  shows "idle s' \<and> tables s' = tables s \<and> home s' = home s \<and> dbPath s' = dbPath s \<and> isNil s' = isNil s
    \<and> (\<forall>x. r = Inr x \<longrightarrow> x = q (tables s))"
  using onDocs_within [OF assms(1) atomically_query assms(2)] by auto

lemma cfg_Current_res:
  assumes "idle s" "cfg_Current c name s = (r, s')"
  shows "idle s' \<and> tables s' = tables s \<and> home s' = home s \<and> dbPath s' = dbPath s \<and> isNil s' = isNil s
    \<and> (\<forall>x. r = Inr x \<longrightarrow> x = (if isNil s then None else currentOf (tables s) name))"
proof (cases "isNil s")
  case True
  with assms show ?thesis by (auto simp: cfg_Current_def)
next
  case False
  then have "onDocs (within cfgErrUnavailable c (query (engine c) (\<lambda>d. currentOf d name))) s = (r, s')"
    using assms(2) by (simp add: cfg_Current_def currentOn_def currentOf_def)
  from reader_res [OF assms(1) this] False show ?thesis by simp
qed

lemma cfg_History_res:
  assumes "idle s" "\<not> isNil s" "cfg_History arr c name limit s = (r, s')"
  shows "idle s' \<and> tables s' = tables s \<and> (\<forall>x. r = Inr x \<longrightarrow>
    x = take (nat (if limit \<le> 0 then 50 else limit)) (byArchived arr (pastOf (tables s) name)))"
  using reader_res [OF assms(1), of cfgErrUnavailable c "\<lambda>d. take (nat (if limit \<le> 0 then 50 else limit)) (byArchived arr (pastOf d name))"]
    assms(2,3) by (simp add: cfg_History_def pastOf_def Let_def)

text \<open>The newest of the archived versions comes first.\<close>

lemma byArchived_hd:
  assumes "set (arr t) = set t" "v \<in> set t" "\<forall>w \<in> set t. w = v \<or> At w < At v"
  shows "\<exists>rest. byArchived arr t = v # rest"
proof -
  let ?s = "byArchived arr t"
  have s: "set ?s = set t" "sorted (map (\<lambda>v. - At v) ?s)"
    using assms(1) by (simp_all add: byArchived_def)
  then obtain w rest where c: "?s = w # rest" using assms(2) by (cases ?s) auto
  have "w = v"
  proof (rule ccontr)
    assume "w \<noteq> v"
    with assms(3) s(1) c have "At w < At v" by auto
    moreover have "v \<in> set rest" using s(1) c assms(2) \<open>w \<noteq> v\<close> by auto
    with s(2) c have "- At w \<le> - At v" by auto
    ultimately show False by simp
  qed
  with c show ?thesis by blast
qed

lemma currentOf_imported:
  "currentOf (imported v t d) n = (if n = Name v then Some v else currentOf d n)"
proof -
  have "find (\<lambda>w. Name w = n) (filter (\<lambda>w. Name w \<noteq> Name v) ws @ [v])
      = (if n = Name v then Some v else find (\<lambda>w. Name w = n) ws)" for ws
    by (induction ws) auto
  then show ?thesis by (simp add: currentOf_def imported_def)
qed

lemma currentOf_Name: "currentOf d n = Some w \<Longrightarrow> Name w = n"
  by (auto simp: currentOf_def find_Some_iff)

lemma pastOf_imported:
  "pastOf (imported v t d) n = pastOf d n @ (if n = Name v then (case currentOf d n of None \<Rightarrow> [] | Some w \<Rightarrow> [w\<lparr>At := t\<rparr>]) else [])"
  by (auto simp: pastOf_def imported_def currentOf_Name split: option.split dest: currentOf_Name)

section \<open>Properties\<close>

text \<open>
  Claim C27.  \<open>Import\<close> is all or nothing, and nothing is lost by it: whatever fails, either the
  tables are as before and an error is returned, or the document's current snapshot is the new
  content with its hash, its former one is the latest entry of its history under the time of archiving, and
  every other document is as before.  Success means that it was done and that the
  marker file holds the new revision; when only the marker could not be written the error says so.  Names stay unique and
  every stored hash stays the hash of its row.
\<close>

theorem import_archives_previous:
  assumes "IsAbs cwd" "okTree (tree (home s))" "idle s" "tablesOk H (tables s)"
    and "cfg_Import ts H c cwd clk name content fmt s = (r, s')"
  shows "idle s' \<and> tablesOk H (tables s') \<and>
    ((\<exists>e. r = Inl e) \<and> tables s' = tables s
     \<or> currentOf (tables s') name = Some (newVersion H name content fmt (ts (clk 1)))
       \<and> pastOf (tables s') name = pastOf (tables s) name
           @ (case currentOf (tables s) name of None \<Rightarrow> [] | Some w \<Rightarrow> [w\<lparr>At := ts (clk 0)\<rparr>])
       \<and> (\<forall>n. n \<noteq> name \<longrightarrow> currentOf (tables s') n = currentOf (tables s) n \<and> pastOf (tables s') n = pastOf (tables s) n)
       \<and> (case r of
            Inr _ \<Rightarrow> look (tree (home s')) (markerPlace cwd s)
              = Some (FileN (revision H (clk 2) (name @ lit '':'' @ Hash H fmt content) @ [10]) 384)
          | Inl e \<Rightarrow> (\<exists>e'. e = ErrGenerationMarker e') \<or> home s' = home s))"
proof -
  let ?v = "newVersion H name content fmt (ts (clk 1))"
  let ?new = "imported ?v (ts (clk 0)) (tables s)"
  have ok: "tablesOk H ?new" by (rule tablesOk_imported [OF assms(4)]) simp
  note res = cfg_Import_res [OF assms(1,2,3,5), unfolded Let_def]
  then consider "r = Inr ()" "tables s' = ?new"
      "lk (home s') (markerPlace cwd s) = Some (FileN (revision H (clk 2) (name @ lit '':'' @ Hash H fmt content) @ [10]) 384)"
    | e where "r = Inl (ErrGenerationMarker e)" "tables s' = ?new"
    | e where "r = Inl e" "tables s' = tables s"
    | e where "r = Inl e" "home s' = home s" "tables s' = ?new" by blast
  then show ?thesis
  proof cases
    case 1
    with res ok show ?thesis by (simp add: currentOf_imported pastOf_imported)
  next
    case 2
    with res ok show ?thesis by (simp add: currentOf_imported pastOf_imported)
  next
    case 3
    with res assms(4) show ?thesis by simp
  next
    case 4
    with res ok show ?thesis by (simp add: currentOf_imported pastOf_imported)
  qed
qed

text \<open>A store for a witness: one document with the current text \<open>x: 1\<close>, and a toy digest.\<close>

definition sampleDigest :: sha where
  "sampleDigest b = [sum_list b mod 256, int (length b) mod 256, 0, 0, 0, 0, 0, 0]"

definition sampleDocs :: cfgTables where
  "sampleDocs = \<lparr>current = [newVersion sampleDigest (lit ''app'') (lit ''x: 1'') FormatYAML 1000], history = []\<rparr>"

definition sampleCfg :: "fault list \<Rightarrow> cfgStore" where
  "sampleCfg fs = \<lparr>docs = freshStore sampleDocs, dbPath = lit ''/h/config.duckdb'', home = sampleFs fs\<rparr>"

lemma sampleCfg_ok: "idle (sampleCfg fs)" "tablesOk sampleDigest (tables (sampleCfg fs))" "okTree (tree (home (sampleCfg fs)))"
proof -
  show "idle (sampleCfg fs)" by (simp add: idle_def sampleCfg_def)
  show "tablesOk sampleDigest (tables (sampleCfg fs))"
    by (simp add: tablesOk_def tables_def sampleCfg_def sampleDocs_def keyed_def)
  show "okTree (tree (home (sampleCfg fs)))" by (simp add: sampleCfg_def sampleFs_ok)
qed

definition sampleImport :: "fault list \<Rightarrow> (err + unit) \<times> cfgStore" where
  "sampleImport fs = cfg_Import (\<lambda>t. t) sampleDigest (calmAt 0) (lit ''/'') (\<lambda>_. 62135596800000000005)
     (lit ''app'') (lit ''x: 2'') FormatYAML (sampleCfg fs)"

theorem import_archives_previous_witness:
  "fst (sampleImport []) = Inr ()
   \<and> currentOf (tables (snd (sampleImport []))) (lit ''app'')
      = Some (newVersion sampleDigest (lit ''app'') (lit ''x: 2'') FormatYAML 62135596800000000005)
   \<and> map Doc (pastOf (tables (snd (sampleImport []))) (lit ''app'')) = [lit ''x: 1'']
   \<and> tablesOk sampleDigest (tables (snd (sampleImport [Fails (OsErr ''full'') 0])))"
proof -
  have abs: "IsAbs (lit ''/'')" by code_simp
  have w: "tablesOk sampleDigest (tables t)
      \<and> (r = Inr () \<longrightarrow> currentOf (tables t) (lit ''app'') = Some (newVersion sampleDigest (lit ''app'') (lit ''x: 2'') FormatYAML 62135596800000000005)
           \<and> pastOf (tables t) (lit ''app'') = pastOf sampleDocs (lit ''app'')
               @ (case currentOf sampleDocs (lit ''app'') of None \<Rightarrow> [] | Some w \<Rightarrow> [w\<lparr>At := 62135596800000000005\<rparr>]))"
    if "sampleImport fs = (r, t)" for fs r t
    using import_archives_previous [OF abs sampleCfg_ok(3,1,2) that [unfolded sampleImport_def]]
    by (cases r) (auto simp: tables_def sampleCfg_def)
  obtain r t where run: "sampleImport [] = (r, t)" by fastforce
  obtain r' t' where run': "sampleImport [Fails (OsErr ''full'') 0] = (r', t')" by fastforce
  have "fst (sampleImport []) = Inr ()" by code_simp
  then have r: "r = Inr ()" using run by simp
  have past: "map Doc (pastOf sampleDocs (lit ''app'')
     @ (case currentOf sampleDocs (lit ''app'') of None \<Rightarrow> [] | Some w \<Rightarrow> [w\<lparr>At := 62135596800000000005\<rparr>])) = [lit ''x: 1'']"
    by code_simp
  have "map Doc (pastOf (tables t) (lit ''app'')) = [lit ''x: 1'']" using w [OF run] r past by presburger
  with w [OF run] w [OF run'] r show ?thesis unfolding run run' by simp
qed

text \<open>
  What an import replaced is the first entry that \<open>History\<close> lists afterwards, with its
  hash, format and content, whatever the limit and however the engine orders ties, provided the
  clock is later than the document's earlier archivings.
\<close>

theorem replaced_version_heads_history:
  assumes "IsAbs cwd" "okTree (tree (home s))" "idle s" "\<not> isNil s" "\<And>t. set (arr t) = set t"
    and "cfg_Import ts H c1 cwd clk name content fmt s = (Inr (), s1)" "currentOf (tables s) name = Some w"
    and "\<forall>v \<in> set (pastOf (tables s) name). At v < ts (clk 0)"
    and "cfg_History arr c2 name limit s1 = (Inr out, s2)"
  shows "\<exists>rest. out = w\<lparr>At := ts (clk 0)\<rparr> # rest"
proof -
  let ?w = "w\<lparr>At := ts (clk 0)\<rparr>"
  note res = cfg_Import_res [OF assms(1,2,3,6), unfolded Let_def]
  have s1: "idle s1" "\<not> isNil s1" using res assms(4) by auto
  have "tables s1 = imported (newVersion H name content fmt (ts (clk 1))) (ts (clk 0)) (tables s)" using res by auto
  then have past: "pastOf (tables s1) name = pastOf (tables s) name @ [?w]" using assms(7) by (simp add: pastOf_imported)
  have "\<exists>rest. byArchived arr (pastOf (tables s1) name) = ?w # rest"
  proof (rule byArchived_hd [OF assms(5)])
    show "?w \<in> set (pastOf (tables s1) name)" using past by simp
    show "\<forall>v \<in> set (pastOf (tables s1) name). v = ?w \<or> At v < At ?w" using past assms(8) by auto
  qed
  then obtain rest where "byArchived arr (pastOf (tables s1) name) = ?w # rest" by blast
  moreover have "out = take (nat (if limit \<le> 0 then 50 else limit)) (byArchived arr (pastOf (tables s1) name))"
    using cfg_History_res [OF s1 assms(9)] by simp
  moreover obtain k where "nat (if limit \<le> 0 then 50 else limit) = Suc k"
  proof -
    have "0 < nat (if limit \<le> 0 then 50 else limit)" by simp
    then show ?thesis using that by (auto simp: gr0_conv_Suc)
  qed
  ultimately show ?thesis by simp
qed

theorem replaced_version_heads_history_witness:
  "map Doc (case cfg_History rev (calmAt 0) (lit ''app'') 1 (snd (sampleImport [])) of (r, t) \<Rightarrow> (case r of Inl e \<Rightarrow> [] | Inr out \<Rightarrow> out))
    = [lit ''x: 1'']
   \<and> (\<exists>rest. (case cfg_History rev (calmAt 0) (lit ''app'') 0 (snd (sampleImport [])) of (r, t) \<Rightarrow> (case r of Inl e \<Rightarrow> [] | Inr out \<Rightarrow> out))
     = (newVersion sampleDigest (lit ''app'') (lit ''x: 1'') FormatYAML 62135596800000000005) # rest)"
proof
  show "map Doc (case cfg_History rev (calmAt 0) (lit ''app'') 1 (snd (sampleImport [])) of (r, t) \<Rightarrow> (case r of Inl e \<Rightarrow> [] | Inr out \<Rightarrow> out))
    = [lit ''x: 1'']" by code_simp
  obtain r s1 where run: "sampleImport [] = (r, s1)" by fastforce
  have "fst (sampleImport []) = Inr ()" by code_simp
  with run have imp: "cfg_Import (\<lambda>t. t) sampleDigest (calmAt 0) (lit ''/'') (\<lambda>_. 62135596800000000005)
     (lit ''app'') (lit ''x: 2'') FormatYAML (sampleCfg []) = (Inr (), s1)" by (simp add: sampleImport_def)
  obtain h s2 where hist: "cfg_History rev (calmAt 0) (lit ''app'') 0 s1 = (h, s2)" by fastforce
  have "(case fst (cfg_History rev (calmAt 0) (lit ''app'') 0 (snd (sampleImport []))) of Inl e \<Rightarrow> False | Inr out \<Rightarrow> True)" by code_simp
  with hist run obtain out where h: "h = Inr out" by (auto split: sum.splits)
  have abs: "IsAbs (lit ''/'')" by code_simp
  have "\<not> isNil (sampleCfg [])" by (simp add: isNil_def sampleCfg_def freshStore_def)
  moreover have "currentOf (tables (sampleCfg [])) (lit ''app'')
      = Some (newVersion sampleDigest (lit ''app'') (lit ''x: 1'') FormatYAML 1000)" by code_simp
  moreover have "\<forall>v \<in> set (pastOf (tables (sampleCfg [])) (lit ''app'')). At v < 62135596800000000005" by code_simp
  ultimately have "\<exists>rest. out = (newVersion sampleDigest (lit ''app'') (lit ''x: 1'') FormatYAML 1000)\<lparr>At := 62135596800000000005\<rparr> # rest"
    using replaced_version_heads_history [OF abs sampleCfg_ok(3,1) _ set_rev imp _ _ hist [unfolded h]] by blast
  then show "\<exists>rest. (case cfg_History rev (calmAt 0) (lit ''app'') 0 (snd (sampleImport [])) of (r, t) \<Rightarrow> (case r of Inl e \<Rightarrow> [] | Inr out \<Rightarrow> out))
     = (newVersion sampleDigest (lit ''app'') (lit ''x: 1'') FormatYAML 62135596800000000005) # rest"
    using run hist h by (simp add: newVersion_def)
qed

text \<open>A closed store does not read as absent, it reports its unavailable error.\<close>

lemma closed_store_reads_fail:
  assumes "\<not> isNil s" "closed (hnd (opened (docs s)))" "ctxStart (env c) = None"
  shows "fst (cfg_Current c name s) = Inl (unavail (hnd (opened (docs s))))
    \<and> fst (cfg_History arr c name limit s) = Inl (unavail (hnd (opened (docs s))))"
  using assms
  by (simp add: cfg_Current_def cfg_History_def onDocs_def within_def perform_def Do_def enter_def isNil_def Let_def)

end
