(* ===== verification/Manager.thy ===== *)
theory Manager
  imports ConfigDB
begin

text \<open>
  src/manager.go: the \<open>ConfigStore\<close> over files and the database of theory ConfigDB, and the
  reconciliation of the two: \<open>Plan\<close> reports the documents that drifted, \<open>Apply\<close> resolves
  one, \<open>Effective\<close> is the content in force.  The state is the \<open>cfgStore\<close>; without a database it is
  absent, as the nil pointer is.  \<open>cs i\<close> is what the \<open>i\<close>-th call to the database meets.
\<close>

datatype backend = BackendBoth | BackendFiles | BackendDB

definition defaultConfigDBName :: gostr where
  "defaultConfigDBName = lit ''config.duckdb''"

record mgrOptions =
  optBackend :: backend
  ConfigDBName :: gostr

record configStore =
  Root :: gostr
  Backend :: backend

definition mgr_Open :: "call \<Rightarrow> gostr \<Rightarrow> mgrOptions \<Rightarrow> configStore cfgop" where
  "mgr_Open c root opts s =
     (let m = \<lparr>Root = root, Backend = optBackend opts\<rparr> in
      if optBackend opts = BackendFiles then ok m (s\<lparr>docs := (docs s)\<lparr>present := False\<rparr>\<rparr>)
      else
        let name = (if ConfigDBName opts = [] then defaultConfigDBName else ConfigDBName opts) in
        andThen (cfg_Open c) (\<lambda>_. ok m)
          (s\<lparr>dbPath := PathJoin [root, name], docs := (docs s)\<lparr>present := True\<rparr>\<rparr>))"

text \<open>The delegating methods.\<close>

definition mgr_Current :: "call \<Rightarrow> gostr \<Rightarrow> Snapshot option cfgop" where
  "mgr_Current c name = cfg_Current c name"

definition mgr_Import :: "(time \<Rightarrow> time) \<Rightarrow> sha \<Rightarrow> call \<Rightarrow> gostr \<Rightarrow> (nat \<Rightarrow> time) \<Rightarrow> gostr \<Rightarrow> bytes \<Rightarrow> format \<Rightarrow> unit cfgop" where
  "mgr_Import ts H c cwd clk name content fmt = cfg_Import ts H c cwd clk name content fmt"

definition mgr_History :: "(Snapshot list \<Rightarrow> Snapshot list) \<Rightarrow> call \<Rightarrow> gostr \<Rightarrow> int \<Rightarrow> Snapshot list cfgop" where
  "mgr_History arr c name limit = cfg_History arr c name limit"

definition mgr_Forget :: "sha \<Rightarrow> call \<Rightarrow> gostr \<Rightarrow> (nat \<Rightarrow> time) \<Rightarrow> gostr \<Rightarrow> unit cfgop" where
  "mgr_Forget H c cwd clk name = cfg_Forget H c cwd clk name"

definition mgr_Generation :: "gostr \<Rightarrow> cfgStore \<Rightarrow> gostr option \<times> cfgStore" where
  "mgr_Generation cwd = Generation cwd"

definition mgr_Close :: "string \<Rightarrow> cfgStore \<Rightarrow> cfgStore" where
  "mgr_Close path = cfg_Close path"

section \<open>Reconciliation\<close>

datatype action = ActionImport | ActionUseFile | ActionUseDB

record item =
  ItemName :: gostr
  FileContent :: bytes
  FileFormat :: format

definition hasFile :: "item \<Rightarrow> bool" where
  "hasFile it \<longleftrightarrow> FileContent it \<noteq> []"

definition zeroSnapshot :: Snapshot where
  "zeroSnapshot = \<lparr>Name = [], Sum = [], Fmt = [], Doc = [], At = 0\<rparr>"

record reconciliation =
  RecName :: gostr
  RecContent :: bytes
  RecFormat :: format
  RecDB :: Snapshot

definition HasDB :: "reconciliation \<Rightarrow> bool" where
  "HasDB r \<longleftrightarrow> Sum (RecDB r) \<noteq> []"

definition HasFile :: "reconciliation \<Rightarrow> bool" where
  "HasFile r \<longleftrightarrow> RecContent r \<noteq> []"

fun planLoop :: "sha \<Rightarrow> (nat \<Rightarrow> call) \<Rightarrow> nat \<Rightarrow> item list \<Rightarrow> reconciliation list \<Rightarrow> reconciliation list cfgop" where
  "planLoop H cs i [] out = ok out"
| "planLoop H cs i (it # its) out =
     andThen (cfg_Current (cs i) (ItemName it)) (\<lambda>cur.
       if \<not> hasFile it \<and> cur = None then planLoop H cs (Suc i) its out
       else if hasFile it \<and> (case cur of None \<Rightarrow> False | Some v \<Rightarrow> Sum v = Hash H (FileFormat it) (FileContent it))
       then planLoop H cs (Suc i) its out
       else planLoop H cs (Suc i) its
         (out @ [\<lparr>RecName = ItemName it, RecContent = FileContent it, RecFormat = FileFormat it,
                  RecDB = (case cur of None \<Rightarrow> zeroSnapshot | Some v \<Rightarrow> v)\<rparr>]))"

definition mgr_Plan :: "sha \<Rightarrow> (nat \<Rightarrow> call) \<Rightarrow> configStore \<Rightarrow> item list \<Rightarrow> reconciliation list cfgop" where
  "mgr_Plan H cs m items =
     (if Backend m \<noteq> BackendBoth then ok [] else planLoop H cs 0 items [])"

definition dbContentOr :: "Snapshot option \<Rightarrow> format \<Rightarrow> bytes \<times> format" where
  "dbContentOr cur fallback = (case cur of Some v \<Rightarrow> (Doc v, Fmt v) | None \<Rightarrow> ([], fallback))"

definition mgr_Apply :: "(time \<Rightarrow> time) \<Rightarrow> sha \<Rightarrow> call \<Rightarrow> gostr \<Rightarrow> (nat \<Rightarrow> time) \<Rightarrow> reconciliation \<Rightarrow> action
    \<Rightarrow> (bytes \<times> format) cfgop" where
  "mgr_Apply ts H c cwd clk r act =
     (case act of
        ActionImport \<Rightarrow> andThen (cfg_Import ts H c cwd clk (RecName r) (RecContent r) (RecFormat r))
          (\<lambda>_. ok (RecContent r, RecFormat r))
      | ActionUseDB \<Rightarrow> ok (dbContentOr (if HasDB r then Some (RecDB r) else None) (RecFormat r))
      | ActionUseFile \<Rightarrow> ok (RecContent r, RecFormat r))"

definition mgr_Effective :: "call \<Rightarrow> configStore \<Rightarrow> item \<Rightarrow> (bytes \<times> format) cfgop" where
  "mgr_Effective c m it =
     (if Backend m = BackendFiles then ok (FileContent it, FileFormat it)
      else andThen (cfg_Current c (ItemName it)) (\<lambda>cur.
        if Backend m = BackendDB \<or> \<not> hasFile it then ok (dbContentOr cur (FileFormat it))
        else ok (FileContent it, FileFormat it)))"

section \<open>What a plan says\<close>

definition storedAs :: "cfgStore \<Rightarrow> gostr \<Rightarrow> Snapshot option" where
  "storedAs s name = (if isNil s then None else currentOf (tables s) name)"

text \<open>A document drifted when file and snapshot differ, or only one of them exists.\<close>

definition drifted :: "sha \<Rightarrow> cfgStore \<Rightarrow> item \<Rightarrow> bool" where
  "drifted H s it \<longleftrightarrow> (case storedAs s (ItemName it) of
     None \<Rightarrow> hasFile it
   | Some v \<Rightarrow> \<not> hasFile it \<or> Sum v \<noteq> Hash H (FileFormat it) (FileContent it))"

definition recFor :: "cfgStore \<Rightarrow> item \<Rightarrow> reconciliation" where
  "recFor s it = \<lparr>RecName = ItemName it, RecContent = FileContent it, RecFormat = FileFormat it,
     RecDB = (case storedAs s (ItemName it) of None \<Rightarrow> zeroSnapshot | Some v \<Rightarrow> v)\<rparr>"

lemma storedAs_cong: "tables t = tables s \<Longrightarrow> isNil t = isNil s \<Longrightarrow> storedAs t = storedAs s"
  by (rule ext) (simp add: storedAs_def)

lemma planLoop_res:
  assumes "idle s" "planLoop H cs i its out s = (r, s')"
  shows "idle s' \<and> tables s' = tables s \<and> home s' = home s \<and> isNil s' = isNil s
    \<and> (\<forall>x. r = Inr x \<longrightarrow> x = out @ map (recFor s) (filter (drifted H s) its))"
  using assms
proof (induction its arbitrary: s i out)
  case Nil
  then show ?case by auto
next
  case (Cons it its)
  obtain r1 s1 where cur: "cfg_Current (cs i) (ItemName it) s = (r1, s1)" by fastforce
  note cr = cfg_Current_res [OF Cons.prems(1) cur]
  show ?case
  proof (cases r1)
    case (Inl e)
    with Cons.prems(2) cur have "r = Inl e" "s' = s1" by (simp_all add: andThen_def)
    with cr show ?thesis by simp
  next
    case (Inr v)
    then have v: "v = storedAs s (ItemName it)" using cr by (simp add: storedAs_def)
    let ?out = "if drifted H s it then out @ [recFor s it] else out"
    have "planLoop H cs (Suc i) its ?out s1 = (r, s')"
      using Cons.prems(2) unfolding planLoop.simps step_ok [of "cfg_Current (cs i) (ItemName it)" s v s1, OF cur [unfolded Inr]] v
      by (auto simp: drifted_def recFor_def split: option.splits if_splits)
    from Cons.IH [OF _ this] cr
    have IH: "idle s' \<and> tables s' = tables s \<and> home s' = home s \<and> isNil s' = isNil s
        \<and> (\<forall>x. r = Inr x \<longrightarrow> x = ?out @ map (recFor s1) (filter (drifted H s1) its))" by simp
    have "storedAs s1 = storedAs s" by (rule storedAs_cong) (use cr in simp_all)
    then have "recFor s1 = recFor s" "drifted H s1 = drifted H s" by (simp_all add: recFor_def [abs_def] drifted_def [abs_def])
    with IH show ?thesis by auto
  qed
qed

lemma mgr_Plan_res:
  assumes "idle s" "mgr_Plan H cs m items s = (r, s')" "Backend m = BackendBoth"
  shows "idle s' \<and> tables s' = tables s \<and> home s' = home s \<and> isNil s' = isNil s
    \<and> (\<forall>x. r = Inr x \<longrightarrow> x = map (recFor s) (filter (drifted H s) items))"
  using planLoop_res [OF assms(1), of H cs 0 items "[]"] assms(2,3) by (simp add: mgr_Plan_def)

text \<open>
  Claim C28.  What \<open>Apply\<close> with the action import does to the plan.  For a reported document with a
  file the drift is settled: the next plan of the same items is the former one without the report
  of that document, with the same reports for all others.  For one that is only in the database
  it is not: an empty document becomes the snapshot and the next plan reports the document again,
  with that snapshot.  Either way the content returned is the record's, and that is what is in force
  for the document afterwards, whether taken from the database or reconciled.  Nothing fails
  (the two plans, \<open>Apply\<close> and \<open>Effective\<close> succeed), and one item has the document's name.
\<close>

theorem import_settles_drift:
  assumes "IsAbs cwd" "okTree (tree (home s))" "idle s" "Backend m = BackendBoth"
    and "mgr_Plan H cs m items s = (Inr earlier, s1)" "r \<in> set earlier"
    and "it \<in> set items" "ItemName it = RecName r" "\<forall>x \<in> set items. ItemName x = RecName r \<longrightarrow> x = it"
    and "mgr_Apply ts H c cwd clk r ActionImport s1 = (Inr content, s2)"
    and "mgr_Plan H cs' m items s2 = (Inr later, s3)"
    and "mgr_Effective c' m' it s2 = (Inr effective, s4)"
  shows "later = (if HasFile r then filter (\<lambda>x. RecName x \<noteq> RecName r) earlier
      else map (\<lambda>x. if RecName x = RecName r
        then x\<lparr>RecDB := newVersion H (RecName r) [] (RecFormat r) (ts (clk 1))\<rparr> else x) earlier)
    \<and> content = (RecContent r, RecFormat r) \<and> effective = content"
proof -
  let ?n = "RecName r" and ?v = "newVersion H (RecName r) (RecContent r) (RecFormat r) (ts (clk 1))"
  note p = mgr_Plan_res [OF assms(3,5,4)]
  then obtain x where "x \<in> set items" "drifted H s x" "r = recFor s x" using assms(6) by auto
  with assms(8,9) have r: "r = recFor s it" "drifted H s it" by (auto simp: recFor_def)
  have imp: "cfg_Import ts H c cwd clk ?n (RecContent r) (RecFormat r) s1 = (Inr (), s2)"
    and content: "content = (RecContent r, RecFormat r)"
    using assms(10) by (auto simp: mgr_Apply_def andThen_def split: prod.splits sum.splits)
  have nn: "\<not> isNil s1" using imp by (auto simp: cfg_Import_def)
  have "okFs (home s1)" "idle s1" using p assms(2) by simp_all
  note res = cfg_Import_res [OF assms(1) this imp, unfolded Let_def]
  have s2: "idle s2" "isNil s2 = isNil s1" "tables s2 = imported ?v (ts (clk 0)) (tables s1)" using res by auto
  have st: "storedAs s2 n = (if n = ?n then Some ?v else storedAs s n)" for n
    using s2 nn p by (simp add: storedAs_def currentOf_imported)
  have hf: "hasFile it = HasFile r" by (simp add: r hasFile_def HasFile_def recFor_def)
  have dr: "drifted H s2 x = (if ItemName x = ?n then \<not> HasFile r else drifted H s x)" if "x \<in> set items" for x
    using that assms(9) hf by (auto simp: drifted_def st r recFor_def)
  have plan: "later = map (recFor s2) (filter (drifted H s2) items)" using mgr_Plan_res [OF s2(1) assms(11,4)] by simp
  have later: "later = (if HasFile r then filter (\<lambda>x. RecName x \<noteq> ?n) earlier
      else map (\<lambda>x. if RecName x = ?n then x\<lparr>RecDB := newVersion H ?n [] (RecFormat r) (ts (clk 1))\<rparr> else x) earlier)"
  proof (cases "HasFile r")
    case True
    have "filter (drifted H s2) items = filter (\<lambda>x. ItemName x \<noteq> ?n \<and> drifted H s x) items"
      by (rule filter_cong) (use True in \<open>auto simp: dr\<close>)
    then have "later = map (recFor s) (filter (\<lambda>x. ItemName x \<noteq> ?n \<and> drifted H s x) items)"
      unfolding plan by (auto simp: recFor_def st)
    also have "\<dots> = filter (\<lambda>x. RecName x \<noteq> ?n) earlier"
      using p by (simp add: filter_map o_def recFor_def conj_commute)
    finally show ?thesis using True by simp
  next
    case False
    then have v: "?v = newVersion H ?n [] (RecFormat r) (ts (clk 1))" by (simp add: HasFile_def)
    have "filter (drifted H s2) items = filter (drifted H s) items"
      by (rule filter_cong) (use assms(9) r(2) False in \<open>auto simp: dr\<close>)
    then have "later = map (\<lambda>x. if RecName x = ?n then x\<lparr>RecDB := ?v\<rparr> else x) earlier"
      using p by (simp add: plan recFor_def st)
    with False v show ?thesis by simp
  qed
  have "effective = (RecContent r, RecFormat r)"
  proof (cases "Backend m' = BackendFiles")
    case True
    with assms(12) show ?thesis by (simp add: mgr_Effective_def r recFor_def)
  next
    case False
    then obtain cur s5 where cur: "cfg_Current c' (ItemName it) s2 = (Inr cur, s5)"
      and e: "effective = (if Backend m' = BackendDB \<or> \<not> hasFile it then dbContentOr cur (FileFormat it)
        else (FileContent it, FileFormat it))"
      using assms(12) by (auto simp: mgr_Effective_def andThen_def split: prod.splits sum.splits if_splits)
    have "cur = storedAs s2 ?n" using cfg_Current_res [OF s2(1) cur] assms(8) by (simp add: storedAs_def)
    then show ?thesis using e by (simp add: st dbContentOr_def) (simp add: r recFor_def)
  qed
  with later content show ?thesis by blast
qed

text \<open>The file \<open>x: 2\<close> against the snapshot \<open>x: 1\<close>, and a document that is nowhere.\<close>

definition sampleItems :: "item list" where
  "sampleItems = [\<lparr>ItemName = lit ''app'', FileContent = lit ''x: 2'', FileFormat = FormatYAML\<rparr>,
     \<lparr>ItemName = lit ''new'', FileContent = lit ''y'', FileFormat = FormatYAML\<rparr>]"

definition both :: configStore where
  "both = \<lparr>Root = lit ''/h'', Backend = BackendBoth\<rparr>"

definition sampleRun :: "(reconciliation list \<times> (bytes \<times> format) \<times> reconciliation list \<times> (bytes \<times> format)) cfgop" where
  "sampleRun =
     andThen (mgr_Plan sampleDigest (\<lambda>_. calmAt 0) both sampleItems) (\<lambda>earlier.
     andThen (mgr_Apply (\<lambda>t. t) sampleDigest (calmAt 0) (lit ''/'') (\<lambda>_. 62135596800000000005)
       (hd earlier) ActionImport) (\<lambda>content.
     andThen (mgr_Plan sampleDigest (\<lambda>_. calmAt 0) both sampleItems) (\<lambda>later.
     andThen (mgr_Effective (calmAt 0) both (hd sampleItems)) (\<lambda>effective.
       ok (earlier, content, later, effective)))))"

theorem import_settles_drift_witness:
  "\<exists>earlier content later effective t. sampleRun (sampleCfg []) = (Inr (earlier, content, later, effective), t)
     \<and> map RecName earlier = [lit ''app'', lit ''new''] \<and> map RecName later = [lit ''new'']
     \<and> effective = (lit ''x: 2'', FormatYAML)"
proof -
  let ?s = "sampleCfg []"
  have "case fst (sampleRun ?s) of Inl e \<Rightarrow> False
     | Inr (earlier, content, later, effective) \<Rightarrow> map RecName earlier = [lit ''app'', lit ''new'']" by code_simp
  then obtain earlier content later effective t where
    run: "sampleRun ?s = (Inr (earlier, content, later, effective), t)" and b: "map RecName earlier = [lit ''app'', lit ''new'']"
    by (cases "sampleRun ?s") (auto split: sum.splits)
  have abs: "IsAbs (lit ''/'')" by code_simp
  let ?it = "\<lparr>ItemName = lit ''app'', FileContent = lit ''x: 2'', FileFormat = FormatYAML\<rparr>"
  obtain s1 s2 s3 s4 where
    p1: "mgr_Plan sampleDigest (\<lambda>_. calmAt 0) both sampleItems ?s = (Inr earlier, s1)"
    and a: "mgr_Apply (\<lambda>t. t) sampleDigest (calmAt 0) (lit ''/'') (\<lambda>_. 62135596800000000005) (hd earlier) ActionImport s1 = (Inr content, s2)"
    and p2: "mgr_Plan sampleDigest (\<lambda>_. calmAt 0) both sampleItems s2 = (Inr later, s3)"
    and e: "mgr_Effective (calmAt 0) both (hd sampleItems) s3 = (Inr effective, s4)"
    using run unfolding sampleRun_def andThen_Inr by auto
  have m: "Backend both = BackendBoth" by (simp add: both_def)
  have "earlier = map (recFor ?s) (filter (drifted sampleDigest ?s) sampleItems)"
    using mgr_Plan_res [OF sampleCfg_ok(1) p1 m] by simp
  moreover have "hd (map (recFor ?s) (filter (drifted sampleDigest ?s) sampleItems)) = recFor ?s ?it" by code_simp
  ultimately have r: "hd earlier = recFor ?s ?it" by simp
  have r': "hd earlier \<in> set earlier" using b by (cases earlier) simp_all
  obtain effective' s5 where e': "mgr_Effective (calmAt 0) (both\<lparr>Backend := BackendFiles\<rparr>) ?it s2 = (Inr effective', s5)"
    by (simp add: mgr_Effective_def)
  have it: "?it \<in> set sampleItems" "ItemName ?it = RecName (hd earlier)"
    "\<forall>x \<in> set sampleItems. ItemName x = RecName (hd earlier) \<longrightarrow> x = ?it"
    by (simp_all add: sampleItems_def r recFor_def)
  have l: "later = filter (\<lambda>r. RecName r \<noteq> ItemName ?it) earlier"
    using import_settles_drift [OF abs sampleCfg_ok(3,1) m p1 r' it a p2 e'] by (simp add: HasFile_def r recFor_def)
  have "map RecName (filter (\<lambda>r. RecName r \<noteq> ItemName ?it) earlier) = filter (\<lambda>n. n \<noteq> ItemName ?it) (map RecName earlier)"
    by (simp add: filter_map o_def)
  then have "map RecName later = [lit ''new'']" using b l by simp
  moreover have "effective = (lit ''x: 2'', FormatYAML)"
    using e by (auto simp: mgr_Effective_def m sampleItems_def hasFile_def andThen_def split: prod.splits sum.splits)
  ultimately show ?thesis using run b by (intro exI conjI)
qed

end
