(* ===== verification/Crypt.thy ===== *)
theory Crypt
  imports FileSys
begin

text \<open>
  src/internal/crypt/crypt.go: sealing with AES-256-GCM, and the standard base64 encoding that the
  sealed store and the key escrow use.  The cipher is a parameter, \<open>Seal\<close> and \<open>OpenSealed\<close> of
  the record \<open>aead\<close>, with the documented law \<open>gcm\<close>: under a key and a nonce exactly the sealed
  text of a plaintext opens, to that plaintext.  \<open>rnd n\<close> is what \<open>rand.Read\<close> gives for a buffer of \<open>n\<close>
  bytes; that it fills the buffer with bytes is \<open>fills\<close>.
\<close>

definition byte :: "int \<Rightarrow> bool" where
  "byte b \<longleftrightarrow> 0 \<le> b \<and> b < 256"

section \<open>base64.StdEncoding\<close>

definition char64 :: "int \<Rightarrow> rune" where
  "char64 d = (if d < 26 then 65 + d else if d < 52 then 71 + d else if d < 62 then d - 4
     else if d = 62 then 43 else 47)"

definition val64 :: "rune \<Rightarrow> int option" where
  "val64 r = (if 65 \<le> r \<and> r \<le> 90 then Some (r - 65) else if 97 \<le> r \<and> r \<le> 122 then Some (r - 71)
     else if 48 \<le> r \<and> r \<le> 57 then Some (r + 4) else if r = 43 then Some 62 else if r = 47 then Some 63 else None)"

abbreviation pad :: rune where "pad \<equiv> 61"

fun enc64 :: "bytes \<Rightarrow> gostr" where
  "enc64 [] = []"
| "enc64 [a] = [char64 (a div 4), char64 (a mod 4 * 16), pad, pad]"
| "enc64 [a, b] = [char64 (a div 4), char64 (a mod 4 * 16 + b div 16), char64 (b mod 16 * 4), pad]"
| "enc64 (a # b # c # bs) =
     char64 (a div 4) # char64 (a mod 4 * 16 + b div 16) # char64 (b mod 16 * 4 + c div 64) # char64 (c mod 64) # enc64 bs"

text \<open>One quantum: three bytes, or fewer before padding, which only the last one may have.\<close>

definition quantum :: "bool \<Rightarrow> rune \<Rightarrow> rune \<Rightarrow> rune \<Rightarrow> rune \<Rightarrow> bytes option" where
  "quantum final w x y z =
     (case (val64 w, val64 x) of
        (Some p, Some q) \<Rightarrow>
          (let a = p * 4 + q div 16 in
           if final \<and> y = pad \<and> z = pad then Some [a]
           else (case val64 y of
               None \<Rightarrow> None
             | Some r \<Rightarrow>
                 let b = q mod 16 * 16 + r div 4 in
                 if final \<and> z = pad then Some [a, b]
                 else (case val64 z of None \<Rightarrow> None | Some t \<Rightarrow> Some [a, b, r mod 4 * 64 + t])))
      | _ \<Rightarrow> None)"

fun quanta :: "gostr \<Rightarrow> bytes option" where
  "quanta [] = Some []"
| "quanta (w # x # y # z # rs) =
     (case quantum (rs = []) w x y z of
        None \<Rightarrow> None | Some bs \<Rightarrow> (case quanta rs of None \<Rightarrow> None | Some cs \<Rightarrow> Some (bs @ cs)))"
| "quanta _ = None"

text \<open>Line breaks are skipped.\<close>

definition DecodeString :: "gostr \<Rightarrow> err + bytes" where
  "DecodeString s = (case quanta (filter (\<lambda>r. r \<noteq> 10 \<and> r \<noteq> 13) s) of
     None \<Rightarrow> Inl (Msg ''illegal base64 data'') | Some b \<Rightarrow> Inr b)"

lemma val64_char64 [simp]: "0 \<le> d \<Longrightarrow> d < 64 \<Longrightarrow> val64 (char64 d) = Some d"
  by (simp add: val64_def char64_def)

lemma char64_plain: "0 \<le> d \<Longrightarrow> d < 64 \<Longrightarrow> char64 d \<noteq> pad \<and> char64 d \<noteq> 10 \<and> char64 d \<noteq> 13 \<and> 0 \<le> char64 d \<and> char64 d < 128"
  by (simp add: char64_def)

lemma split_byte:
  "0 \<le> (x :: int) mod 4" "x mod 4 < 4" "x = x div 4 * 4 + x mod 4"
  "0 \<le> x mod 16" "x mod 16 < 16" "x = x div 16 * 16 + x mod 16"
  "0 \<le> x mod 64" "x mod 64 < 64" "x = x div 64 * 64 + x mod 64"
  by simp_all

lemma join_byte:
  "0 \<le> y \<Longrightarrow> y < 16 \<Longrightarrow> (x * 16 + y) div 16 = (x :: int)" "0 \<le> y \<Longrightarrow> y < 16 \<Longrightarrow> (x * 16 + y) mod 16 = (y :: int)"
  "0 \<le> z \<Longrightarrow> z < 4 \<Longrightarrow> (x * 4 + z) div 4 = x" "0 \<le> z \<Longrightarrow> z < 4 \<Longrightarrow> (x * 4 + z) mod 4 = z"
  by simp_all

lemma digits64:
  assumes "byte a" "byte b" "byte c"
  shows "0 \<le> a div 4" "a div 4 < 64" "0 \<le> a mod 4 * 16" "a mod 4 * 16 < 64"
    "0 \<le> b div 16" "b div 16 < 16" "0 \<le> c div 64" "c div 64 < 4"
    "0 \<le> a mod 4 * 16 + b div 16" "a mod 4 * 16 + b div 16 < 64"
    "0 \<le> b mod 16 * 4" "b mod 16 * 4 < 64" "0 \<le> b mod 16 * 4 + c div 64" "b mod 16 * 4 + c div 64 < 64"
    "0 \<le> c mod 64" "c mod 64 < 64"
proof -
  have a: "0 \<le> a" "a < 256" and b: "0 \<le> b" "b < 256" and c: "0 \<le> c" "c < 256"
    using assms by (simp_all add: byte_def)
  show a4: "0 \<le> a div 4" "a div 4 < 64" and a16: "0 \<le> a mod 4 * 16" "a mod 4 * 16 < 64"
    using a split_byte(1,2) [of a] by simp_all
  show b16: "0 \<le> b div 16" "b div 16 < 16" and b4: "0 \<le> b mod 16 * 4" "b mod 16 * 4 < 64"
    using b split_byte(4,5) [of b] by simp_all
  show c64: "0 \<le> c div 64" "c div 64 < 4" and cm: "0 \<le> c mod 64" "c mod 64 < 64"
    using c split_byte(7,8) [of c] by simp_all
  have "a mod 4 \<le> 3" "b mod 16 \<le> 15" using split_byte(2) [of a] split_byte(5) [of b] by linarith+
  then show "0 \<le> a mod 4 * 16 + b div 16" "a mod 4 * 16 + b div 16 < 64"
    "0 \<le> b mod 16 * 4 + c div 64" "b mod 16 * 4 + c div 64 < 64"
    using a16(1) b16 b4(1) c64 by linarith+
qed

lemma regroup64:
  assumes "byte a" "byte b" "byte c"
  shows "a div 4 * 4 + a mod 4 * 16 div 16 = a" "a div 4 * 4 + (a mod 4 * 16 + b div 16) div 16 = a"
    "(a mod 4 * 16 + b div 16) mod 16 * 16 + b mod 16 * 4 div 4 = b"
    "(a mod 4 * 16 + b div 16) mod 16 * 16 + (b mod 16 * 4 + c div 64) div 4 = b"
    "(b mod 16 * 4 + c div 64) mod 4 * 64 + c mod 64 = c"
  using join_byte(1,2) [OF digits64(5,6) [OF assms]] join_byte(3,4) [OF digits64(7,8) [OF assms]] by simp_all

lemma val_digits64:
  assumes "byte a" "byte b" "byte c"
  shows "val64 (char64 (a div 4)) = Some (a div 4)" "val64 (char64 (a mod 4 * 16)) = Some (a mod 4 * 16)"
    "val64 (char64 (a mod 4 * 16 + b div 16)) = Some (a mod 4 * 16 + b div 16)"
    "val64 (char64 (b mod 16 * 4)) = Some (b mod 16 * 4)"
    "val64 (char64 (b mod 16 * 4 + c div 64)) = Some (b mod 16 * 4 + c div 64)"
    "val64 (char64 (c mod 64)) = Some (c mod 64)"
  by (rule val64_char64; rule digits64 [OF assms])+

lemma enc64_runes: "list_all byte bs \<Longrightarrow> list_all (\<lambda>r. r \<noteq> 10 \<and> r \<noteq> 13 \<and> 0 \<le> r \<and> r < 128) (enc64 bs)"
proof -
  have c: "r \<noteq> 10 \<and> r \<noteq> 13 \<and> 0 \<le> r \<and> r < 128" if "r = char64 d" "0 \<le> d" "d < 64" for r d
    using char64_plain [OF that(2,3)] that(1) by simp
  have z: "byte 0" by (simp add: byte_def)
  show "list_all byte bs \<Longrightarrow> list_all (\<lambda>r. r \<noteq> 10 \<and> r \<noteq> 13 \<and> 0 \<le> r \<and> r < 128) (enc64 bs)"
  proof (induction bs rule: enc64.induct)
    case (2 a)
    then have a: "byte a" by simp
    show ?case unfolding enc64.simps list.pred_inject
      by (intro conjI c [OF refl] digits64 [OF a z z]) simp_all
  next
    case (3 a b)
    then have a: "byte a" "byte b" by simp_all
    show ?case unfolding enc64.simps list.pred_inject
      by (intro conjI c [OF refl] digits64 [OF a z]) simp_all
  next
    case (4 a b d bs)
    then have a: "byte a" "byte b" "byte d" and IH: "list_all (\<lambda>r. r \<noteq> 10 \<and> r \<noteq> 13 \<and> 0 \<le> r \<and> r < 128) (enc64 bs)" by simp_all
    show ?case unfolding enc64.simps list.pred_inject
      by (intro conjI c [OF refl] digits64 [OF a] IH)
  qed simp
qed

lemma quantum3:
  assumes "byte a" "byte b" "byte c"
  shows "quantum fin (char64 (a div 4)) (char64 (a mod 4 * 16 + b div 16))
      (char64 (b mod 16 * 4 + c div 64)) (char64 (c mod 64)) = Some [a, b, c]"
proof -
  note v = val_digits64 [OF assms] and d = digits64 [OF assms] and r = regroup64 [OF assms]
  have p: "char64 (b mod 16 * 4 + c div 64) \<noteq> pad" "char64 (c mod 64) \<noteq> pad"
    using char64_plain [OF d(13,14)] char64_plain [OF d(15,16)] by blast+
  show ?thesis unfolding quantum_def v prod.case option.case Let_def r using p by simp
qed

lemma quantum2:
  assumes "byte a" "byte b"
  shows "quantum True (char64 (a div 4)) (char64 (a mod 4 * 16 + b div 16)) (char64 (b mod 16 * 4)) pad = Some [a, b]"
proof -
  have z: "byte 0" by (simp add: byte_def)
  note v = val_digits64 [OF assms z] and d = digits64 [OF assms z] and r = regroup64 [OF assms z]
  have p: "char64 (b mod 16 * 4) \<noteq> pad" using char64_plain [OF d(11,12)] by blast
  show ?thesis unfolding quantum_def v prod.case option.case Let_def r using p by simp
qed

lemma quantum1:
  assumes "byte a"
  shows "quantum True (char64 (a div 4)) (char64 (a mod 4 * 16)) pad pad = Some [a]"
proof -
  have z: "byte 0" by (simp add: byte_def)
  note v = val_digits64 [OF assms z z] and r = regroup64 [OF assms z z]
  show ?thesis unfolding quantum_def v prod.case option.case Let_def r by simp
qed

lemma quanta_enc64: "list_all byte bs \<Longrightarrow> quanta (enc64 bs) = Some bs"
  by (induction bs rule: enc64.induct) (simp_all add: quantum1 quantum2 quantum3)

lemma Decode_Encode:
  assumes "list_all byte bs"
  shows "DecodeString (enc64 bs) = Inr bs"
proof -
  have "filter (\<lambda>r. r \<noteq> 10 \<and> r \<noteq> 13) (enc64 bs) = enc64 bs"
    using enc64_runes [OF assms] by (simp add: filter_id_conv list_all_iff)
  then show ?thesis by (simp add: DecodeString_def quanta_enc64 [OF assms])
qed

section \<open>crypt.go\<close>

record aead =
  Seal :: "bytes \<Rightarrow> bytes \<Rightarrow> bytes \<Rightarrow> bytes"
  OpenSealed :: "bytes \<Rightarrow> bytes \<Rightarrow> bytes \<Rightarrow> bytes option"

definition gcm :: "aead \<Rightarrow> bool" where
  "gcm G \<longleftrightarrow> (\<forall>k n p c. OpenSealed G k n c = Some p \<longleftrightarrow> c = Seal G k n p)
     \<and> (\<forall>k n p. list_all byte (k @ n @ p) \<longrightarrow> list_all byte (Seal G k n p))"

type_synonym random = "nat \<Rightarrow> err + bytes"

definition fills :: "random \<Rightarrow> bool" where
  "fills rnd \<longleftrightarrow> (\<forall>n b. rnd n = Inr b \<longrightarrow> length b = n \<and> list_all byte b)"

definition KeyBytes :: nat where "KeyBytes = 32"
definition NonceSize :: nat where "NonceSize = 12"

definition NewKey :: "random \<Rightarrow> err + bytes" where
  "NewKey rnd = rnd KeyBytes"

definition newGCM :: "bytes \<Rightarrow> err + bytes" where
  "newGCM key = (if length key \<noteq> KeyBytes then Inl (Msg ''backup key must be 32 bytes'') else Inr key)"

definition Encrypt :: "aead \<Rightarrow> random \<Rightarrow> bytes \<Rightarrow> bytes \<Rightarrow> err + bytes" where
  "Encrypt G rnd plaintext key =
     (case newGCM key of
        Inl e \<Rightarrow> Inl e
      | Inr k \<Rightarrow> (case rnd NonceSize of
          Inl e \<Rightarrow> Inl e
        | Inr nonce \<Rightarrow> Inr (nonce @ Seal G k nonce plaintext)))"

definition Decrypt :: "aead \<Rightarrow> bytes \<Rightarrow> bytes \<Rightarrow> err + bytes" where
  "Decrypt G sealed key =
     (case newGCM key of
        Inl e \<Rightarrow> Inl e
      | Inr k \<Rightarrow>
          if length sealed < NonceSize then Inl (Msg ''ciphertext too short'')
          else (case OpenSealed G k (take NonceSize sealed) (drop NonceSize sealed) of
              None \<Rightarrow> Inl (Msg ''cipher: message authentication failed'')
            | Some p \<Rightarrow> Inr p))"

lemma Decrypt_Encrypt:
  assumes "gcm G" "fills rnd" "Encrypt G rnd p key = Inr sealed"
  shows "Decrypt G sealed key = Inr p"
proof -
  obtain nonce where "rnd NonceSize = Inr nonce" "sealed = nonce @ Seal G key nonce p" "length key = KeyBytes"
    using assms(3) by (auto simp: Encrypt_def newGCM_def split: sum.splits if_splits)
  moreover from this have "length nonce = NonceSize" using assms(2) by (simp add: fills_def)
  moreover have "OpenSealed G key nonce (Seal G key nonce p) = Some p" using assms(1) by (simp add: gcm_def)
  ultimately show ?thesis by (simp add: Decrypt_def newGCM_def)
qed

lemma Encrypt_bytes:
  assumes "gcm G" "fills rnd" "Encrypt G rnd p key = Inr sealed" "list_all byte key" "list_all byte p"
  shows "list_all byte sealed"
proof -
  obtain nonce where "rnd NonceSize = Inr nonce" "sealed = nonce @ Seal G key nonce p"
    using assms(3) by (auto simp: Encrypt_def newGCM_def split: sum.splits if_splits)
  with assms show ?thesis by (auto simp: gcm_def fills_def)
qed

text \<open>What opens was sealed under that key, nonce and all.\<close>

lemma Decrypt_Inr:
  assumes "gcm G" "Decrypt G sealed key = Inr p"
  shows "sealed = take NonceSize sealed @ Seal G key (take NonceSize sealed) p \<and> length key = KeyBytes"
proof -
  have "OpenSealed G key (take NonceSize sealed) (drop NonceSize sealed) = Some p" "length key = KeyBytes"
    using assms(2) by (auto simp: Decrypt_def newGCM_def split: if_splits option.splits)
  then have "drop NonceSize sealed = Seal G key (take NonceSize sealed) p" using assms(1) by (simp add: gcm_def)
  with \<open>length key = KeyBytes\<close> show ?thesis by (metis append_take_drop_id)
qed

end
