(* ===== verification/Secrets.thy ===== *)
theory Secrets
  imports Crypt
begin

text \<open>
  src/secret: the three secret stores (Bitwarden and 1Password through their command line
  tools, the OS keyring through a library), the choice between them, and \<open>GetOrCreate\<close>.  The tools
  are parameters: \<open>runTool\<close> runs a command with arguments and standard input and gives its error,
  output and error output, \<open>keyringGet\<close> and \<open>keyringSet\<close> are the keyring library; they act on
  a world \<open>'w\<close> outside the program.
\<close>

record 'w tools =
  ctxEnded :: "err option"
  onPath :: "gostr \<Rightarrow> bool"
  envVar :: "gostr \<Rightarrow> gostr"
  runTool :: "gostr \<Rightarrow> gostr list \<Rightarrow> bytes \<Rightarrow> 'w \<Rightarrow> (err option \<times> bytes \<times> bytes) \<times> 'w"
  statusOf :: "bytes \<Rightarrow> gostr option"
  bwItem :: "gostr \<Rightarrow> gostr \<Rightarrow> err + bytes"
  opTemplate :: "gostr \<Rightarrow> gostr \<Rightarrow> err + bytes"
  keyringGet :: "gostr \<Rightarrow> gostr \<Rightarrow> 'w \<Rightarrow> (err + gostr option) \<times> 'w"
  keyringSet :: "gostr \<Rightarrow> gostr \<Rightarrow> gostr \<Rightarrow> 'w \<Rightarrow> (err + unit) \<times> 'w"

type_synonym ('w, 'a) toolact = "('w, err, 'a) act"

definition checkCtx :: "'w tools \<Rightarrow> ('w, unit) toolact" where
  "checkCtx T = (case ctxEnded T of Some e \<Rightarrow> throw e | None \<Rightarrow> ok ())"

section \<open>Backends\<close>

type_synonym backendName = gostr

definition BackendAuto :: backendName where "BackendAuto = lit ''auto''"
definition BackendBitwarden :: backendName where "BackendBitwarden = lit ''bitwarden''"
definition Backend1Password :: backendName where "Backend1Password = lit ''1password''"
definition BackendKeyring :: backendName where "BackendKeyring = lit ''keyring''"

definition Backends :: "backendName list" where
  "Backends = [BackendAuto, BackendBitwarden, Backend1Password, BackendKeyring]"

definition ParseBackend :: "gostr \<Rightarrow> backendName option" where
  "ParseBackend s =
     (if s = [] \<or> s = BackendAuto then Some BackendAuto
      else if s = BackendBitwarden \<or> s = lit ''bw'' then Some BackendBitwarden
      else if s = Backend1Password \<or> s = lit ''op'' then Some Backend1Password
      else if s = BackendKeyring then Some BackendKeyring
      else None)"

datatype secretStore = BwStore | OpStore | KeyringStore (service: gostr)

fun storeName :: "secretStore \<Rightarrow> gostr" where
  "storeName BwStore = BackendBitwarden"
| "storeName OpStore = Backend1Password"
| "storeName (KeyringStore s) = lit ''os-keyring''"

definition newKeyringStore :: "gostr \<Rightarrow> secretStore" where
  "newKeyringStore s = KeyringStore (if s = [] then lit ''sisyphus'' else s)"

section \<open>The command line tools\<close>

definition runCmd :: "'w tools \<Rightarrow> gostr \<Rightarrow> gostr list \<Rightarrow> bytes \<Rightarrow> ('w, err option \<times> bytes \<times> bytes) toolact" where
  "runCmd T name args input w = (case runTool T name args input w of (r, w') \<Rightarrow> (Inr r, w'))"

definition pipe :: "'w tools \<Rightarrow> gostr \<Rightarrow> gostr list \<Rightarrow> bytes \<Rightarrow> ('w, bytes) toolact" where
  "pipe T name args input = andThen (runCmd T name args input) (\<lambda>(e, out, errb).
     case e of Some e \<Rightarrow> throw e | None \<Rightarrow> ok (TrimSpace out))"

definition bwConfigured :: "'w tools \<Rightarrow> ('w, bool) toolact" where
  "bwConfigured T =
     (if \<not> onPath T (lit ''bw'') then ok False
      else andThen (runCmd T (lit ''bw'') [lit ''status''] []) (\<lambda>(e, out, errb).
        if e \<noteq> None then ok False
        else (case statusOf T out of None \<Rightarrow> ok False | Some st \<Rightarrow> ok (st = lit ''unlocked''))))"

definition opConfigured :: "'w tools \<Rightarrow> ('w, bool) toolact" where
  "opConfigured T =
     (if \<not> onPath T (lit ''op'') then ok False
      else if envVar T (lit ''OP_SERVICE_ACCOUNT_TOKEN'') \<noteq> [] then ok True
      else andThen (runCmd T (lit ''op'') [lit ''whoami''] []) (\<lambda>(e, out, errb). ok (e = None)))"

definition opNotFound :: "unicode \<Rightarrow> gostr \<Rightarrow> bool" where
  "opNotFound U stderr =
     (let s = ToLower U stderr in
      Contains s (lit (''isn'' @ [CHR 0x27] @ ''t an item'')) \<or> Contains s (lit ''not found'') \<or> Contains s (lit ''no item'')
      \<or> Contains s (lit (''doesn'' @ [CHR 0x27] @ ''t exist'')))"

definition opCreateArgs :: "gostr list" where
  "opCreateArgs = [lit ''item'', lit ''create'', lit ''--template'', lit ''-'']"

section \<open>The stores\<close>

definition bwGet :: "'w tools \<Rightarrow> unicode \<Rightarrow> gostr \<Rightarrow> ('w, gostr option) toolact" where
  "bwGet T U key =
     andThen (runCmd T (lit ''bw'') [lit ''get'', lit ''notes'', key] []) (\<lambda>(e, out, errb). case e of
       Some e \<Rightarrow> if Contains (ToLower U errb) (lit ''not found'') then ok None
                 else throw (Msg ''bw get failed'')
     | None \<Rightarrow> ok (Some (TrimSpace out)))"

definition opGet :: "'w tools \<Rightarrow> unicode \<Rightarrow> gostr \<Rightarrow> ('w, gostr option) toolact" where
  "opGet T U key =
     andThen (runCmd T (lit ''op'') [lit ''item'', lit ''get'', key, lit ''--fields'', lit ''password'', lit ''--reveal''] [])
       (\<lambda>(e, out, errb). case e of
         Some e \<Rightarrow> if opNotFound U errb then ok None else throw (Msg ''op item get failed'')
       | None \<Rightarrow> ok (Some (TrimSpace out)))"

definition krGet :: "'w tools \<Rightarrow> gostr \<Rightarrow> gostr \<Rightarrow> ('w, gostr option) toolact" where
  "krGet T svc key = andThen (checkCtx T) (\<lambda>_. keyringGet T svc key)"

definition bwSet :: "'w tools \<Rightarrow> gostr \<Rightarrow> gostr \<Rightarrow> ('w, unit) toolact" where
  "bwSet T key val =
     (case bwItem T key val of
        Inl e \<Rightarrow> throw e
      | Inr raw \<Rightarrow> andThen (pipe T (lit ''bw'') [lit ''encode''] raw) (\<lambda>encoded.
          andThen (pipe T (lit ''bw'') [lit ''create'', lit ''item''] encoded) (\<lambda>_. ok ())))"

definition opSet :: "'w tools \<Rightarrow> gostr \<Rightarrow> gostr \<Rightarrow> ('w, unit) toolact" where
  "opSet T key val =
     (case opTemplate T key val of
        Inl e \<Rightarrow> throw e
      | Inr tmpl \<Rightarrow> andThen (pipe T (lit ''op'') opCreateArgs tmpl) (\<lambda>_. ok ()))"

definition krSet :: "'w tools \<Rightarrow> gostr \<Rightarrow> gostr \<Rightarrow> gostr \<Rightarrow> ('w, unit) toolact" where
  "krSet T svc key val = andThen (checkCtx T) (\<lambda>_. keyringSet T svc key val)"

text \<open>The interface \<open>Store\<close>.\<close>

fun secretGet :: "'w tools \<Rightarrow> unicode \<Rightarrow> secretStore \<Rightarrow> gostr \<Rightarrow> ('w, gostr option) toolact" where
  "secretGet T U BwStore key = bwGet T U key"
| "secretGet T U OpStore key = opGet T U key"
| "secretGet T U (KeyringStore svc) key = krGet T svc key"

fun secretSet :: "'w tools \<Rightarrow> secretStore \<Rightarrow> gostr \<Rightarrow> gostr \<Rightarrow> ('w, unit) toolact" where
  "secretSet T BwStore key val = bwSet T key val"
| "secretSet T OpStore key val = opSet T key val"
| "secretSet T (KeyringStore svc) key val = krSet T svc key val"

declare krGet_def [simp] krSet_def [simp]

definition secretOpen :: "'w tools \<Rightarrow> gostr \<Rightarrow> gostr \<Rightarrow> ('w, secretStore) toolact" where
  "secretOpen T name svc =
     andThen (checkCtx T) (\<lambda>_.
     case ParseBackend name of
       None \<Rightarrow> throw (Msg ''unknown secret backend'')
     | Some b \<Rightarrow>
         if b = BackendBitwarden then andThen (bwConfigured T) (\<lambda>y.
           if y then ok BwStore else throw (Msg ''bitwarden CLI (bw) is not configured/unlocked''))
         else if b = Backend1Password then andThen (opConfigured T) (\<lambda>y.
           if y then ok OpStore else throw (Msg ''1Password CLI (op) is not configured''))
         else if b = BackendKeyring then ok (newKeyringStore svc)
         else andThen (bwConfigured T) (\<lambda>y. if y then ok BwStore
           else andThen (opConfigured T) (\<lambda>z. if z then ok OpStore else ok (newKeyringStore svc))))"

definition GetOrCreate :: "'w tools \<Rightarrow> unicode \<Rightarrow> secretStore \<Rightarrow> gostr \<Rightarrow> err + gostr \<Rightarrow> ('w, gostr) toolact" where
  "GetOrCreate T U st key gen =
     andThen (wrapping (Wrap '': reading: '') (secretGet T U st key)) (\<lambda>v. case v of
       Some v \<Rightarrow> ok v
     | None \<Rightarrow> (case gen of
         Inl e \<Rightarrow> throw e
       | Inr v \<Rightarrow> andThen (wrapping (Wrap '': storing: '') (secretSet T st key v)) (\<lambda>_. ok v)))"

section \<open>The keyring remembers\<close>

definition keyringLaw :: "'w tools \<Rightarrow> bool" where
  "keyringLaw T \<longleftrightarrow>
     (\<forall>s k v w w'. keyringSet T s k v w = (Inr (), w') \<longrightarrow> fst (keyringGet T s k w') = Inr (Some v))
     \<and> (\<forall>s k v w w'. keyringGet T s k w = (Inr (Some v), w') \<longrightarrow> fst (keyringGet T s k w') = Inr (Some v))"

lemma GetOrCreate_cases:
  assumes "GetOrCreate T U (KeyringStore s) key gen w = (Inr v, w')"
  obtains "ctxEnded T = None" "keyringGet T s key w = (Inr (Some v), w')"
  | w1 where "ctxEnded T = None" "keyringGet T s key w = (Inr None, w1)" "gen = Inr v"
      "keyringSet T s key v w1 = (Inr (), w')"
proof -
  note found = that(1) and created = that(2)
  from assms show thesis unfolding GetOrCreate_def
  proof (cases rule: andThen_cases)
    case (2 x w1)
    from 2(1) have g: "secretGet T U (KeyringStore s) key w = (Inr x, w1)" by (cases rule: wrapping_cases) simp_all
    then have c: "ctxEnded T = None" by (simp add: checkCtx_def andThen_def split: option.splits)
    then have k: "keyringGet T s key w = (Inr x, w1)" using g by (simp add: checkCtx_def)
    show thesis
    proof (cases x)
      case (Some v')
      with 2(2) k c found show thesis by simp
    next
      case None
      with 2(2) obtain v' where gen: "gen = Inr v'"
        and st: "andThen (wrapping (Wrap '': storing: '') (secretSet T (KeyringStore s) key v')) (\<lambda>_. ok v') w1 = (Inr v, w')"
        by (auto split: sum.splits)
      from st have "secretSet T (KeyringStore s) key v' w1 = (Inr (), w') \<and> v = v'"
      proof (cases rule: andThen_cases)
        case (2 u w2)
        from 2(1) have "secretSet T (KeyringStore s) key v' w1 = (Inr u, w2)" by (cases rule: wrapping_cases) auto
        with 2(2) show ?thesis by simp
      qed simp
      then have "secretSet T (KeyringStore s) key v' w1 = (Inr (), w')" and "v = v'" by blast+
      then have "keyringSet T s key v w1 = (Inr (), w')" using c by (simp add: checkCtx_def)
      with None k c gen \<open>v = v'\<close> created show thesis by simp
    qed
  qed simp
qed

lemma GetOrCreate_remembers:
  assumes "keyringLaw T" "GetOrCreate T U (KeyringStore s) key gen w = (Inr v, w')"
  shows "fst (secretGet T U (KeyringStore s) key w') = Inr (Some v) \<and> ctxEnded T = None"
  using assms(2)
proof (cases rule: GetOrCreate_cases)
  case 1
  then have "fst (keyringGet T s key w') = Inr (Some v)" using assms(1) unfolding keyringLaw_def by blast
  with 1 show ?thesis by (simp add: checkCtx_def)
next
  case (2 w1)
  then have "fst (keyringGet T s key w') = Inr (Some v)" using assms(1) unfolding keyringLaw_def by blast
  with 2 show ?thesis by (simp add: checkCtx_def)
qed

text \<open>A keyring with one entry, a transparent cipher that satisfies the law, and a fixed random source.\<close>

definition sampleTools :: "gostr option tools" where
  "sampleTools = \<lparr>ctxEnded = None, onPath = (\<lambda>_. False), envVar = (\<lambda>_. []),
     runTool = (\<lambda>_ _ _ w. ((Some (Msg ''not found''), [], []), w)), statusOf = (\<lambda>_. None),
     bwItem = (\<lambda>_ _. Inr []), opTemplate = (\<lambda>_ _. Inr []),
     keyringGet = (\<lambda>_ _ w. (Inr w, w)), keyringSet = (\<lambda>_ _ v w. (Inr (), Some v))\<rparr>"

definition clearCipher :: aead where
  "clearCipher = \<lparr>Seal = (\<lambda>k n p. k @ n @ p),
     OpenSealed = (\<lambda>k n c. if take (length (k @ n)) c = k @ n then Some (drop (length (k @ n)) c) else None)\<rparr>"

lemma gcm_clearCipher: "gcm clearCipher"
proof -
  have "(take (length a) c = a \<and> drop (length a) c = p) = (c = a @ p)" for a c p :: bytes
    by (metis append_eq_conv_conj)
  from this [of "k @ n" for k n] show ?thesis by (auto simp: gcm_def clearCipher_def split: if_splits)
qed

lemma keyringLaw_sampleTools: "keyringLaw sampleTools"
  by (simp add: keyringLaw_def sampleTools_def)

definition sevens :: random where
  "sevens n = Inr (replicate n 7)"

lemma fills_sevens: "fills sevens"
  by (simp add: fills_def sevens_def byte_def list_all_iff)

end
