(* ===== verification/KeyBackup.thy ===== *)
theory KeyBackup
  imports Secrets BackupRestore
begin

text \<open>
  src/backup.go, the encrypted backup of the package root: the archive of theory Backup sealed
  with a key that is escrowed in a secret store, and its restoration.  The state is the world
  of the secret tools and the file system.  The random source is asked for a key of 32 and a
  nonce of 12 bytes.
\<close>

record secretRef =
  RefBackend :: gostr
  RefName :: gostr
  RefService :: gostr

record 'w machine =
  vault :: 'w
  disc :: fsys

definition onVault :: "('w, 'a) toolact \<Rightarrow> ('w machine, err, 'a) act" where
  "onVault m s = (case m (vault s) of (r, w) \<Rightarrow> (r, s\<lparr>vault := w\<rparr>))"

definition onDisc :: "'a fsact \<Rightarrow> ('w machine, err, 'a) act" where
  "onDisc m s = (case m (disc s) of (r, f) \<Rightarrow> (r, s\<lparr>disc := f\<rparr>))"

definition given :: "err + 'a \<Rightarrow> ('s, err, 'a) act" where
  "given r = (case r of Inl e \<Rightarrow> throw e | Inr x \<Rightarrow> ok x)"

definition keyName :: "gostr \<Rightarrow> gostr" where
  "keyName name = (if name = [] then lit ''backup-key'' else name)"

definition readKey :: "'w tools \<Rightarrow> unicode \<Rightarrow> secretStore \<Rightarrow> gostr \<Rightarrow> ('w, bytes) toolact" where
  "readKey T U st name =
     andThen (wrapping (Wrap '': reading: '') (secretGet T U st (keyName name))) (\<lambda>v. case v of
       None \<Rightarrow> throw (Msg ''no backup key found; cannot decrypt'')
     | Some v \<Rightarrow> given (DecodeString v))"

definition newKeyText :: "random \<Rightarrow> err + gostr" where
  "newKeyText rnd = (case NewKey rnd of Inl e \<Rightarrow> Inl e | Inr k \<Rightarrow> Inr (enc64 k))"

definition getOrCreateKey :: "'w tools \<Rightarrow> unicode \<Rightarrow> random \<Rightarrow> secretStore \<Rightarrow> gostr \<Rightarrow> ('w, bytes) toolact" where
  "getOrCreateKey T U rnd st name =
     andThen (GetOrCreate T U st (keyName name) (newKeyText rnd)) (\<lambda>v. given (DecodeString v))"

definition sealedBackup :: "'w tools \<Rightarrow> unicode \<Rightarrow> aead \<Rightarrow> random \<Rightarrow> (bytes \<Rightarrow> bytes \<Rightarrow> bytes) \<Rightarrow> nat
    \<Rightarrow> (gostr \<Rightarrow> nat \<Rightarrow> err option) \<Rightarrow> ((gostr \<times> bytes) list \<Rightarrow> err + bytes) \<Rightarrow> path list \<Rightarrow> secretRef
    \<Rightarrow> ('w machine, err, bytes \<times> gostr) act" where
  "sealedBackup T U G rnd ck pid hdrErr tarBytes paths ref =
     andThen (onVault (secretOpen T (RefBackend ref) (RefService ref))) (\<lambda>st.
     andThen (onVault (getOrCreateKey T U rnd st (RefName ref))) (\<lambda>key.
     andThen (onDisc (Archive ck pid hdrErr tarBytes paths)) (\<lambda>archive.
     andThen (given (Encrypt G rnd archive key)) (\<lambda>sealed.
       ok (sealed, storeName st)))))"

definition sealedRestore :: "'w tools \<Rightarrow> unicode \<Rightarrow> aead \<Rightarrow> (bytes \<Rightarrow> tarEntry list \<times> err option) \<Rightarrow> nat
    \<Rightarrow> (gostr \<Rightarrow> bool) \<Rightarrow> bytes \<Rightarrow> secretRef \<Rightarrow> path \<Rightarrow> ('w machine, err, gostr list \<times> gostr) act" where
  "sealedRestore T U G untar pid oldDir sealed ref d =
     andThen (onVault (secretOpen T (RefBackend ref) (RefService ref))) (\<lambda>st.
     andThen (onVault (readKey T U st (RefName ref))) (\<lambda>key.
     andThen (onDisc (Restore (Decrypt G) untar pid oldDir sealed key d)) (\<lambda>names.
       ok (names, storeName st))))"

lemma onVault_run: "m (vault s) = (r, w) \<Longrightarrow> onVault m s = (r, s\<lparr>vault := w\<rparr>)"
  by (simp add: onVault_def)

lemma onDisc_run: "m (disc s) = (r, f) \<Longrightarrow> onDisc m s = (r, s\<lparr>disc := f\<rparr>)"
  by (simp add: onDisc_def)

lemma secretOpen_keyring:
  "ctxEnded T = None \<Longrightarrow> secretOpen T BackendKeyring svc w = (Inr (newKeyringStore svc), w)"
  "secretOpen T BackendKeyring svc w = (Inr st, w') \<Longrightarrow> st = newKeyringStore svc \<and> w' = w \<and> ctxEnded T = None"
proof -
  have p: "ParseBackend BackendKeyring = Some BackendKeyring" by code_simp
  have d: "BackendKeyring \<noteq> BackendBitwarden" "BackendKeyring \<noteq> Backend1Password" by code_simp+
  show "ctxEnded T = None \<Longrightarrow> secretOpen T BackendKeyring svc w = (Inr (newKeyringStore svc), w)"
    by (simp add: secretOpen_def checkCtx_def p d)
  show "secretOpen T BackendKeyring svc w = (Inr st, w') \<Longrightarrow> st = newKeyringStore svc \<and> w' = w \<and> ctxEnded T = None"
    by (cases "ctxEnded T") (simp_all add: secretOpen_def checkCtx_def p d)
qed

text \<open>The key that a backup used is the one that is read afterwards.\<close>

lemma escrowed_key:
  assumes "keyringLaw T" "getOrCreateKey T U rnd (KeyringStore svc) name w = (Inr key, w')"
  shows "fst (readKey T U (KeyringStore svc) name w') = Inr key"
  using assms(2) unfolding getOrCreateKey_def
proof (cases rule: andThen_cases)
  case (2 v w1)
  then have k: "DecodeString v = Inr key" "w' = w1" by (auto simp: given_def split: sum.splits)
  have "fst (secretGet T U (KeyringStore svc) (keyName name) w') = Inr (Some v)"
    using GetOrCreate_remembers [OF assms(1) 2(1)] k(2) by simp
  then obtain w2 where "secretGet T U (KeyringStore svc) (keyName name) w' = (Inr (Some v), w2)"
    by (cases "secretGet T U (KeyringStore svc) (keyName name) w'") auto
  then have g: "wrapping (Wrap '': reading: '') (secretGet T U (KeyringStore svc) (keyName name)) w' = (Inr (Some v), w2)"
    by (simp add: wrapping_def)
  show ?thesis
    unfolding readKey_def step_ok [of "wrapping (Wrap '': reading: '') (secretGet T U (KeyringStore svc) (keyName name))", OF g]
    by (simp add: k(1) given_def)
qed simp

lemma sealedBackup_res:
  assumes "gcm G" "fills rnd" "keyringLaw T" "RefBackend ref = BackendKeyring"
    and "sealedBackup T U G rnd ck pid hdrErr tarBytes paths ref s = (Inr (sealed, nm), s1)"
  obtains key archive where "ctxEnded T = None" "nm = storeName (newKeyringStore (RefService ref))"
    "Archive ck pid hdrErr tarBytes paths (disc s) = (Inr archive, disc s1)"
    "Decrypt G sealed key = Inr archive"
    "fst (readKey T U (newKeyringStore (RefService ref)) (RefName ref) (vault s1)) = Inr key"
proof -
  let ?st = "newKeyringStore (RefService ref)"
  note result = that
  from assms(5) obtain st sa where o1: "onVault (secretOpen T (RefBackend ref) (RefService ref)) s = (Inr st, sa)"
    and r1: "andThen (onVault (getOrCreateKey T U rnd st (RefName ref))) (\<lambda>key.
       andThen (onDisc (Archive ck pid hdrErr tarBytes paths)) (\<lambda>archive.
       andThen (given (Encrypt G rnd archive key)) (\<lambda>sealed. ok (sealed, storeName st)))) sa = (Inr (sealed, nm), s1)"
    unfolding sealedBackup_def by (cases rule: andThen_cases) auto
  have st: "st = ?st" "sa = s" "ctxEnded T = None"
    using o1 secretOpen_keyring(2) [of T "RefService ref" "vault s" st] unfolding assms(4) onVault_def
    by (auto split: prod.splits)
  from r1 obtain key sb where o2: "onVault (getOrCreateKey T U rnd st (RefName ref)) sa = (Inr key, sb)"
    and r2: "andThen (onDisc (Archive ck pid hdrErr tarBytes paths)) (\<lambda>archive.
       andThen (given (Encrypt G rnd archive key)) (\<lambda>sealed. ok (sealed, storeName st))) sb = (Inr (sealed, nm), s1)"
    by (cases rule: andThen_cases) auto
  from r2 obtain archive sc where o3: "onDisc (Archive ck pid hdrErr tarBytes paths) sb = (Inr archive, sc)"
    and r3: "andThen (given (Encrypt G rnd archive key)) (\<lambda>sealed. ok (sealed, storeName st)) sc = (Inr (sealed, nm), s1)"
    by (cases rule: andThen_cases) auto
  have e: "Encrypt G rnd archive key = Inr sealed" "s1 = sc" "nm = storeName st"
    using r3 by (auto simp: given_def andThen_def split: sum.splits)
  obtain w where k: "getOrCreateKey T U rnd ?st (RefName ref) (vault s) = (Inr key, w)" "sb = s\<lparr>vault := w\<rparr>"
    using o2 st by (auto simp: onVault_def split: prod.splits)
  have a: "Archive ck pid hdrErr tarBytes paths (disc s) = (Inr archive, disc s1)" "vault s1 = w"
    using o3 k(2) e(2) by (auto simp: onDisc_def split: prod.splits)
  obtain svc where svc: "?st = KeyringStore svc" by (simp add: newKeyringStore_def)
  show thesis
    using result st(3) e(3) a escrowed_key [OF assms(3) k(1) [unfolded svc]] Decrypt_Encrypt [OF assms(1,2) e(1)] st(1) svc by simp
qed

text \<open>
  Claim C29.  A backup can be opened with what was escrowed: whatever \<open>Backup\<close> returned, sealed with a
  key it found in the keyring or has created there, a later \<open>Restore\<close> on the same keyring and any
  file system reads that same key, decrypts exactly the archive that was made, and does what
  \<open>backup.Restore\<close> does with it, reporting the same store; it needs only that the keyring gives back what
  was stored.
\<close>

theorem escrowed_backup_restores:
  assumes "gcm G" "fills rnd" "keyringLaw T" "RefBackend ref = BackendKeyring"
    and "sealedBackup T U G rnd ck pid hdrErr tarBytes paths ref s = (Inr (sealed, nm), s1)"
    and "vault s2 = vault s1"
    and "sealedRestore T U G untar pid oldDir sealed ref d s2 = (r, s3)"
  shows "\<exists>key archive. fst (Archive ck pid hdrErr tarBytes paths (disc s)) = Inr archive
    \<and> Decrypt G sealed key = Inr archive
    \<and> (case Restore (Decrypt G) untar pid oldDir sealed key d (disc s2) of (r', f) \<Rightarrow>
         disc s3 = f \<and> r = (case r' of Inl e \<Rightarrow> Inl e | Inr names \<Rightarrow> Inr (names, nm)))"
proof -
  let ?st = "newKeyringStore (RefService ref)"
  obtain key archive where b: "ctxEnded T = None" "nm = storeName ?st"
    "Archive ck pid hdrErr tarBytes paths (disc s) = (Inr archive, disc s1)"
    "Decrypt G sealed key = Inr archive" "fst (readKey T U ?st (RefName ref) (vault s1)) = Inr key"
    by (rule sealedBackup_res [OF assms(1-5)])
  obtain w where k: "readKey T U ?st (RefName ref) (vault s2) = (Inr key, w)"
    using b(5) assms(6) by (cases "readKey T U ?st (RefName ref) (vault s2)") auto
  obtain r' f where res: "Restore (Decrypt G) untar pid oldDir sealed key d (disc s2) = (r', f)" by fastforce
  have o: "onVault (secretOpen T (RefBackend ref) (RefService ref)) s2 = (Inr ?st, s2)"
    using b(1) by (simp add: onVault_def assms(4) secretOpen_keyring(1))
  have "andThen (onVault (readKey T U ?st (RefName ref))) (\<lambda>key.
     andThen (onDisc (Restore (Decrypt G) untar pid oldDir sealed key d)) (\<lambda>names. ok (names, storeName ?st))) s2 = (r, s3)"
    using assms(7) unfolding sealedRestore_def step_ok [of "onVault (secretOpen T (RefBackend ref) (RefService ref))", OF o] .
  then have "andThen (onDisc (Restore (Decrypt G) untar pid oldDir sealed key d)) (\<lambda>names. ok (names, storeName ?st)) (s2\<lparr>vault := w\<rparr>) = (r, s3)"
    unfolding step_ok [of "onVault (readKey T U ?st (RefName ref))", OF onVault_run [of "readKey T U ?st (RefName ref)" s2, OF k]] .
  then have "disc s3 = f \<and> r = (case r' of Inl e \<Rightarrow> Inl e | Inr names \<Rightarrow> Inr (names, nm))"
    using res b(2) by (auto simp: andThen_def onDisc_def split: sum.splits)
  with res b(3,4) show ?thesis by auto
qed

definition sampleRef :: secretRef where
  "sampleRef = \<lparr>RefBackend = BackendKeyring, RefName = [], RefService = []\<rparr>"

definition sampleMachine :: "gostr option machine" where
  "sampleMachine = \<lparr>vault = None, disc = sampleFs []\<rparr>"

definition sampleBackup :: "(err + bytes \<times> gostr) \<times> gostr option machine" where
  "sampleBackup = sealedBackup sampleTools ascii clearCipher sevens (\<lambda>d w. d) 7 (\<lambda>_ _. None) (\<lambda>fs. Inr (encodeMap fs))
     [[lit ''h'', lit ''a'']] sampleRef sampleMachine"

theorem escrowed_backup_restores_witness:
  "case sampleBackup of (r, s1) \<Rightarrow> case r of Inl e \<Rightarrow> False | Inr (sealed, nm) \<Rightarrow>
     nm = lit ''os-keyring'' \<and>
     (\<exists>key archive. fst (Archive (\<lambda>d w. d) 7 (\<lambda>_ _. None) (\<lambda>fs. Inr (encodeMap fs)) [[lit ''h'', lit ''a'']] (sampleFs [])) = Inr archive
       \<and> Decrypt clearCipher sealed key = Inr archive)"
proof -
  have "case sampleBackup of (r, s1) \<Rightarrow> (case r of Inl e \<Rightarrow> False | Inr (sealed, nm) \<Rightarrow> nm = lit ''os-keyring'')" by code_simp
  then obtain sealed nm s1 where b: "sampleBackup = (Inr (sealed, nm), s1)" and nm: "nm = lit ''os-keyring''"
    by (cases sampleBackup) (auto split: sum.splits)
  obtain r s3 where res: "sealedRestore sampleTools ascii clearCipher (\<lambda>_. ([], None)) 7 (\<lambda>_. False) sealed sampleRef [lit ''h''] s1 = (r, s3)"
    by fastforce
  have ref: "RefBackend sampleRef = BackendKeyring" by (simp add: sampleRef_def)
  from escrowed_backup_restores [OF gcm_clearCipher fills_sevens keyringLaw_sampleTools ref b [unfolded sampleBackup_def] refl res]
  obtain key archive where "fst (Archive (\<lambda>d w. d) 7 (\<lambda>_ _. None) (\<lambda>fs. Inr (encodeMap fs)) [[lit ''h'', lit ''a'']] (disc sampleMachine)) = Inr archive"
    "Decrypt clearCipher sealed key = Inr archive" by blast
  then have "\<exists>key archive. fst (Archive (\<lambda>d w. d) 7 (\<lambda>_ _. None) (\<lambda>fs. Inr (encodeMap fs)) [[lit ''h'', lit ''a'']] (sampleFs [])) = Inr archive
       \<and> Decrypt clearCipher sealed key = Inr archive"
    by (intro exI conjI) (simp_all add: sampleMachine_def)
  with nm show ?thesis unfolding b prod.case sum.case by blast
qed

end
