(* ===== verification/KV.thy ===== *)
theory KV
  imports Stores
begin

text \<open>
  The namespaced key/value store of src/kv/kv.go: its one table with the primary key
  (namespace, key), the nine methods of \<open>Store\<close>, and the abstract store they implement, a map
  from (namespace, key) to an entry.  \<open>ts\<close> is what the engine keeps of a timestamp.
\<close>

section \<open>Data\<close>

record kvrow =
  rns :: string
  rkey :: string
  rvalue :: string
  rexpiry :: "time option"
  rupdated :: time

record entry =
  Value :: string
  Expiry :: time
  Updated :: time

record NamespaceStat =
  Namespace :: string
  Entries :: int
  Expired :: int
  Fresh :: int
  Oldest :: time
  Newest :: time

definition kvErrUnavailable :: err where
  "kvErrUnavailable = ErrUnavailable ''kv ''"

type_synonym kvtable = "kvrow list"
type_synonym 'a kvop = "(kvtable store, err, 'a) act"

definition rowKey :: "kvrow \<Rightarrow> string \<times> string" where
  "rowKey r = (rns r, rkey r)"

definition entryOf :: "kvrow \<Rightarrow> entry" where
  "entryOf r = \<lparr>Value = rvalue r, Expiry = scanTime (rexpiry r), Updated = rupdated r\<rparr>"

definition expired :: "time \<Rightarrow> time \<Rightarrow> bool" where
  "expired t expiry \<longleftrightarrow> \<not> IsZero expiry \<and> \<not> After expiry t"

section \<open>Methods\<close>

definition kv_Get :: "call \<Rightarrow> string \<Rightarrow> string \<Rightarrow> entry option kvop" where
  "kv_Get c namespace key = within kvErrUnavailable c
     (andThen (query (engine c) (find (\<lambda>r. rowKey r = (namespace, key)))) (\<lambda>row.
        case row of
          None \<Rightarrow> ok None
        | Some r \<Rightarrow>
            if expired (now c) (Expiry (entryOf r))
            then andThen (attempt (exec (engine c) (deleteWhere (\<lambda>r. rowKey r = (namespace, key))))) (\<lambda>_. ok None)
            else ok (Some (entryOf r))))"

definition newRow :: "(time \<Rightarrow> time) \<Rightarrow> time \<Rightarrow> string \<Rightarrow> string \<Rightarrow> string \<Rightarrow> time \<Rightarrow> kvrow" where
  "newRow ts t namespace key val expiry =
     \<lparr>rns = namespace, rkey = key, rvalue = val, rexpiry = map_option ts (NullTime expiry), rupdated = ts t\<rparr>"

definition kv_Put :: "(time \<Rightarrow> time) \<Rightarrow> call \<Rightarrow> string \<Rightarrow> string \<Rightarrow> string \<Rightarrow> time \<Rightarrow> unit kvop" where
  "kv_Put ts c namespace key val expiry = within kvErrUnavailable c
     (inTx (engine c)
        (andThen (exec (engine c) (deleteWhere (\<lambda>r. rowKey r = (namespace, key)))) (\<lambda>_.
         exec (engine c) (insertKeyed rowKey (newRow ts (now c) namespace key val expiry)))))"

definition kv_Delete :: "call \<Rightarrow> string \<Rightarrow> string \<Rightarrow> unit kvop" where
  "kv_Delete c namespace key = within kvErrUnavailable c
     (andThen (exec (engine c) (deleteWhere (\<lambda>r. rowKey r = (namespace, key)))) (\<lambda>_. ok ()))"

definition isExpired :: "(time \<Rightarrow> time) \<Rightarrow> time \<Rightarrow> kvrow \<Rightarrow> bool" where
  "isExpired ts t r \<longleftrightarrow> (case rexpiry r of None \<Rightarrow> False | Some x \<Rightarrow> x \<le> ts t)"

definition sweepOn :: "(time \<Rightarrow> time) \<Rightarrow> call \<Rightarrow> (kvtable conn, err, int) act" where
  "sweepOn ts c = exec (engine c) (deleteWhere (isExpired ts (now c)))"

fun collect :: "kvrow list \<Rightarrow> (string \<rightharpoonup> entry) \<Rightarrow> string \<rightharpoonup> entry" where
  "collect [] found = found"
| "collect (r # rows) found = collect rows (found(rkey r \<mapsto> entryOf r))"

definition kv_List :: "(time \<Rightarrow> time) \<Rightarrow> call \<Rightarrow> string \<Rightarrow> (string \<rightharpoonup> entry) kvop" where
  "kv_List ts c namespace = within kvErrUnavailable c
     (andThen (sweepOn ts c) (\<lambda>_.
      andThen (query (engine c) (filter (\<lambda>r. rns r = namespace))) (\<lambda>rows.
      ok (collect rows Map.empty))))"

definition kv_Namespaces :: "(time \<Rightarrow> time) \<Rightarrow> call \<Rightarrow> string list kvop" where
  "kv_Namespaces ts c = within kvErrUnavailable c
     (andThen (sweepOn ts c) (\<lambda>_. query (engine c) (\<lambda>t. sort (remdups (map rns t)))))"

definition liveRow :: "(time \<Rightarrow> time) \<Rightarrow> time \<Rightarrow> kvrow \<Rightarrow> bool" where
  "liveRow ts t r \<longleftrightarrow> (case rexpiry r of None \<Rightarrow> True | Some x \<Rightarrow> x > ts t)"

definition minTime :: "time list \<Rightarrow> time option" where
  "minTime xs = (case xs of [] \<Rightarrow> None | x # ys \<Rightarrow> Some (fold min ys x))"

definition maxTime :: "time list \<Rightarrow> time option" where
  "maxTime xs = (case xs of [] \<Rightarrow> None | x # ys \<Rightarrow> Some (fold max ys x))"

text \<open>The aggregate of one group.\<close>

definition statOf :: "(time \<Rightarrow> time) \<Rightarrow> time \<Rightarrow> time \<Rightarrow> kvtable \<Rightarrow> string \<Rightarrow> NamespaceStat" where
  "statOf ts cutoff t rows namespace =
     (let g = filter (\<lambda>r. rns r = namespace) rows; live = filter (liveRow ts t) g in
      \<lparr>Namespace = namespace,
       Entries = int (length live),
       Expired = int (length (filter (\<lambda>r. \<not> liveRow ts t r) g)),
       Fresh = int (length (filter (\<lambda>r. rupdated r \<ge> ts cutoff) live)),
       Oldest = scanTime (minTime (map rupdated live)),
       Newest = scanTime (maxTime (map rupdated live))\<rparr>)"

definition kv_Stats :: "(time \<Rightarrow> time) \<Rightarrow> call \<Rightarrow> duration \<Rightarrow> NamespaceStat list kvop" where
  "kv_Stats ts c fresh = within kvErrUnavailable c
     (let cutoff = now c + wrap64 (- fresh) in
      andThen (query (engine c) (\<lambda>t. map (statOf ts cutoff (now c) t) (sort (remdups (map rns t))))) (\<lambda>found.
      ok (map (\<lambda>st. if fresh \<le> 0 then st\<lparr>Fresh := 0\<rparr> else st) found)))"

definition kv_Clear :: "call \<Rightarrow> string \<Rightarrow> int kvop" where
  "kv_Clear c namespace = within kvErrUnavailable c
     (if namespace = [] then exec (engine c) (deleteWhere (\<lambda>_. True))
      else exec (engine c) (deleteWhere (\<lambda>r. rns r = namespace)))"

definition kv_Sweep :: "(time \<Rightarrow> time) \<Rightarrow> call \<Rightarrow> int kvop" where
  "kv_Sweep ts c = within kvErrUnavailable c (sweepOn ts c)"

definition kv_Open :: "call \<Rightarrow> tuneOption option list \<Rightarrow> locktab \<Rightarrow> kvtable conn
    \<Rightarrow> (err + kvtable store) \<times> kvtable conn world" where
  "kv_Open = storeOpen kvErrUnavailable"

definition kv_Close :: "string \<Rightarrow> kvtable store \<Rightarrow> kvtable store" where
  "kv_Close = storeClose"

section \<open>The abstract store\<close>

type_synonym kvmap = "string \<times> string \<rightharpoonup> entry"

definition kvAbs :: "kvtable \<Rightarrow> kvmap" where
  "kvAbs t = map_of (map (\<lambda>r. (rowKey r, entryOf r)) t)"

text \<open>What can still be read at an instant.\<close>

definition liveMap :: "time \<Rightarrow> kvmap \<Rightarrow> kvmap" where
  "liveMap t m = (\<lambda>k. case m k of Some e \<Rightarrow> if expired t (Expiry e) then None else Some e | None \<Rightarrow> None)"

definition kvOk :: "kvtable \<Rightarrow> bool" where
  "kvOk t \<longleftrightarrow> keyed rowKey t"

lemma kvAbs_find: "kvAbs t k = map_option entryOf (find (\<lambda>r. rowKey r = k) t)"
  by (induction t) (auto simp: kvAbs_def)

lemma kvAbs_Nil [simp]: "kvAbs [] = Map.empty"
  by (simp add: kvAbs_def)

lemma kvAbs_delete: "kvAbs (filter (\<lambda>r. \<not> (rowKey r \<in> K)) t) = (\<lambda>k. if k \<in> K then None else kvAbs t k)"
  by (induction t) (auto simp: kvAbs_def fun_eq_iff)

lemma kvAbs_delete1: "kvAbs (filter (\<lambda>r. rowKey r \<noteq> k) t) = (kvAbs t)(k := None)"
  using kvAbs_delete [of "{k}" t] by (auto simp: fun_eq_iff)

lemma kvAbs_insert: "rowKey r \<notin> rowKey ` set t \<Longrightarrow> kvAbs (t @ [r]) = (kvAbs t)(rowKey r \<mapsto> entryOf r)"
  by (simp add: kvAbs_def map_add_upd_left dom_map_of_conv_image_fst image_image)

lemma kvAbs_filter: "kvOk t \<Longrightarrow> kvAbs (filter P t) k = map_option entryOf (find (\<lambda>r. rowKey r = k \<and> P r) t)"
proof (induction t)
  case (Cons r t)
  have "find (\<lambda>r'. rowKey r' = rowKey r \<and> P r') t = None"
    using Cons.prems by (auto simp: kvOk_def keyed_def find_None_iff image_iff)
  with Cons show ?case by (auto simp: kvOk_def keyed_def kvAbs_def)
qed simp

lemma kvAbs_Some: "kvOk t \<Longrightarrow> kvAbs t k = Some e \<longleftrightarrow> (\<exists>r \<in> set t. rowKey r = k \<and> e = entryOf r)"
  unfolding kvAbs_find kvOk_def by (auto simp: find_keyed)

section \<open>What each method does to the table\<close>

definition putF :: "kvrow \<Rightarrow> kvtable \<Rightarrow> err + (kvtable \<times> unit)" where
  "putF r = seqF (deleteWhere (\<lambda>x. rowKey x = rowKey r)) (\<lambda>_. insertKeyed rowKey r)"

lemma putF_Inr: "putF r t = Inr (filter (\<lambda>x. rowKey x \<noteq> rowKey r) t @ [r], ())"
  by (auto simp: putF_def seqF_def deleteWhere_def insertKeyed_def)

lemma kv_Put_atomic:
  "atomically F (inTx F (andThen (exec F (deleteWhere (\<lambda>x. rowKey x = (n, k)))) (\<lambda>_. exec F (insertKeyed rowKey (newRow ts t n k v x)))))
     (putF (newRow ts t n k v x))"
  unfolding putF_def newRow_def rowKey_def by (auto intro!: atomically_inTx implements_andThen)

lemma kvAbs_put: "kvAbs (filter (\<lambda>x. rowKey x \<noteq> rowKey r) t @ [r]) = (kvAbs t)(rowKey r \<mapsto> entryOf r)"
  by (subst kvAbs_insert) (auto simp: kvAbs_delete1)

lemma kvOk_put: "kvOk t \<Longrightarrow> kvOk (filter (\<lambda>x. rowKey x \<noteq> rowKey r) t @ [r])"
  by (auto simp: kvOk_def keyed_def distinct_map_filter_key)

lemma kvOk_filter: "kvOk t \<Longrightarrow> kvOk (filter P t)"
  by (simp add: kvOk_def keyed_filter)

lemma collect_eq: "collect rows found = (\<lambda>k. case map_of (map (\<lambda>r. (rkey r, entryOf r)) (rev rows)) k of None \<Rightarrow> found k | Some e \<Rightarrow> Some e)"
  by (induction rows arbitrary: found) (auto simp: fun_eq_iff map_add_def split: option.splits)

lemma collect_ns:
  assumes "kvOk t"
  shows "collect (filter (\<lambda>r. rns r = n) t) Map.empty = (\<lambda>k. kvAbs t (n, k))"
proof
  fix k
  have "collect rows found k = (case map_of (map (\<lambda>r. (rkey r, entryOf r)) rows) k of None \<Rightarrow> found k | Some e \<Rightarrow> Some e)"
    if "distinct (map rkey rows)" for rows found
    using that
  proof (induction rows arbitrary: found)
    case (Cons r rows)
    then have "map_of (map (\<lambda>r. (rkey r, entryOf r)) rows) (rkey r) = None"
      by (auto simp: map_of_eq_None_iff image_iff)
    with Cons show ?case by (auto split: option.splits)
  qed simp
  moreover have "distinct (map rkey (filter (\<lambda>r. rns r = n) t))"
    using assms by (induction t) (auto simp: kvOk_def keyed_def rowKey_def image_iff)
  moreover have "map_of (map (\<lambda>r. (rkey r, entryOf r)) (filter (\<lambda>r. rns r = n) t)) k = kvAbs t (n, k)"
    by (induction t) (auto simp: kvAbs_def rowKey_def)
  ultimately show "collect (filter (\<lambda>r. rns r = n) t) Map.empty k = kvAbs t (n, k)"
    by (simp split: option.split)
qed


section \<open>The specification\<close>

datatype kvOp =
    OpGet string string
  | OpPut string string string time
  | OpDelete string string
  | OpList string
  | OpNamespaces
  | OpStats duration
  | OpClear string
  | OpSweep

datatype kvReply =
    RDone
  | REntry "entry option"
  | RMap "string \<rightharpoonup> entry"
  | RNames "string list"
  | RStats "NamespaceStat list"
  | RCount int

definition replied :: "('a \<Rightarrow> kvReply) \<Rightarrow> 'a kvop \<Rightarrow> kvReply kvop" where
  "replied f m = andThen m (\<lambda>x. ok (f x))"

fun kv_call :: "(time \<Rightarrow> time) \<Rightarrow> call \<Rightarrow> kvOp \<Rightarrow> kvReply kvop" where
  "kv_call ts c (OpGet n k) = replied REntry (kv_Get c n k)"
| "kv_call ts c (OpPut n k v x) = replied (\<lambda>_. RDone) (kv_Put ts c n k v x)"
| "kv_call ts c (OpDelete n k) = replied (\<lambda>_. RDone) (kv_Delete c n k)"
| "kv_call ts c (OpList n) = replied RMap (kv_List ts c n)"
| "kv_call ts c OpNamespaces = replied RNames (kv_Namespaces ts c)"
| "kv_call ts c (OpStats d) = replied RStats (kv_Stats ts c d)"
| "kv_call ts c (OpClear n) = replied RCount (kv_Clear c n)"
| "kv_call ts c OpSweep = replied RCount (kv_Sweep ts c)"

text \<open>The map after the operation.\<close>

fun kvSpec :: "(time \<Rightarrow> time) \<Rightarrow> time \<Rightarrow> kvOp \<Rightarrow> kvmap \<Rightarrow> kvmap" where
  "kvSpec ts t (OpPut n k v x) m = m((n, k) \<mapsto> \<lparr>Value = v, Expiry = (if x = 0 then 0 else ts x), Updated = ts t\<rparr>)"
| "kvSpec ts t (OpDelete n k) m = m((n, k) := None)"
| "kvSpec ts t (OpClear n) m = (\<lambda>(n', k). if n = [] \<or> n' = n then None else m (n', k))"
| "kvSpec ts t _ m = m"

text \<open>The reply that the live entries allow.\<close>

text \<open>
  Of one namespace \<open>Stats\<close> reports how many entries are live, how many have expired but are still there, how
  many live ones were written in the last \<open>fresh\<close> (none if that is not positive), and when the oldest and
  the newest live one were written (the zero time if none is live).
\<close>

definition liveUpdates :: "time \<Rightarrow> kvmap \<Rightarrow> string \<Rightarrow> time set" where
  "liveUpdates t m n = {Updated e | k e. liveMap t m (n, k) = Some e}"

definition statAnswer :: "(time \<Rightarrow> time) \<Rightarrow> time \<Rightarrow> duration \<Rightarrow> kvmap \<Rightarrow> NamespaceStat \<Rightarrow> bool" where
  "statAnswer ts t fresh m st \<longleftrightarrow>
     Entries st = int (card {k. liveMap t m (Namespace st, k) \<noteq> None})
   \<and> Expired st = int (card {k. m (Namespace st, k) \<noteq> None \<and> liveMap t m (Namespace st, k) = None})
   \<and> Fresh st = (if fresh \<le> 0 then 0 else int (card {k. \<exists>e. liveMap t m (Namespace st, k) = Some e
         \<and> ts (t + wrap64 (- fresh)) \<le> Updated e}))
   \<and> Oldest st = (if liveUpdates t m (Namespace st) = {} then zero_time else Min (liveUpdates t m (Namespace st)))
   \<and> Newest st = (if liveUpdates t m (Namespace st) = {} then zero_time else Max (liveUpdates t m (Namespace st)))"

fun kvAnswer :: "(time \<Rightarrow> time) \<Rightarrow> time \<Rightarrow> kvmap \<Rightarrow> kvOp \<Rightarrow> kvReply \<Rightarrow> bool" where
  "kvAnswer ts t m (OpGet n k) r \<longleftrightarrow> r = REntry (liveMap t m (n, k))"
| "kvAnswer ts t m (OpList n) r \<longleftrightarrow> r = RMap (\<lambda>k. liveMap t m (n, k))"
| "kvAnswer ts t m OpNamespaces r \<longleftrightarrow> (\<exists>ns. r = RNames ns \<and> sorted ns \<and> distinct ns
      \<and> set ns = {n. \<exists>k. liveMap t m (n, k) \<noteq> None})"
| "kvAnswer ts t m (OpStats d) r \<longleftrightarrow> (\<exists>sts. r = RStats sts
      \<and> sorted (map Namespace sts) \<and> distinct (map Namespace sts) \<and> Namespace ` set sts = fst ` dom m
      \<and> (\<forall>st \<in> set sts. statAnswer ts t d m st))"
| "kvAnswer ts t m (OpClear n) r \<longleftrightarrow> r = RCount (int (card {k \<in> dom m. n = [] \<or> fst k = n}))"
| "kvAnswer ts t m OpSweep r \<longleftrightarrow> r = RCount (int (card {k \<in> dom m. liveMap t m k = None}))"
| "kvAnswer ts t m _ r \<longleftrightarrow> r = RDone"

text \<open>The engine keeps a timestamp to its precision, rounding down.\<close>

definition roundsDown :: "(time \<Rightarrow> time) \<Rightarrow> bool" where
  "roundsDown ts \<longleftrightarrow> (\<forall>x y. ts x \<le> y \<longleftrightarrow> ts x \<le> ts y)"

definition micro :: "time \<Rightarrow> time" where
  "micro t = t div 1000 * 1000"

lemma roundsDown_micro: "roundsDown micro"
proof -
  have "a * 1000 \<le> y \<longleftrightarrow> a * 1000 \<le> y div 1000 * 1000" for a y :: int
  proof -
    have "y = y div 1000 * 1000 + y mod 1000" "0 \<le> y mod 1000" by simp_all
    moreover have "a \<le> y div 1000" if "a * 1000 \<le> y" using zdiv_mono1 [OF that, of 1000] by simp
    ultimately show ?thesis by (intro iffI) (simp, linarith)
  qed
  then show ?thesis unfolding roundsDown_def micro_def by blast
qed

text \<open>Rows whose stored expiry is one: \<open>Put\<close> writes NULL for the zero time.\<close>

definition stamped :: "(time \<Rightarrow> time) \<Rightarrow> kvrow \<Rightarrow> bool" where
  "stamped ts r \<longleftrightarrow> (case rexpiry r of None \<Rightarrow> True | Some x \<Rightarrow> x \<noteq> 0 \<and> ts x = x)"

definition tableOk :: "(time \<Rightarrow> time) \<Rightarrow> kvtable \<Rightarrow> bool" where
  "tableOk ts t \<longleftrightarrow> kvOk t \<and> (\<forall>r \<in> set t. stamped ts r)"

fun opOk :: "(time \<Rightarrow> time) \<Rightarrow> kvOp \<Rightarrow> bool" where
  "opOk ts (OpPut n k v x) \<longleftrightarrow> x = 0 \<or> ts x \<noteq> 0"
| "opOk ts _ \<longleftrightarrow> True"

lemma isExpired_iff:
  assumes "roundsDown ts" "stamped ts r"
  shows "isExpired ts t r \<longleftrightarrow> expired t (Expiry (entryOf r))"
proof (cases "rexpiry r")
  case (Some x)
  with assms have "x \<noteq> 0" "x \<le> t \<longleftrightarrow> x \<le> ts t" by (simp_all add: stamped_def roundsDown_def) metis
  with Some show ?thesis by (simp add: isExpired_def expired_def entryOf_def scanTime_def go_simps not_less)
qed (simp add: isExpired_def expired_def entryOf_def scanTime_def go_simps)

lemma liveRow_iff: "liveRow ts t r \<longleftrightarrow> \<not> isExpired ts t r"
  by (auto simp: liveRow_def isExpired_def split: option.split)

lemma expired_mono: "expired t e \<Longrightarrow> t \<le> u \<Longrightarrow> expired u e"
  by (auto simp: expired_def go_simps)

lemma tableOk_filter: "tableOk ts t \<Longrightarrow> tableOk ts (filter P t)"
  by (auto simp: tableOk_def kvOk_filter)

lemma roundsDown_idem: "roundsDown ts \<Longrightarrow> ts (ts x) = ts x"
  unfolding roundsDown_def by (meson dual_order.eq_iff)

lemma tableOk_put:
  "roundsDown ts \<Longrightarrow> tableOk ts t \<Longrightarrow> x = 0 \<or> ts x \<noteq> 0 \<Longrightarrow>
     tableOk ts (filter (\<lambda>r. rowKey r \<noteq> (n, k)) t @ [newRow ts u n k v x])"
  using kvOk_put [of t "newRow ts u n k v x"]
  by (auto simp: tableOk_def newRow_def rowKey_def stamped_def NullTime_def roundsDown_idem go_simps)

text \<open>Dropping expired rows changes nothing that can be read from then on.\<close>

lemma liveMap_sweep:
  assumes "roundsDown ts" "tableOk ts t" "u \<le> v"
  shows "liveMap v (kvAbs (filter (\<lambda>r. \<not> (isExpired ts u r \<and> Q r)) t)) = liveMap v (kvAbs t)"
proof
  fix k
  have ok: "kvOk t" using assms(2) by (simp add: tableOk_def)
  have ok': "kvOk (filter (\<lambda>r. \<not> (isExpired ts u r \<and> Q r)) t)" using ok by (rule kvOk_filter)
  show "liveMap v (kvAbs (filter (\<lambda>r. \<not> (isExpired ts u r \<and> Q r)) t)) k = liveMap v (kvAbs t) k"
  proof (cases "kvAbs t k")
    case None
    then have "kvAbs (filter (\<lambda>r. \<not> (isExpired ts u r \<and> Q r)) t) k = None"
    proof (rule contrapos_pp)
      assume "kvAbs (filter (\<lambda>r. \<not> (isExpired ts u r \<and> Q r)) t) k \<noteq> None"
      then show "kvAbs t k \<noteq> None" using kvAbs_Some [OF ok, of k] kvAbs_Some [OF ok', of k] by auto
    qed
    with None show ?thesis by (simp add: liveMap_def)
  next
    case (Some e)
    then obtain r where r: "r \<in> set t" "rowKey r = k" "e = entryOf r" using kvAbs_Some [OF ok] by blast
    show ?thesis
    proof (cases "isExpired ts u r \<and> Q r")
      case False
      with r have "kvAbs (filter (\<lambda>r. \<not> (isExpired ts u r \<and> Q r)) t) k = Some e"
        using kvAbs_Some [OF ok'] by auto
      with Some show ?thesis by (simp add: liveMap_def)
    next
      case True
      with r assms have "expired v (Expiry e)"
        using isExpired_iff [OF assms(1), of r u] expired_mono by (auto simp: tableOk_def)
      moreover have "kvAbs (filter (\<lambda>r. \<not> (isExpired ts u r \<and> Q r)) t) k = None"
      proof (rule ccontr)
        assume "kvAbs (filter (\<lambda>r. \<not> (isExpired ts u r \<and> Q r)) t) k \<noteq> None"
        then obtain r' where "r' \<in> set t" "rowKey r' = k" "\<not> (isExpired ts u r' \<and> Q r')"
          using kvAbs_Some [OF ok'] by auto
        with r True ok show False using keyed_unique [of rowKey t r r'] by (auto simp: kvOk_def)
      qed
      ultimately show ?thesis using Some by (simp add: liveMap_def)
    qed
  qed
qed

lemma liveMap_swept:
  assumes "roundsDown ts" "tableOk ts t"
  shows "liveMap u (kvAbs t) = kvAbs (filter (\<lambda>r. \<not> isExpired ts u r) t)"
proof -
  let ?t = "filter (\<lambda>r. \<not> isExpired ts u r) t"
  have ok: "kvOk ?t" using assms(2) by (simp add: tableOk_def kvOk_filter)
  have "liveMap u (kvAbs t) = liveMap u (kvAbs ?t)" using liveMap_sweep [OF assms, of u u "\<lambda>_. True"] by simp
  also have "\<dots> = kvAbs ?t"
  proof
    fix k
    show "liveMap u (kvAbs ?t) k = kvAbs ?t k"
    proof (cases "kvAbs ?t k")
      case (Some e)
      then obtain r where r: "r \<in> set t" "\<not> isExpired ts u r" "e = entryOf r" using kvAbs_Some [OF ok, of k] by auto
      then have "\<not> expired u (Expiry e)" using isExpired_iff [OF assms(1), of r u] assms(2) by (auto simp: tableOk_def)
      with Some show ?thesis by (simp add: liveMap_def)
    qed (simp add: liveMap_def)
  qed
  finally show ?thesis .
qed


section \<open>The methods meet it\<close>

text \<open>What a method may do to the table: nothing, or what it is for, up to expired rows.\<close>

definition meets :: "(time \<Rightarrow> time) \<Rightarrow> call \<Rightarrow> kvOp \<Rightarrow> kvtable \<Rightarrow> err + kvReply \<Rightarrow> kvtable \<Rightarrow> bool" where
  "meets ts c op t r t' \<longleftrightarrow> tableOk ts t'
     \<and> ((\<forall>v \<ge> now c. liveMap v (kvAbs t') = liveMap v (kvAbs t))
        \<or> (\<forall>v \<ge> now c. liveMap v (kvAbs t') = liveMap v (kvSpec ts (now c) op (kvAbs t))))
     \<and> (\<forall>x. r = Inr x \<longrightarrow>
          (\<forall>v \<ge> now c. liveMap v (kvAbs t') = liveMap v (kvSpec ts (now c) op (kvAbs t)))
          \<and> kvAnswer ts (now c) (kvAbs t) op x)"

lemma meets_same: "tableOk ts t \<Longrightarrow> meets ts c op t (Inl e) t"
  by (simp add: meets_def)

lemma meets_Inr:
  "tableOk ts t' \<Longrightarrow> (\<And>v. v \<ge> now c \<Longrightarrow> liveMap v (kvAbs t') = liveMap v (kvSpec ts (now c) op (kvAbs t)))
     \<Longrightarrow> kvAnswer ts (now c) (kvAbs t) op x \<Longrightarrow> meets ts c op t (Inr x) t'"
  by (simp add: meets_def)

lemma meets_Inl: "meets ts c op t (Inr x) t' \<Longrightarrow> meets ts c op t (Inl e) t'"
  by (auto simp: meets_def)

text \<open>From the callback to the method: \<open>Do\<close> may refuse, and may report an error of its own
  after the callback has done its work.\<close>

lemma meets_within:
  assumes w: "replied f (within u c m) s = (r, s')" and ok: "tableOk ts (committed (tablesOf s))"
    and m: "\<And>r0 d. m (tablesOf s) = (r0, d) \<Longrightarrow> idle_conn d \<and>
       meets ts c op (committed (tablesOf s)) (case r0 of Inl e \<Rightarrow> Inl e | Inr x \<Rightarrow> Inr (f x)) (committed d)"
    and i: "idle_conn (tablesOf s)"
  shows "idle_conn (tablesOf s') \<and> meets ts c op (committed (tablesOf s)) r (committed (tablesOf s'))"
proof -
  obtain r1 where r1: "within u c m s = (r1, s')" "r = (case r1 of Inl e \<Rightarrow> Inl e | Inr x \<Rightarrow> Inr (f x))"
    using w by (auto simp: replied_def andThen_def split: prod.splits sum.splits)
  from stored.run_cases [OF r1(1)] show ?thesis
  proof (elim disjE exE conjE)
    fix e assume "r1 = Inl e" "tablesOf s' = tablesOf s"
    with i ok r1 show ?thesis by (simp add: meets_same)
  next
    fix r0 assume r0: "m (tablesOf s) = (r0, tablesOf s')" "\<forall>x. r1 = Inr x \<longrightarrow> r0 = Inr x"
    note M = m [OF r0(1)]
    show ?thesis
    proof (cases r1)
      case (Inl e)
      with M r1 show ?thesis by (auto split: sum.splits dest: meets_Inl) (auto simp: meets_def)
    next
      case (Inr x)
      with M r0 r1 show ?thesis by auto
    qed
  qed
qed

lemma meets_atomic:
  assumes "atomically F m f" "idle_conn c0" "m c0 = (r0, d)" "tableOk ts (committed c0)"
    and "\<And>t' x. f (committed c0) = Inr (t', x) \<Longrightarrow> meets ts c op (committed c0) (Inr (g x)) t'"
  shows "idle_conn d \<and> meets ts c op (committed c0) (case r0 of Inl e \<Rightarrow> Inl e | Inr x \<Rightarrow> Inr (g x)) (committed d)"
proof (cases r0)
  case (Inl e)
  with atomically_Inl [OF assms(1,2)] assms(3,4) show ?thesis by (simp add: meets_same)
next
  case (Inr x)
  with atomically_Inr [OF assms(1,2)] assms(3) have "idle_conn d" "f (committed c0) = Inr (committed d, x)" by simp_all
  with assms(5) [OF this(2)] Inr show ?thesis by simp
qed

lemma put_meets:
  assumes "roundsDown ts" "idle_conn (tablesOf s)" "tableOk ts (committed (tablesOf s))" "x = 0 \<or> ts x \<noteq> 0"
    "kv_call ts c (OpPut n k v x) s = (r, s')"
  shows "idle_conn (tablesOf s') \<and> meets ts c (OpPut n k v x) (committed (tablesOf s)) r (committed (tablesOf s'))"
  using assms(5) unfolding kv_call.simps kv_Put_def
proof (rule meets_within [OF _ assms(3)])
  fix r0 d
  let ?c = "tablesOf s" and ?row = "newRow ts (now c) n k v x"
  assume m: "inTx (engine c) (andThen (exec (engine c) (deleteWhere (\<lambda>r. rowKey r = (n, k))))
      (\<lambda>_. exec (engine c) (insertKeyed rowKey ?row))) ?c = (r0, d)"
  have e: "entryOf ?row = \<lparr>Value = v, Expiry = (if x = 0 then 0 else ts x), Updated = ts (now c)\<rparr>" "rowKey ?row = (n, k)"
    by (simp_all add: entryOf_def newRow_def rowKey_def NullTime_def scanTime_def go_simps)
  show "idle_conn d \<and> meets ts c (OpPut n k v x) (committed ?c) (case r0 of Inl e \<Rightarrow> Inl e | Inr _ \<Rightarrow> Inr RDone) (committed d)"
    using kv_Put_atomic assms(2) m assms(3)
  proof (rule meets_atomic)
    fix t' y assume "putF ?row (committed ?c) = Inr (t', y)"
    then have "t' = filter (\<lambda>r. rowKey r \<noteq> (n, k)) (committed ?c) @ [?row]" using e by (simp add: putF_Inr)
    with tableOk_put [OF assms(1,3,4), of n k "now c" v] kvAbs_put [of ?row "committed ?c"] e
    show "meets ts c (OpPut n k v x) (committed ?c) (Inr RDone) t'" by (intro meets_Inr) simp_all
  qed
qed (rule assms(2))

lemma implements_unit: "atomically F m f \<Longrightarrow> atomically F (andThen m (\<lambda>_. ok ())) (\<lambda>t. case f t of Inl e \<Rightarrow> Inl e | Inr (t', _) \<Rightarrow> Inr (t', ()))"
  unfolding atomically_def
proof (intro allI impI)
  fix c res c'
  assume a: "\<forall>c res c'. idle_conn c \<longrightarrow> m c = (res, c') \<longrightarrow> idle_conn c' \<and>
    (case res of Inl e \<Rightarrow> committed c' = committed c \<and> ((\<exists>n. F n = Some e) \<or> f (committed c) = Inl e)
     | Inr r \<Rightarrow> f (committed c) = Inr (committed c', r))" and i: "idle_conn c"
    and r: "andThen m (\<lambda>_. ok ()) c = (res, c')"
  obtain r0 where r0: "m c = (r0, c')" "res = (case r0 of Inl e \<Rightarrow> Inl e | Inr _ \<Rightarrow> Inr ())"
    using r by (auto simp: andThen_def split: prod.splits sum.splits)
  from a [rule_format, OF i r0(1)] r0(2)
  show "idle_conn c' \<and> (case res of
        Inl e \<Rightarrow> committed c' = committed c \<and> ((\<exists>n. F n = Some e) \<or>
          (case f (committed c) of Inl e \<Rightarrow> Inl e | Inr (t', _) \<Rightarrow> Inr (t', ())) = Inl e)
      | Inr r \<Rightarrow> (case f (committed c) of Inl e \<Rightarrow> Inl e | Inr (t', _) \<Rightarrow> Inr (t', ())) = Inr (committed c', r))"
    by (cases r0) auto
qed

lemma delete_meets:
  assumes "idle_conn (tablesOf s)" "tableOk ts (committed (tablesOf s))"
    "kv_call ts c (OpDelete n k) s = (r, s')"
  shows "idle_conn (tablesOf s') \<and> meets ts c (OpDelete n k) (committed (tablesOf s)) r (committed (tablesOf s'))"
  using assms(3) unfolding kv_call.simps kv_Delete_def
proof (rule meets_within [OF _ assms(2)])
  fix r0 d
  assume m: "andThen (exec (engine c) (deleteWhere (\<lambda>r. rowKey r = (n, k)))) (\<lambda>_. ok ()) (tablesOf s) = (r0, d)"
  show "idle_conn d \<and> meets ts c (OpDelete n k) (committed (tablesOf s)) (case r0 of Inl e \<Rightarrow> Inl e | Inr _ \<Rightarrow> Inr RDone) (committed d)"
    using implements_unit [OF atomically_exec] assms(1) m assms(2)
    by (rule meets_atomic) (auto simp: deleteWhere_def intro!: meets_Inr tableOk_filter assms(2) simp: kvAbs_delete1)
qed (rule assms(1))

lemma card_keys:
  assumes "kvOk t"
  shows "length (filter P t) = card (rowKey ` {r \<in> set t. P r})"
proof -
  have "distinct (map rowKey (filter P t))" using kvOk_filter [OF assms, of P] by (simp add: kvOk_def keyed_def)
  from distinct_card [OF this] show ?thesis by (simp add: image_image)
qed

lemma dom_kvAbs: "dom (kvAbs t) = rowKey ` set t"
  by (simp add: kvAbs_def dom_map_of_conv_image_fst image_image)

lemma kvAbs_None: "kvAbs t k = None \<longleftrightarrow> k \<notin> rowKey ` set t"
  using dom_kvAbs [of t] by (metis domIff)

lemma clear_meets:
  assumes "idle_conn (tablesOf s)" "tableOk ts (committed (tablesOf s))"
    "kv_call ts c (OpClear n) s = (r, s')"
  shows "idle_conn (tablesOf s') \<and> meets ts c (OpClear n) (committed (tablesOf s)) r (committed (tablesOf s'))"
  using assms(3) unfolding kv_call.simps kv_Clear_def
proof (rule meets_within [OF _ assms(2)])
  fix r0 d
  let ?t = "committed (tablesOf s)" and ?P = "\<lambda>r. n = [] \<or> rns r = n"
  assume "(if n = [] then exec (engine c) (deleteWhere (\<lambda>_. True)) else exec (engine c) (deleteWhere (\<lambda>r. rns r = n))) (tablesOf s) = (r0, d)"
  then have m: "exec (engine c) (deleteWhere ?P) (tablesOf s) = (r0, d)" by (simp split: if_splits)
  show "idle_conn d \<and> meets ts c (OpClear n) ?t (case r0 of Inl e \<Rightarrow> Inl e | Inr x \<Rightarrow> Inr (RCount x)) (committed d)"
    using atomically_exec assms(1) m assms(2)
  proof (rule meets_atomic)
    fix t' x assume "deleteWhere ?P ?t = Inr (t', x)"
    then have t': "t' = filter (\<lambda>r. \<not> ?P r) ?t" "x = int (length (filter ?P ?t))" by (auto simp: deleteWhere_def)
    have "kvAbs t' = (\<lambda>(n', k). if n = [] \<or> n' = n then None else kvAbs ?t (n', k))"
      using kvAbs_delete [of "{(n', k). n = [] \<or> n' = n}" ?t]
      by (simp add: t' rowKey_def fun_eq_iff cong: if_cong)
    moreover have "length (filter ?P ?t) = card {k \<in> dom (kvAbs ?t). n = [] \<or> fst k = n}"
      using assms(2) by (auto simp: card_keys tableOk_def dom_kvAbs rowKey_def intro!: arg_cong [where f = card])
    ultimately show "meets ts c (OpClear n) ?t (Inr (RCount x)) t'"
      using assms(2) by (intro meets_Inr) (simp_all add: t' tableOk_filter)
  qed
qed (rule assms(1))


lemma exec_delete:
  assumes "idle_conn c0" "exec F (deleteWhere P) c0 = (r, d)"
  shows "idle_conn d \<and> (committed d = committed c0 \<or> committed d = filter (\<lambda>r. \<not> P r) (committed c0))
    \<and> (\<forall>n. r = Inr n \<longrightarrow> committed d = filter (\<lambda>r. \<not> P r) (committed c0) \<and> n = int (length (filter P (committed c0))))"
proof (cases r)
  case (Inl e)
  with atomically_Inl [OF atomically_exec assms(1)] assms(2) show ?thesis by blast
next
  case (Inr x)
  with assms(2) have "exec F (deleteWhere P) c0 = (Inr x, d)" by simp
  from atomically_Inr [OF atomically_exec assms(1) this] Inr show ?thesis by (auto simp: deleteWhere_def)
qed

lemma query_res:
  assumes "idle_conn c0" "query F q c0 = (r, d)"
  shows "idle_conn d \<and> committed d = committed c0 \<and> (\<forall>x. r = Inr x \<longrightarrow> x = q (committed c0))"
proof (cases r)
  case (Inl e)
  with atomically_Inl [OF atomically_query assms(1)] assms(2) show ?thesis by blast
next
  case (Inr x)
  with assms(2) have "query F q c0 = (Inr x, d)" by simp
  from atomically_Inr [OF atomically_query assms(1) this] Inr show ?thesis by auto
qed

text \<open>Readers may drop expired rows on the way: nothing that can be read changes.\<close>

lemma meets_reader:
  assumes "roundsDown ts" "tableOk ts t" "t' = t \<or> t' = filter (\<lambda>r. \<not> (isExpired ts (now c) r \<and> Q r)) t"
    and "\<And>v. liveMap v (kvSpec ts (now c) op (kvAbs t)) = liveMap v (kvAbs t)"
    and "\<And>x. r = Inr x \<Longrightarrow> kvAnswer ts (now c) (kvAbs t) op x"
  shows "meets ts c op t r t'"
  using assms(3)
proof
  assume "t' = t"
  with assms show ?thesis by (simp add: meets_def)
next
  assume t': "t' = filter (\<lambda>r. \<not> (isExpired ts (now c) r \<and> Q r)) t"
  with assms(2,4,5) liveMap_sweep [OF assms(1,2)] show ?thesis
    by (auto simp: meets_def tableOk_filter)
qed

lemma sweep_meets:
  assumes "roundsDown ts" "idle_conn (tablesOf s)" "tableOk ts (committed (tablesOf s))"
    "kv_call ts c OpSweep s = (r, s')"
  shows "idle_conn (tablesOf s') \<and> meets ts c OpSweep (committed (tablesOf s)) r (committed (tablesOf s'))"
  using assms(4) unfolding kv_call.simps kv_Sweep_def sweepOn_def
proof (rule meets_within [OF _ assms(3)])
  fix r0 d
  let ?t = "committed (tablesOf s)"
  assume m: "exec (engine c) (deleteWhere (isExpired ts (now c))) (tablesOf s) = (r0, d)"
  note D = exec_delete [OF assms(2) m]
  have "length (filter (isExpired ts (now c)) ?t) = card {k \<in> dom (kvAbs ?t). liveMap (now c) (kvAbs ?t) k = None}"
  proof -
    have "liveMap (now c) (kvAbs ?t) = kvAbs (filter (\<lambda>r. \<not> isExpired ts (now c) r) ?t)"
      by (rule liveMap_swept [OF assms(1,3)])
    moreover have "kvAbs (filter (\<lambda>r. \<not> isExpired ts (now c) r) ?t) k = None
        \<longleftrightarrow> k \<notin> rowKey ` {r \<in> set ?t. \<not> isExpired ts (now c) r}" for k
      by (simp add: kvAbs_None)
    moreover have "kvOk ?t" using assms(3) by (simp add: tableOk_def)
    moreover from this have "rowKey ` {r \<in> set ?t. isExpired ts (now c) r}
        = {k \<in> rowKey ` set ?t. k \<notin> rowKey ` {r \<in> set ?t. \<not> isExpired ts (now c) r}}"
      using keyed_unique [of rowKey ?t] by (auto simp: kvOk_def; metis)
    ultimately show ?thesis by (simp add: card_keys dom_kvAbs)
  qed
  with D show "idle_conn d \<and> meets ts c OpSweep ?t (case r0 of Inl e \<Rightarrow> Inl e | Inr x \<Rightarrow> Inr (RCount x)) (committed d)"
    by (intro conjI meets_reader [OF assms(1,3), where Q = "\<lambda>_. True"]) (auto split: sum.splits)
qed (rule assms(2))

lemma get_meets:
  assumes "roundsDown ts" "idle_conn (tablesOf s)" "tableOk ts (committed (tablesOf s))"
    "kv_call ts c (OpGet n k) s = (r, s')"
  shows "idle_conn (tablesOf s') \<and> meets ts c (OpGet n k) (committed (tablesOf s)) r (committed (tablesOf s'))"
  using assms(4) unfolding kv_call.simps kv_Get_def
proof (rule meets_within [OF _ assms(3)])
  fix r0 d
  let ?t = "committed (tablesOf s)"
  let ?del = "exec (engine c) (deleteWhere (\<lambda>r. rowKey r = (n, k)))"
  let ?f = "\<lambda>row. case row of None \<Rightarrow> ok None | Some r \<Rightarrow>
     if expired (now c) (Expiry (entryOf r)) then andThen (attempt ?del) (\<lambda>_. ok None) else ok (Some (entryOf r))"
  assume m: "andThen (query (engine c) (find (\<lambda>r. rowKey r = (n, k)))) ?f (tablesOf s) = (r0, d)"
  obtain q d1 where q: "query (engine c) (find (\<lambda>r. rowKey r = (n, k))) (tablesOf s) = (q, d1)" by fastforce
  note Q = query_res [OF assms(2) q]
  show "idle_conn d \<and> meets ts c (OpGet n k) ?t (case r0 of Inl e \<Rightarrow> Inl e | Inr x \<Rightarrow> Inr (REntry x)) (committed d)"
  proof (cases q)
    case (Inl e)
    with m q Q assms(3) show ?thesis by (auto simp: andThen_def meets_same)
  next
    case (Inr row)
    with Q have row: "row = find (\<lambda>r. rowKey r = (n, k)) ?t" by simp
    from m q Inr have f: "?f row d1 = (r0, d)" by (simp add: andThen_def)
    show ?thesis
    proof (cases row)
      case None
      with row have "kvAbs ?t (n, k) = None" by (simp add: kvAbs_find)
      with f None Q assms(3) show ?thesis
        by (auto simp: liveMap_def intro!: meets_Inr)
    next
      case (Some rw)
      with row have "find (\<lambda>r. rowKey r = (n, k)) ?t = Some rw" by simp
      then have a: "kvAbs ?t (n, k) = Some (entryOf rw)" by (simp add: kvAbs_find)
      have rw: "rw \<in> set ?t" "rowKey rw = (n, k)"
        using row Some assms(3) by (auto simp: tableOk_def kvOk_def find_keyed dest!: sym [of "Some rw"])
      show ?thesis
      proof (cases "expired (now c) (Expiry (entryOf rw))")
        case False
        with f Some Q a assms(3) show ?thesis by (auto simp: liveMap_def intro!: meets_Inr)
      next
        case True
        obtain x d2 where x: "?del d1 = (x, d2)" by fastforce
        with f Some True have r0: "r0 = Inr None" "d = d2" by (auto simp: andThen_def attempt_def)
        have D: "idle_conn d" "committed d = ?t \<or> committed d = filter (\<lambda>r. rowKey r \<noteq> (n, k)) ?t"
          using exec_delete [OF _ x] Q r0 by auto
        have "filter (\<lambda>r. rowKey r \<noteq> (n, k)) ?t = filter (\<lambda>r. \<not> (isExpired ts (now c) r \<and> rowKey r = (n, k))) ?t"
        proof (rule filter_cong [OF refl])
          fix r assume "r \<in> set ?t"
          moreover have "rowKey r = (n, k) \<Longrightarrow> r = rw"
            using keyed_unique [of rowKey ?t r rw] rw assms(3) \<open>r \<in> set ?t\<close> by (simp add: tableOk_def kvOk_def)
          moreover have "isExpired ts (now c) rw"
            using isExpired_iff [OF assms(1)] True rw assms(3) by (auto simp: tableOk_def)
          ultimately show "(rowKey r \<noteq> (n, k)) = (\<not> (isExpired ts (now c) r \<and> rowKey r = (n, k)))" by auto
        qed
        with D have "committed d = ?t \<or> committed d = filter (\<lambda>r. \<not> (isExpired ts (now c) r \<and> rowKey r = (n, k))) ?t"
          by simp
        then have "meets ts c (OpGet n k) ?t (Inr (REntry None)) (committed d)"
          by (rule meets_reader [OF assms(1,3)]) (simp_all add: liveMap_def a True)
        with D r0 show ?thesis by simp
      qed
    qed
  qed
qed (rule assms(2))

text \<open>\<open>List\<close> and \<open>Namespaces\<close>: a sweep, then a query on what is left.\<close>

lemma swept_meets:
  assumes "roundsDown ts" "idle_conn c0" "tableOk ts (committed c0)"
    and m: "andThen (sweepOn ts c) (\<lambda>_. andThen (query (engine c) q) (\<lambda>x. ok (g x))) c0 = (r0, d)"
    and op: "\<And>v. liveMap v (kvSpec ts (now c) op (kvAbs (committed c0))) = liveMap v (kvAbs (committed c0))"
    and ans: "kvAnswer ts (now c) (kvAbs (committed c0)) op (f (g (q (filter (\<lambda>r. \<not> isExpired ts (now c) r) (committed c0)))))"
  shows "idle_conn d \<and> meets ts c op (committed c0) (case r0 of Inl e \<Rightarrow> Inl e | Inr x \<Rightarrow> Inr (f x)) (committed d)"
proof -
  obtain x1 d1 where x1: "sweepOn ts c c0 = (x1, d1)" by fastforce
  note D = exec_delete [OF assms(2) x1 [unfolded sweepOn_def]]
  have reader: "t' = committed c0 \<or> t' = filter (\<lambda>r. \<not> isExpired ts (now c) r) (committed c0) \<Longrightarrow>
     (\<And>x. r = Inr x \<Longrightarrow> kvAnswer ts (now c) (kvAbs (committed c0)) op x) \<Longrightarrow> meets ts c op (committed c0) r t'" for r t'
    by (rule meets_reader [OF assms(1,3), where Q = "\<lambda>_. True"]) (simp_all add: op)
  show ?thesis
  proof (cases x1)
    case (Inl e)
    with m x1 have "r0 = Inl e" "d = d1" by (auto simp: andThen_def)
    with D show ?thesis by (auto intro: reader)
  next
    case (Inr n)
    obtain x2 d2 where x2: "query (engine c) q d1 = (x2, d2)" by fastforce
    have Q: "idle_conn d2" "committed d2 = filter (\<lambda>r. \<not> isExpired ts (now c) r) (committed c0)"
        "\<And>x. x2 = Inr x \<Longrightarrow> x = q (filter (\<lambda>r. \<not> isExpired ts (now c) r) (committed c0))"
      using query_res [OF _ x2] D Inr by auto
    have "d = d2" "r0 = (case x2 of Inl e \<Rightarrow> Inl e | Inr x \<Rightarrow> Inr (g x))"
      using m x1 x2 Inr by (auto simp: andThen_def split: sum.splits)
    with Q ans show ?thesis by (cases x2) (auto intro!: reader)
  qed
qed

lemma list_meets:
  assumes "roundsDown ts" "idle_conn (tablesOf s)" "tableOk ts (committed (tablesOf s))"
    "kv_call ts c (OpList n) s = (r, s')"
  shows "idle_conn (tablesOf s') \<and> meets ts c (OpList n) (committed (tablesOf s)) r (committed (tablesOf s'))"
  using assms(4) unfolding kv_call.simps kv_List_def
proof (rule meets_within [OF _ assms(3)])
  fix r0 d
  let ?t = "committed (tablesOf s)"
  have ok: "kvOk (filter (\<lambda>r. \<not> isExpired ts (now c) r) ?t)" using assms(3) by (simp add: tableOk_def kvOk_filter)
  assume "andThen (sweepOn ts c) (\<lambda>_. andThen (query (engine c) (filter (\<lambda>r. rns r = n))) (\<lambda>rows. ok (collect rows Map.empty)))
    (tablesOf s) = (r0, d)"
  then show "idle_conn d \<and> meets ts c (OpList n) ?t (case r0 of Inl e \<Rightarrow> Inl e | Inr x \<Rightarrow> Inr (RMap x)) (committed d)"
    by (rule swept_meets [OF assms(1-3)])
      (simp_all only: kvSpec.simps kvAnswer.simps collect_ns [OF ok] liveMap_swept [OF assms(1,3)])
qed (rule assms(2))

lemma andThen_ok_right: "andThen m (\<lambda>x. ok x) = m"
  by (rule ext) (auto simp: andThen_def split: prod.split sum.split)

lemma namespaces_of: "{n. \<exists>k. kvAbs t (n, k) \<noteq> None} = rns ` set t"
proof -
  have "kvAbs t (n, k) \<noteq> None \<longleftrightarrow> (n, k) \<in> rowKey ` set t" for n k by (simp add: kvAbs_None)
  then show ?thesis by (auto simp: rowKey_def image_iff)
qed

lemma namespaces_meets:
  assumes "roundsDown ts" "idle_conn (tablesOf s)" "tableOk ts (committed (tablesOf s))"
    "kv_call ts c OpNamespaces s = (r, s')"
  shows "idle_conn (tablesOf s') \<and> meets ts c OpNamespaces (committed (tablesOf s)) r (committed (tablesOf s'))"
  using assms(4) unfolding kv_call.simps kv_Namespaces_def
proof (rule meets_within [OF _ assms(3)])
  fix r0 d
  let ?t = "committed (tablesOf s)"
  assume "andThen (sweepOn ts c) (\<lambda>_. query (engine c) (\<lambda>t. sort (remdups (map rns t)))) (tablesOf s) = (r0, d)"
  then have "andThen (sweepOn ts c) (\<lambda>_. andThen (query (engine c) (\<lambda>t. sort (remdups (map rns t)))) (\<lambda>x. ok x)) (tablesOf s) = (r0, d)"
    by (simp only: andThen_ok_right)
  then show "idle_conn d \<and> meets ts c OpNamespaces ?t (case r0 of Inl e \<Rightarrow> Inl e | Inr x \<Rightarrow> Inr (RNames x)) (committed d)"
    by (rule swept_meets [OF assms(1-3)])
      (use namespaces_of [of "filter (\<lambda>r. \<not> isExpired ts (now c) r) ?t"] in
        \<open>simp_all add: liveMap_swept [OF assms(1,3)]\<close>)
qed (rule assms(2))

text \<open>Counting the keys of a namespace by their entries is counting its rows.\<close>

lemma count_rows:
  assumes "kvOk t"
  shows "card {k. \<exists>e. kvAbs t (n, k) = Some e \<and> Q e} = length (filter (\<lambda>r. rns r = n \<and> Q (entryOf r)) t)"
proof -
  let ?K = "{k. \<exists>e. kvAbs t (n, k) = Some e \<and> Q e}"
  have "Pair n ` ?K = rowKey ` {r \<in> set t. rns r = n \<and> Q (entryOf r)}"
    using assms by (auto simp: kvAbs_Some rowKey_def image_iff)
  moreover have "card (Pair n ` ?K) = card ?K" by (simp add: card_image inj_on_def)
  ultimately show ?thesis using card_keys [OF assms, of "\<lambda>r. rns r = n \<and> Q (entryOf r)"] by simp
qed

lemma liveMap_Some: "liveMap t m k = Some e \<longleftrightarrow> m k = Some e \<and> \<not> expired t (Expiry e)"
  by (auto simp: liveMap_def split: option.splits)

lemma liveMap_gone: "m k \<noteq> None \<and> liveMap t m k = None \<longleftrightarrow> (\<exists>e. m k = Some e \<and> expired t (Expiry e))"
  by (auto simp: liveMap_def split: option.splits)

lemma minTime_Min: "scanTime (minTime xs) = (if xs = [] then zero_time else Min (set xs))"
  by (cases xs) (simp_all add: minTime_def scanTime_def Min.set_eq_fold del: set_simps)

lemma maxTime_Max: "scanTime (maxTime xs) = (if xs = [] then zero_time else Max (set xs))"
  by (cases xs) (simp_all add: maxTime_def scanTime_def Max.set_eq_fold del: set_simps)

lemma statOf_answer:
  assumes "roundsDown ts" "tableOk ts t"
  shows "statAnswer ts u d (kvAbs t)
    (let st = statOf ts (u + wrap64 (- d)) u t n in if d \<le> 0 then st\<lparr>Fresh := 0\<rparr> else st)"
proof -
  let ?g = "filter (\<lambda>r. rns r = n) t"
  let ?live = "filter (liveRow ts u) ?g"
  have ok: "kvOk t" using assms(2) by (simp add: tableOk_def)
  have live: "liveRow ts u r \<longleftrightarrow> \<not> expired u (Expiry (entryOf r))" if "r \<in> set t" for r
    using isExpired_iff [OF assms(1), of r u] assms(2) that by (simp add: liveRow_iff tableOk_def)
  have updated: "Updated (entryOf r) = rupdated r" for r by (simp add: entryOf_def)
  have a: "{k. liveMap u (kvAbs t) (n, k) \<noteq> None} = {k. \<exists>e. kvAbs t (n, k) = Some e \<and> \<not> expired u (Expiry e)}"
    using liveMap_Some [of u "kvAbs t"] by auto
  have entries: "card {k. liveMap u (kvAbs t) (n, k) \<noteq> None} = length ?live"
    unfolding a count_rows [OF ok] by (simp add: live cong: filter_cong conj_cong)
  have expired: "card {k. kvAbs t (n, k) \<noteq> None \<and> liveMap u (kvAbs t) (n, k) = None}
      = length (filter (\<lambda>r. \<not> liveRow ts u r) ?g)"
    unfolding liveMap_gone count_rows [OF ok] by (simp, metis (no_types, lifting) filter_cong live)
  have fresh: "card {k. \<exists>e. liveMap u (kvAbs t) (n, k) = Some e \<and> x \<le> Updated e}
      = length (filter (\<lambda>r. rupdated r \<ge> x) ?live)" for x
    unfolding liveMap_Some conj_assoc count_rows [OF ok] by (simp add: updated, metis (no_types, lifting) filter_cong live)
  have "x \<in> liveUpdates u (kvAbs t) n \<longleftrightarrow>
      (\<exists>r \<in> set t. rns r = n \<and> \<not> expired u (Expiry (entryOf r)) \<and> x = Updated (entryOf r))" for x
    unfolding liveUpdates_def liveMap_Some kvAbs_Some [OF ok] mem_Collect_eq rowKey_def prod.inject by blast
  then have upd: "liveUpdates u (kvAbs t) n = set (map rupdated ?live)"
    by (auto simp: updated live)
  show ?thesis
    unfolding upd statAnswer_def statOf_def Let_def
    by (auto simp: entries expired fresh upd minTime_Min maxTime_Max filter_empty_conv simp del: not_None_eq)
qed

lemma stats_meets:
  assumes "roundsDown ts" "idle_conn (tablesOf s)" "tableOk ts (committed (tablesOf s))"
    "kv_call ts c (OpStats dur) s = (r, s')"
  shows "idle_conn (tablesOf s') \<and> meets ts c (OpStats dur) (committed (tablesOf s)) r (committed (tablesOf s'))"
  using assms(4) unfolding kv_call.simps kv_Stats_def Let_def
proof (rule meets_within [OF _ assms(3)])
  fix r0 d
  let ?t = "committed (tablesOf s)" and ?u = "now c"
  let ?q = "\<lambda>t. map (statOf ts (?u + wrap64 (- dur)) ?u t) (sort (remdups (map rns t)))"
  let ?g = "\<lambda>found. map (\<lambda>st. if dur \<le> 0 then st\<lparr>Fresh := 0\<rparr> else st) found"
  assume m: "andThen (query (engine c) ?q) (\<lambda>found. ok (?g found)) (tablesOf s) = (r0, d)"
  obtain x1 d1 where x1: "query (engine c) ?q (tablesOf s) = (x1, d1)" by fastforce
  note Q = query_res [OF assms(2) x1]
  have f: "Namespace (if dur \<le> 0 then st\<lparr>Fresh := 0\<rparr> else st) = Namespace st" for st by simp
  have ns: "map Namespace (?g (?q ?t)) = sort (remdups (map rns ?t))"
    by (simp add: o_def f statOf_def Let_def cong: map_cong)
  have "set (map Namespace (?g (?q ?t))) = fst ` dom (kvAbs ?t)"
    unfolding ns by (simp add: dom_kvAbs image_image rowKey_def)
  then have "Namespace ` set (?g (?q ?t)) = fst ` dom (kvAbs ?t)" by (simp only: set_map)
  moreover have "\<forall>st \<in> set (?g (?q ?t)). statAnswer ts ?u dur (kvAbs ?t) st"
    using statOf_answer [OF assms(1,3), of ?u dur] by (auto simp: Let_def)
  moreover have "sorted (map Namespace (?g (?q ?t)))" "distinct (map Namespace (?g (?q ?t)))" unfolding ns by simp_all
  ultimately have "kvAnswer ts ?u (kvAbs ?t) (OpStats dur) (RStats (?g (?q ?t)))"
    unfolding kvAnswer.simps by blast
  with m x1 Q assms(3) show "idle_conn d \<and> meets ts c (OpStats dur) ?t (case r0 of Inl e \<Rightarrow> Inl e | Inr x \<Rightarrow> Inr (RStats x)) (committed d)"
    by (cases x1) (auto simp: andThen_def meets_same simp del: kvAnswer.simps intro!: meets_Inr)
qed (rule assms(2))


lemma kv_call_meets:
  assumes "roundsDown ts" "idle_conn (tablesOf s)" "tableOk ts (committed (tablesOf s))" "opOk ts op"
    "kv_call ts c op s = (r, s')"
  shows "idle_conn (tablesOf s') \<and> meets ts c op (committed (tablesOf s)) r (committed (tablesOf s'))"
proof (cases op)
  case (OpPut n k v x)
  from assms(4,5) show ?thesis unfolding OpPut by (intro put_meets [OF assms(1-3)]) simp_all
next
  case (OpGet n k)
  from assms(5) show ?thesis unfolding OpGet by (rule get_meets [OF assms(1-3)])
next
  case (OpDelete n k)
  from assms(5) show ?thesis unfolding OpDelete by (rule delete_meets [OF assms(2,3)])
next
  case (OpList n)
  from assms(5) show ?thesis unfolding OpList by (rule list_meets [OF assms(1-3)])
next
  case OpNamespaces
  from assms(5) show ?thesis unfolding OpNamespaces by (rule namespaces_meets [OF assms(1-3)])
next
  case (OpStats d)
  from assms(5) show ?thesis unfolding OpStats by (rule stats_meets [OF assms(1-3)])
next
  case (OpClear n)
  from assms(5) show ?thesis unfolding OpClear by (rule clear_meets [OF assms(2,3)])
next
  case OpSweep
  from assms(5) show ?thesis unfolding OpSweep by (rule sweep_meets [OF assms(1-3)])
qed

text \<open>What a successful \<open>Put\<close> leaves, and what a later \<open>Get\<close> then answers.\<close>

lemma kv_put_get_res:
  assumes "roundsDown ts" "idle_conn (tablesOf s)" "tableOk ts (committed (tablesOf s))" "x = 0 \<or> ts x \<noteq> 0"
    and "kv_Put ts c1 n k v x s = (Inr (), s1)" "kv_Get c2 n k s1 = (Inr e, s2)" "now c1 \<le> now c2"
  shows "e = (if x \<noteq> 0 \<and> ts x \<le> now c2 then None
              else Some \<lparr>Value = v, Expiry = (if x = 0 then 0 else ts x), Updated = ts (now c1)\<rparr>)"
proof -
  have p: "kv_call ts c1 (OpPut n k v x) s = (Inr RDone, s1)" and g: "kv_call ts c2 (OpGet n k) s1 = (Inr (REntry e), s2)"
    using assms(5,6) by (simp_all add: replied_def andThen_def)
  have P: "idle_conn (tablesOf s1)" "tableOk ts (committed (tablesOf s1))"
    "liveMap (now c2) (kvAbs (committed (tablesOf s1)))
      = liveMap (now c2) (kvSpec ts (now c1) (OpPut n k v x) (kvAbs (committed (tablesOf s))))"
    using kv_call_meets [OF assms(1-3) _ p] assms(4,7) by (simp_all add: meets_def)
  have "e = liveMap (now c2) (kvAbs (committed (tablesOf s1))) (n, k)"
    using kv_call_meets [OF assms(1) P(1,2) _ g] by (simp add: meets_def)
  with P(3) assms(4) show ?thesis by (auto simp: liveMap_def expired_def go_simps)
qed

section \<open>Properties\<close>

text \<open>Claim C10: the store refines the abstract map.  Whatever a call of any method meets (nil or
  closed store, lock, engine faults at any statement), afterwards the table still has its
  primary key and well-formed expiries, and what can be read from then on is what could be read
  before or that with the whole of the method's change made, never a part of it; when the
  method reports success, the change is made and the reply is the one the live entries
  determine: an expired entry is a miss for \<open>Get\<close>, absent from \<open>List\<close> and \<open>Namespaces\<close>, and what
  \<open>Sweep\<close> counts; \<open>Stats\<close> gives every namespace once, in order, with the exact counts of live, expired and
  fresh entries and the first and last time a live one was written.\<close>

theorem kv_refines_map:
  assumes "roundsDown ts" "idle_conn (tablesOf s)" "tableOk ts (committed (tablesOf s))" "opOk ts op"
    and "kv_call ts c op s = (r, s')"
  shows "idle_conn (tablesOf s') \<and> tableOk ts (committed (tablesOf s'))
    \<and> ((\<forall>v \<ge> now c. liveMap v (kvAbs (committed (tablesOf s'))) = liveMap v (kvAbs (committed (tablesOf s))))
       \<or> (\<forall>v \<ge> now c. liveMap v (kvAbs (committed (tablesOf s')))
            = liveMap v (kvSpec ts (now c) op (kvAbs (committed (tablesOf s))))))
    \<and> (\<forall>x. r = Inr x \<longrightarrow>
         (\<forall>v \<ge> now c. liveMap v (kvAbs (committed (tablesOf s')))
            = liveMap v (kvSpec ts (now c) op (kvAbs (committed (tablesOf s)))))
         \<and> kvAnswer ts (now c) (kvAbs (committed (tablesOf s))) op x)"
  using kv_call_meets [OF assms] by (simp add: meets_def)

definition sampleTable :: kvtable where
  "sampleTable = [newRow micro 1000000 ''a'' ''x'' ''1'' 0, newRow micro 1000000 ''a'' ''y'' ''2'' 5000000]"

lemma tableOk_sample: "tableOk micro sampleTable"
  by code_simp

theorem kv_refines_map_witness:
  "\<exists>r s'. kv_call micro (calmAt 6000000) (OpGet ''a'' ''y'') (freshStore sampleTable) = (r, s')
     \<and> tableOk micro (committed (tablesOf s'))"
proof -
  obtain r s' where run: "kv_call micro (calmAt 6000000) (OpGet ''a'' ''y'') (freshStore sampleTable) = (r, s')"
    by fastforce
  have "tableOk micro (committed (tablesOf (freshStore sampleTable)))" by (simp add: tableOk_sample)
  from kv_refines_map [OF roundsDown_micro _ this _ run] run show ?thesis by simp
qed

text \<open>Claim C11: what \<open>Put\<close> has stored is what \<open>Get\<close> returns, with the expiry as the engine keeps
  it, until that expiry has passed; from then on it is a miss.\<close>

theorem kv_put_get:
  assumes "roundsDown ts" "idle_conn (tablesOf s)" "tableOk ts (committed (tablesOf s))" "x = 0 \<or> ts x \<noteq> 0"
    and "kv_Put ts c1 n k v x s = (Inr (), s1)" "kv_Get c2 n k s1 = (Inr e, s2)" "now c1 \<le> now c2"
  shows "e = (if x \<noteq> 0 \<and> ts x \<le> now c2 then None
              else Some \<lparr>Value = v, Expiry = (if x = 0 then 0 else ts x), Updated = ts (now c1)\<rparr>)"
  using assms by (rule kv_put_get_res)

lemma kv_Put_calm:
  assumes "storeOk s"
  shows "\<exists>s'. kv_Put ts (calmAt t) n k v x s = (Inr (), s') \<and> storeOk s'
    \<and> committed (tablesOf s') = filter (\<lambda>r. rowKey r \<noteq> (n, k)) (committed (tablesOf s)) @ [newRow ts t n k v x]"
proof -
  have k: "rowKey (newRow ts t n k v x) = (n, k)" by (simp add: newRow_def rowKey_def)
  show ?thesis
    unfolding kv_Put_def calmAt_simps
    by (rule within_calm [OF assms kv_Put_atomic]) (simp add: putF_Inr k)
qed

lemma kv_Get_calm:
  assumes "storeOk s" "find (\<lambda>r. rowKey r = (n, k)) (committed (tablesOf s)) = Some rw"
    "\<not> expired t (Expiry (entryOf rw))"
  shows "\<exists>s'. kv_Get (calmAt t) n k s = (Inr (Some (entryOf rw)), s') \<and> storeOk s'
     \<and> tablesOf s' = (tablesOf s)\<lparr>calls := Suc (calls (tablesOf s))\<rparr>"
  unfolding kv_Get_def calmAt_simps
  by (rule within_run [OF assms(1)])
    (use assms in \<open>simp_all add: andThen_def query_def exec_def noFaults_def storeOk_def idle_conn_def\<close>)

theorem kv_put_get_witness:
  "\<exists>s1 s2. kv_Put micro (calmAt 2000000) ''a'' ''z'' ''3'' 9000000 (freshStore sampleTable) = (Inr (), s1)
     \<and> kv_Get (calmAt 3000000) ''a'' ''z'' s1 = (Inr (Some \<lparr>Value = ''3'', Expiry = 9000000, Updated = 2000000\<rparr>), s2)"
proof -
  obtain s1 where s1: "kv_Put micro (calmAt 2000000) ''a'' ''z'' ''3'' 9000000 (freshStore sampleTable) = (Inr (), s1)"
      "storeOk s1" "committed (tablesOf s1) = filter (\<lambda>r. rowKey r \<noteq> (''a'', ''z'')) sampleTable @ [newRow micro 2000000 ''a'' ''z'' ''3'' 9000000]"
    using kv_Put_calm [OF storeOk_freshStore] by fastforce
  have f: "find (\<lambda>r. rowKey r = (''a'', ''z'')) (committed (tablesOf s1)) = Some (newRow micro 2000000 ''a'' ''z'' ''3'' 9000000)"
    unfolding s1(3) by code_simp
  have "\<not> expired 3000000 (Expiry (entryOf (newRow micro 2000000 ''a'' ''z'' ''3'' 9000000)))" by code_simp
  then obtain e s2 where s2: "kv_Get (calmAt 3000000) ''a'' ''z'' s1 = (Inr e, s2)"
    using kv_Get_calm [OF s1(2) f] by blast
  have "tableOk micro (committed (tablesOf (freshStore sampleTable)))" by (simp add: tableOk_sample)
  from kv_put_get [OF roundsDown_micro _ this _ s1(1) s2] s1(1) s2
  show ?thesis by (simp add: micro_def)
qed

end
