(* ===== verification/Sealed.thy ===== *)
theory Sealed
  imports KV Secrets
begin

text \<open>
  src/sealed/sealed.go: credentials sealed with AES-256-GCM in the key/value store of theory KV.
  The state is that store, the cached key, and the world of the key provider.  Parameters: the JSON
  codec of a credential, the cipher, the random source, and the key provider (\<open>keyringKey\<close> is the
  default one).  A row's value is a string of characters there and of runes here.
\<close>

record cred =
  AccessToken :: gostr
  RefreshToken :: gostr
  Scope :: gostr
  TokenExpiry :: time
  TTL :: time

record codec =
  marshalCred :: "cred \<Rightarrow> err + bytes"
  unmarshalCred :: "bytes \<Rightarrow> err + cred"

record 'w sealedStore =
  rows :: "kvtable store"
  cachedKey :: "bytes option"
  provider :: 'w

type_synonym ('w, 'a) sealedop = "('w sealedStore, err, 'a) act"

definition sealedErrUnavailable :: err where
  "sealedErrUnavailable = ErrUnavailable ''sealed ''"

definition onRows :: "'a kvop \<Rightarrow> ('w, 'a) sealedop" where
  "onRows m s = (case m (rows s) of (r, k) \<Rightarrow> (r, s\<lparr>rows := k\<rparr>))"

definition chars :: "gostr \<Rightarrow> string" where
  "chars t = map char_of t"

text \<open>The key provider of \<open>Open\<close>: the OS keyring, where the key is created on first use.\<close>

definition keyringKey :: "'w tools \<Rightarrow> unicode \<Rightarrow> random \<Rightarrow> gostr \<Rightarrow> gostr \<Rightarrow> ('w, bytes) toolact" where
  "keyringKey T U rnd svc name =
     andThen (secretOpen T BackendKeyring svc) (\<lambda>st.
     andThen (GetOrCreate T U st name (case NewKey rnd of Inl e \<Rightarrow> Inl e | Inr k \<Rightarrow> Inr (enc64 k))) (\<lambda>v.
       case DecodeString v of Inl e \<Rightarrow> throw e | Inr k \<Rightarrow> ok k))"

record sealedOptions =
  optNamespace :: string
  KeyringService :: gostr
  KeyName :: gostr

definition sealed_namespace :: "sealedOptions \<Rightarrow> string" where
  "sealed_namespace o' = (if optNamespace o' = [] then ''sealed'' else optNamespace o')"

definition defaultProvider :: "'w tools \<Rightarrow> unicode \<Rightarrow> random \<Rightarrow> sealedOptions \<Rightarrow> ('w, bytes) toolact" where
  "defaultProvider T U rnd o' = keyringKey T U rnd
     (if KeyringService o' = [] then lit ''sisyphus'' else KeyringService o')
     (if KeyName o' = [] then lit ''sealed-key'' else KeyName o')"

definition sealed_Open :: "call \<Rightarrow> sealedOptions \<Rightarrow> ('w, string) sealedop" where
  "sealed_Open c o' =
     andThen (onRows (\<lambda>k. case Ensure (env c) (lockPath c) (opened k) of (r, w) \<Rightarrow> (r, k\<lparr>opened := w, present := True\<rparr>)))
       (\<lambda>_. ok (sealed_namespace o'))"

definition sealed_Close :: "string \<Rightarrow> 'w sealedStore \<Rightarrow> 'w sealedStore" where
  "sealed_Close path s =
     (if \<not> present (rows s) then s else s\<lparr>rows := (kv_Close path (rows s))\<lparr>present := False\<rparr>\<rparr>)"

definition encryptionKey :: "('w, bytes) toolact \<Rightarrow> ('w, bytes) sealedop" where
  "encryptionKey P s =
     (case cachedKey s of
        Some k \<Rightarrow> ok k s
      | None \<Rightarrow> (case P (provider s) of
          (Inl e, w) \<Rightarrow> (Inl e, s\<lparr>provider := w\<rparr>)
        | (Inr k, w) \<Rightarrow> (Inr k, s\<lparr>provider := w, cachedKey := Some k\<rparr>)))"

text \<open>From the stored text to the credential: every failure is \<open>ErrUndecodable\<close>.\<close>

definition unsealText :: "codec \<Rightarrow> aead \<Rightarrow> bytes \<Rightarrow> gostr \<Rightarrow> err + cred" where
  "unsealText js G key v =
     (case DecodeString v of
        Inl e \<Rightarrow> Inl (ErrUndecodable e)
      | Inr raw \<Rightarrow> (case Decrypt G raw key of
          Inl e \<Rightarrow> Inl (ErrUndecodable e)
        | Inr plain \<Rightarrow> (case unmarshalCred js plain of
            Inl e \<Rightarrow> Inl (ErrUndecodable e)
          | Inr out \<Rightarrow> Inr out)))"

definition sealed_Get :: "codec \<Rightarrow> aead \<Rightarrow> ('w, bytes) toolact \<Rightarrow> call \<Rightarrow> string \<Rightarrow> string \<Rightarrow> ('w, cred option) sealedop" where
  "sealed_Get js G P c ns name s =
     (if \<not> present (rows s) then throw sealedErrUnavailable s
      else andThen (onRows (kv_Get c ns name)) (\<lambda>e. case e of
        None \<Rightarrow> ok None
      | Some e \<Rightarrow> andThen (encryptionKey P) (\<lambda>key.
          case unsealText js G key (lit (Value e)) of Inl e \<Rightarrow> throw e | Inr out \<Rightarrow> ok (Some out))) s)"

definition sealed_Put :: "(time \<Rightarrow> time) \<Rightarrow> codec \<Rightarrow> aead \<Rightarrow> random \<Rightarrow> ('w, bytes) toolact \<Rightarrow> call \<Rightarrow> string
    \<Rightarrow> string \<Rightarrow> cred \<Rightarrow> ('w, unit) sealedop" where
  "sealed_Put ts js G rnd P c ns name e s =
     (if \<not> present (rows s) then throw sealedErrUnavailable s
      else andThen (encryptionKey P) (\<lambda>key.
        case marshalCred js e of
          Inl x \<Rightarrow> throw x
        | Inr b \<Rightarrow> (case Encrypt G rnd b key of
            Inl x \<Rightarrow> throw x
          | Inr sealed \<Rightarrow> onRows (kv_Put ts c ns name (chars (enc64 sealed)) (TTL e)))) s)"

definition sealed_Delete :: "call \<Rightarrow> string \<Rightarrow> string \<Rightarrow> ('w, unit) sealedop" where
  "sealed_Delete c ns name s =
     (if \<not> present (rows s) then throw sealedErrUnavailable s else onRows (kv_Delete c ns name) s)"

section \<open>Lemmas\<close>

lemma lit_chars: "list_all (\<lambda>r. 0 \<le> r \<and> r < 128) t \<Longrightarrow> lit (chars t) = t"
proof (induction t)
  case (Cons r t)
  then have "r mod 256 = r" by simp
  with Cons show ?case by (simp add: chars_def lit_def)
qed (simp add: chars_def)

lemma unseal_seal:
  assumes "gcm G" "Encrypt G rnd b key = Inr sealed" "fills rnd" "list_all byte sealed"
    "unmarshalCred js b = Inr e"
  shows "unsealText js G key (lit (chars (enc64 sealed))) = Inr e"
proof -
  have "list_all (\<lambda>r. 0 \<le> r \<and> r < 128) (enc64 sealed)"
    using enc64_runes [OF assms(4)] by (simp add: list_all_iff)
  then show ?thesis
    using Decode_Encode [OF assms(4)] Decrypt_Encrypt [OF assms(1,3,2)] assms(5) by (simp add: lit_chars unsealText_def)
qed

text \<open>Nothing but the sealed text of a credential under the key opens.\<close>

lemma unsealText_cases:
  assumes "gcm G"
  shows "case unsealText js G key v of
     Inl e \<Rightarrow> \<exists>e'. e = ErrUndecodable e'
   | Inr out \<Rightarrow> \<exists>nonce plain. DecodeString v = Inr (nonce @ Seal G key nonce plain) \<and> length nonce = NonceSize
       \<and> length key = KeyBytes \<and> unmarshalCred js plain = Inr out"
proof (cases "unsealText js G key v")
  case (Inl e)
  then show ?thesis by (auto simp: unsealText_def split: sum.splits)
next
  case (Inr out)
  then obtain raw plain where r: "DecodeString v = Inr raw" "Decrypt G raw key = Inr plain" "unmarshalCred js plain = Inr out"
    by (auto simp: unsealText_def split: sum.splits)
  have "raw = take NonceSize raw @ Seal G key (take NonceSize raw) plain" "length key = KeyBytes"
    using Decrypt_Inr [OF assms r(2)] by blast+
  moreover have "length (take NonceSize raw) = NonceSize"
    using r(2) by (auto simp: Decrypt_def newGCM_def split: if_splits)
  ultimately have "\<exists>nonce plain. DecodeString v = Inr (nonce @ Seal G key nonce plain) \<and> length nonce = NonceSize
       \<and> length key = KeyBytes \<and> unmarshalCred js plain = Inr out" using r(1,3) by metis
  then show ?thesis by (simp add: Inr)
qed

lemma encryptionKey_res:
  "encryptionKey P s = (r, t) \<Longrightarrow> rows t = rows s \<and> (\<forall>k. r = Inr k \<longrightarrow> cachedKey t = Some k)
     \<and> (\<forall>k. cachedKey s = Some k \<longrightarrow> r = Inr k \<and> t = s)"
  by (auto simp: encryptionKey_def split: option.splits sum.splits prod.splits)

lemma onRows_res: "onRows m s = (r, t) \<Longrightarrow> \<exists>k. m (rows s) = (r, k) \<and> t = s\<lparr>rows := k\<rparr>"
  by (auto simp: onRows_def split: prod.splits)

text \<open>\<open>Get\<close> by cases: the store's own error or miss, no key, or the unsealing of what is stored.\<close>

lemma sealed_Get_cases:
  assumes "sealed_Get js G P c ns name s = (r, s')"
  obtains "\<not> present (rows s)" "r = Inl sealedErrUnavailable" "s' = s"
  | e k where "kv_Get c ns name (rows s) = (Inl e, k)" "r = Inl e"
  | k where "kv_Get c ns name (rows s) = (Inr None, k)" "r = Inr None"
  | e k x where "kv_Get c ns name (rows s) = (Inr (Some e), k)" "fst (encryptionKey P (s\<lparr>rows := k\<rparr>)) = Inl x" "r = Inl x"
  | e k key where "kv_Get c ns name (rows s) = (Inr (Some e), k)" "encryptionKey P (s\<lparr>rows := k\<rparr>) = (Inr key, s')"
      "cachedKey s' = Some key"
      "r = (case unsealText js G key (lit (Value e)) of Inl e \<Rightarrow> Inl e | Inr out \<Rightarrow> Inr (Some out))"
proof (cases "present (rows s)")
  case False
  have "(Inl sealedErrUnavailable, s) = (r, s')"
    using assms unfolding sealed_Get_def if_P [OF False] throw_apply .
  then show thesis by (intro that(1) False) simp_all
next
  case True
  note run = assms [unfolded sealed_Get_def if_not_P [OF not_not [THEN iffD2, OF True]]]
  from run show thesis
  proof (cases rule: andThen_cases)
    case (1 e)
    from onRows_res [OF 1(1)] obtain k where "kv_Get c ns name (rows s) = (Inl e, k)" by (elim exE conjE)
    from this 1(2) show thesis by (rule that(2))
  next
    case (2 x u)
    from onRows_res [OF 2(1)] obtain k where k: "kv_Get c ns name (rows s) = (Inr x, k)" "u = s\<lparr>rows := k\<rparr>"
      by (elim exE conjE)
    show thesis
    proof (cases x)
      case None
      then have "r = Inr None" using 2(2) by simp
      with k(1) [unfolded None] show thesis by (rule that(3))
    next
      case (Some e)
      note rest = 2(2) [unfolded Some option.case]
      from rest show thesis
      proof (cases rule: andThen_cases)
        case (1 y)
        then have "fst (encryptionKey P (s\<lparr>rows := k\<rparr>)) = Inl y" by (simp add: k(2))
        from k(1) [unfolded Some] this 1(2) show thesis by (rule that(4))
      next
        case (2 key t)
        from 2(2) have "s' = t \<and> r = (case unsealText js G key (lit (Value e)) of Inl e \<Rightarrow> Inl e | Inr out \<Rightarrow> Inr (Some out))"
          by (cases "unsealText js G key (lit (Value e))") simp_all
        then have fin: "encryptionKey P (s\<lparr>rows := k\<rparr>) = (Inr key, s')"
          "r = (case unsealText js G key (lit (Value e)) of Inl e \<Rightarrow> Inl e | Inr out \<Rightarrow> Inr (Some out))"
          using 2(1) by (simp_all add: k(2))
        have "cachedKey s' = Some key" using encryptionKey_res [OF fin(1)] by simp
        from k(1) [unfolded Some] fin(1) this fin(2) show thesis by (rule that(5))
      qed
    qed
  qed
qed

section \<open>Properties\<close>

text \<open>What a successful \<open>Put\<close> did: the key is cached, and its sealing of the encoding was stored.\<close>

lemma sealed_Put_res:
  assumes "sealed_Put ts js G rnd P c ns name e s = (Inr (), s1)"
  obtains key b raw where "cachedKey s1 = Some key" "marshalCred js e = Inr b" "Encrypt G rnd b key = Inr raw"
    "kv_Put ts c ns name (chars (enc64 raw)) (TTL e) (rows s) = (Inr (), rows s1)" "present (rows s)"
proof -
  note result = that
  show thesis
  proof (cases "present (rows s)")
    case False
    with assms show thesis by (simp add: sealed_Put_def)
  next
    case True
    note run = assms [unfolded sealed_Put_def if_not_P [OF not_not [THEN iffD2, OF True]]]
    from run show thesis
    proof (cases rule: andThen_cases)
      case (2 key t)
      obtain b raw where b: "marshalCred js e = Inr b" "Encrypt G rnd b key = Inr raw"
        and p: "onRows (kv_Put ts c ns name (chars (enc64 raw)) (TTL e)) t = (Inr (), s1)"
        using 2(2) by (auto split: sum.splits)
      from onRows_res [OF p] obtain k where k: "kv_Put ts c ns name (chars (enc64 raw)) (TTL e) (rows t) = (Inr (), k)"
          "s1 = t\<lparr>rows := k\<rparr>" by (elim exE conjE)
      have t: "rows t = rows s" "cachedKey t = Some key" using encryptionKey_res [OF 2(1)] by simp_all
      show thesis by (rule result [OF _ b]) (use k t True in simp_all)
    qed simp
  qed
qed

text \<open>
  Claim C30.  What \<open>Put\<close> sealed is what a later \<open>Get\<close> opens.  After a successful \<open>Put\<close>, a \<open>Get\<close> of the same
  name returns exactly that credential until its TTL, as the engine keeps it, has passed, and a miss from
  then on; the only errors left are the row store's own, since the key is cached and the stored text
  decodes and authenticates.  It needs that the cipher is an AEAD, that the codec decodes what it encoded
  for this credential, and that keys and encodings are bytes.
\<close>

theorem sealed_put_get:
  assumes "roundsDown ts" "idle_conn (tablesOf (rows s))" "tableOk ts (committed (tablesOf (rows s)))"
    "TTL e = 0 \<or> ts (TTL e) \<noteq> 0"
    and "gcm G" "fills rnd"
    and "\<And>b. marshalCred js e = Inr b \<Longrightarrow> list_all byte b \<and> unmarshalCred js b = Inr e"
    and "sealed_Put ts js G rnd P c1 ns name e s = (Inr (), s1)" "list_all byte (the (cachedKey s1))"
    and "sealed_Get js G P c2 ns name s1 = (r, s2)" "now c1 \<le> now c2"
  shows "case r of
     Inr out \<Rightarrow> out = (if TTL e \<noteq> 0 \<and> ts (TTL e) \<le> now c2 then None else Some e)
   | Inl x \<Rightarrow> fst (kv_Get c2 ns name (rows s1)) = Inl x"
proof -
  obtain key b raw where p: "cachedKey s1 = Some key" "marshalCred js e = Inr b" "Encrypt G rnd b key = Inr raw"
    "kv_Put ts c1 ns name (chars (enc64 raw)) (TTL e) (rows s) = (Inr (), rows s1)" "present (rows s)"
    by (rule sealed_Put_res [OF assms(8)])
  have present: "present (rows s1)" using within_present [OF p(4) [unfolded kv_Put_def]] p(5) by simp
  note stored = kv_put_get_res [OF assms(1-4) p(4) _ assms(11)]
  have bytes: "list_all byte raw" using Encrypt_bytes [OF assms(5,6) p(3)] assms(7,9) p(1,2) by simp
  have opens: "unsealText js G key (lit (chars (enc64 raw))) = Inr e"
    by (rule unseal_seal [OF assms(5) p(3) assms(6) bytes]) (use assms(7) p(2) in simp)
  have cached: "encryptionKey P (s1\<lparr>rows := k\<rparr>) = (Inr key, s1\<lparr>rows := k\<rparr>)" for k
    using p(1) by (simp add: encryptionKey_def)
  from assms(10) show ?thesis
  proof (cases rule: sealed_Get_cases)
    case 1
    with present show ?thesis by simp
  next
    case (3 k)
    with stored [OF 3(1)] show ?thesis by (simp split: if_splits)
  next
    case (4 e' k x)
    with cached [of k] show ?thesis by simp
  next
    case (5 e' k key')
    with cached [of k] opens stored [OF 5(1)] show ?thesis by (simp split: if_splits)
  qed simp_all
qed

definition sampleCodec :: codec where
  "sampleCodec = \<lparr>marshalCred = (\<lambda>e. Inr (AccessToken e)),
     unmarshalCred = (\<lambda>b. Inr \<lparr>AccessToken = b, RefreshToken = [], Scope = [], TokenExpiry = 0, TTL = 0\<rparr>)\<rparr>"

definition sampleToken :: gostr where
  "sampleToken = lit ''t0ken''"

definition sampleText :: gostr where
  "sampleText = enc64 (replicate 12 7 @ replicate 32 9 @ replicate 12 7 @ sampleToken)"

definition sampleCred :: cred where
  "sampleCred = \<lparr>AccessToken = sampleToken, RefreshToken = [], Scope = [], TokenExpiry = 0, TTL = 0\<rparr>"

definition sampleSealed :: "bytes sealedStore" where
  "sampleSealed = \<lparr>rows = freshStore sampleTable, cachedKey = None, provider = replicate 32 9\<rparr>"

definition sampleProvider :: "(bytes, bytes) toolact" where
  "sampleProvider w = (Inr w, w)"

lemma sealed_Put_sample:
  "\<exists>s1. sealed_Put micro sampleCodec clearCipher sevens sampleProvider (calmAt 2000000) ''sealed'' ''t'' sampleCred sampleSealed
      = (Inr (), s1) \<and> cachedKey s1 = Some (replicate 32 9) \<and> storeOk (rows s1)
      \<and> committed (tablesOf (rows s1)) = filter (\<lambda>r. rowKey r \<noteq> (''sealed'', ''t'')) sampleTable
          @ [newRow micro 2000000 ''sealed'' ''t'' (chars sampleText) 0]"
proof -
  let ?v = "chars sampleText"
  obtain k where k: "kv_Put micro (calmAt 2000000) ''sealed'' ''t'' ?v 0 (freshStore sampleTable) = (Inr (), k)" "storeOk k"
      "committed (tablesOf k) = filter (\<lambda>r. rowKey r \<noteq> (''sealed'', ''t'')) sampleTable @ [newRow micro 2000000 ''sealed'' ''t'' ?v 0]"
    using kv_Put_calm [OF storeOk_freshStore] by fastforce
  have e: "encryptionKey sampleProvider sampleSealed = (Inr (replicate 32 9), sampleSealed\<lparr>cachedKey := Some (replicate 32 9)\<rparr>)"
    by (simp add: encryptionKey_def sampleSealed_def sampleProvider_def)
  have c: "Encrypt clearCipher sevens sampleToken (replicate 32 9) = Inr (replicate 12 7 @ replicate 32 9 @ replicate 12 7 @ sampleToken)"
    by (simp add: Encrypt_def newGCM_def KeyBytes_def NonceSize_def sevens_def clearCipher_def)
  have "present (rows sampleSealed)" by (simp add: sampleSealed_def freshStore_def)
  then have "sealed_Put micro sampleCodec clearCipher sevens sampleProvider (calmAt 2000000) ''sealed'' ''t'' sampleCred sampleSealed
      = onRows (kv_Put micro (calmAt 2000000) ''sealed'' ''t'' ?v 0) (sampleSealed\<lparr>cachedKey := Some (replicate 32 9)\<rparr>)"
    unfolding sealed_Put_def
    by (simp add: step_ok [of "encryptionKey sampleProvider", OF e] c [folded sampleText_def] sampleCodec_def sampleCred_def)
       (simp add: c sampleText_def)
  also have "\<dots> = (Inr (), sampleSealed\<lparr>cachedKey := Some (replicate 32 9), rows := k\<rparr>)"
    using k(1) by (simp add: onRows_def sampleSealed_def)
  finally show ?thesis
    by (rule exI [where x = "sampleSealed\<lparr>cachedKey := Some (replicate 32 9), rows := k\<rparr>", OF conjI]) (simp add: k(2,3))
qed

theorem sealed_put_get_witness:
  "\<exists>s1 s2. sealed_Put micro sampleCodec clearCipher sevens sampleProvider (calmAt 2000000) ''sealed'' ''t'' sampleCred sampleSealed
      = (Inr (), s1)
    \<and> sealed_Get sampleCodec clearCipher sampleProvider (calmAt 3000000) ''sealed'' ''t'' s1 = (Inr (Some sampleCred), s2)"
proof -
  let ?v = "chars sampleText"
  let ?row = "newRow micro 2000000 ''sealed'' ''t'' ?v 0"
  obtain s1 where s1: "sealed_Put micro sampleCodec clearCipher sevens sampleProvider (calmAt 2000000) ''sealed'' ''t'' sampleCred
      sampleSealed = (Inr (), s1)" "cachedKey s1 = Some (replicate 32 9)" "storeOk (rows s1)"
    "committed (tablesOf (rows s1)) = filter (\<lambda>r. rowKey r \<noteq> (''sealed'', ''t'')) sampleTable @ [?row]"
    using sealed_Put_sample by blast
  have "find (\<lambda>r. rowKey r = (''sealed'', ''t'')) (committed (tablesOf (rows s1))) = Some ?row"
    unfolding s1(4) by (simp add: sampleTable_def newRow_def rowKey_def)
  note stored = kv_Get_calm [OF s1(3) this]
  have "\<not> expired 3000000 (Expiry (entryOf ?row))"
    by (simp add: entryOf_def newRow_def expired_def NullTime_def scanTime_def go_simps)
  from stored [OF this] obtain k where
    k: "kv_Get (calmAt 3000000) ''sealed'' ''t'' (rows s1) = (Inr (Some (entryOf ?row)), k)" by (elim exE conjE)
  obtain r s2 where g: "sealed_Get sampleCodec clearCipher sampleProvider (calmAt 3000000) ''sealed'' ''t'' s1 = (r, s2)" by fastforce
  have bytes: "list_all byte sampleToken" by code_simp
  have key: "list_all byte (the (cachedKey s1))" using s1(2) by (simp add: byte_def list_all_iff)
  have "tableOk micro (committed (tablesOf (rows sampleSealed)))" "idle_conn (tablesOf (rows sampleSealed))"
    by (simp_all add: sampleSealed_def tableOk_sample)
  from sealed_put_get [OF roundsDown_micro this(2,1) _ gcm_clearCipher fills_sevens _ s1(1) key g]
  have "r = Inr (Some sampleCred)"
    using k bytes by (cases r) (simp_all add: sampleCodec_def sampleCred_def)
  with s1(1) g show ?thesis by blast
qed

text \<open>
  Claim C31.  Nothing else in the table can pass for a credential.  Whatever text the row of a live entry
  holds, once the key is there \<open>Get\<close> either returns a credential whose encoding was sealed under exactly
  that key (the row is the base64 text of a nonce and of that sealing) or fails with \<open>ErrUndecodable\<close>: an
  altered, foreign or cleartext row is never read as a credential and never reported as a miss.
\<close>

theorem sealed_get_authenticates:
  assumes "gcm G" and "sealed_Get js G P c ns name s = (r, s')"
    and "kv_Get c ns name (rows s) = (Inr (Some e), k)" "encryptionKey P (s\<lparr>rows := k\<rparr>) = (Inr key, t)"
    and "present (rows s)"
  shows "case r of
     Inl x \<Rightarrow> \<exists>y. x = ErrUndecodable y
   | Inr None \<Rightarrow> False
   | Inr (Some out) \<Rightarrow> \<exists>nonce plain. DecodeString (lit (Value e)) = Inr (nonce @ Seal G key nonce plain)
       \<and> length nonce = NonceSize \<and> length key = KeyBytes \<and> unmarshalCred js plain = Inr out"
  using assms(2)
proof (cases rule: sealed_Get_cases)
  case (5 e' k' key')
  then have "e' = e" "key' = key" using assms(3,4) by simp_all
  with 5(4) unsealText_cases [OF assms(1), where js = js and key = key and v = "lit (Value e)"] show ?thesis
    by (cases "unsealText js G key (lit (Value e))") simp_all
qed (use assms(3-5) in simp_all)

theorem sealed_get_authenticates_witness:
  "\<exists>y s'. sealed_Get sampleCodec clearCipher sampleProvider (calmAt 3000000) ''a'' ''x'' sampleSealed = (Inl (ErrUndecodable y), s')"
proof -
  let ?row = "newRow micro 1000000 ''a'' ''x'' ''1'' 0"
  have s: "storeOk (rows sampleSealed)" "present (rows sampleSealed)" by (simp_all add: sampleSealed_def freshStore_def [of sampleTable, symmetric]) (simp add: freshStore_def)
  have f: "find (\<lambda>r. rowKey r = (''a'', ''x'')) (committed (tablesOf (rows sampleSealed))) = Some ?row"
    by (simp add: sampleSealed_def sampleTable_def newRow_def rowKey_def)
  have live: "\<not> expired 3000000 (Expiry (entryOf ?row))"
    by (simp add: entryOf_def newRow_def expired_def NullTime_def scanTime_def go_simps)
  obtain k where k: "kv_Get (calmAt 3000000) ''a'' ''x'' (rows sampleSealed) = (Inr (Some (entryOf ?row)), k)"
    using kv_Get_calm [OF s(1) f live] by (elim exE conjE)
  have e: "encryptionKey sampleProvider (sampleSealed\<lparr>rows := k\<rparr>) = (Inr (replicate 32 9),
      sampleSealed\<lparr>rows := k, cachedKey := Some (replicate 32 9)\<rparr>)"
    by (simp add: encryptionKey_def sampleSealed_def sampleProvider_def)
  obtain r s' where g: "sealed_Get sampleCodec clearCipher sampleProvider (calmAt 3000000) ''a'' ''x'' sampleSealed = (r, s')"
    by fastforce
  have "case DecodeString (lit (Value (entryOf ?row))) of Inl x \<Rightarrow> True | Inr b \<Rightarrow> False" by code_simp
  with sealed_get_authenticates [OF gcm_clearCipher g k e s(2)] g show ?thesis
    by (cases r) (auto split: option.splits sum.splits)
qed

end
