(* ===== verification/StreamKV.thy ===== *)
theory StreamKV
  imports KV LockFile
begin

text \<open>
  The persistence surface of src/stream: the interface \<open>KV\<close> of persist.go as a record of four
  methods, with its two implementations \<open>storeKV\<close> (the store of theory KV) and \<open>scopedKV\<close>
  (kvscope.go), and the clients \<open>Cursor\<close> (persist.go) and \<open>Watermark\<close> (watermark.go).  What the clients
  rely on is the locale \<open>kvspace\<close>; \<open>view s t\<close> is what can be read in state \<open>s\<close> at time \<open>t\<close>.
\<close>

record 's kvIface =
  kvGet :: "call \<Rightarrow> string \<Rightarrow> string \<Rightarrow> ('s, err, entry option) act"
  kvPut :: "call \<Rightarrow> string \<Rightarrow> string \<Rightarrow> string \<Rightarrow> time \<Rightarrow> ('s, err, unit) act"
  kvDelete :: "call \<Rightarrow> string \<Rightarrow> string \<Rightarrow> ('s, err, unit) act"
  kvList :: "call \<Rightarrow> string \<Rightarrow> ('s, err, string \<rightharpoonup> entry) act"

definition storeKV :: "(time \<Rightarrow> time) \<Rightarrow> kvtable store kvIface" where
  "storeKV ts = \<lparr>kvGet = kv_Get, kvPut = kv_Put ts, kvDelete = kv_Delete, kvList = kv_List ts\<rparr>"

section \<open>kvscope.go\<close>

definition scope :: "string \<Rightarrow> string \<Rightarrow> string" where
  "scope prefix namespace = prefix @ namespace"

definition scopedKV :: "'s kvIface \<Rightarrow> string \<Rightarrow> 's kvIface" where
  "scopedKV K prefix =
     \<lparr>kvGet = (\<lambda>c namespace key. kvGet K c (scope prefix namespace) key),
      kvPut = (\<lambda>c namespace key val expiry. kvPut K c (scope prefix namespace) key val expiry),
      kvDelete = (\<lambda>c namespace key. kvDelete K c (scope prefix namespace) key),
      kvList = (\<lambda>c namespace. kvList K c (scope prefix namespace))\<rparr>"

definition ScopedKV :: "'s kvIface option \<Rightarrow> string \<Rightarrow> 's kvIface option" where
  "ScopedKV store prefix = (case store of None \<Rightarrow> None | Some K \<Rightarrow> Some (scopedKV K prefix))"

section \<open>Cursor\<close>

text \<open>\<open>None\<close> for \<open>store\<close> is the nil interface; a nil cursor is one over a nil store.\<close>

record 's cursor =
  cursorKV :: "'s kvIface option"
  cursorNs :: string
  cursorKey :: string

definition NewCursor :: "'s kvIface option \<Rightarrow> string \<Rightarrow> string \<Rightarrow> 's cursor" where
  "NewCursor store ns key = \<lparr>cursorKV = store, cursorNs = ns, cursorKey = key\<rparr>"

definition cursorLoad :: "'s cursor \<Rightarrow> call \<Rightarrow> 's \<Rightarrow> string \<times> 's" where
  "cursorLoad cu c s =
     (case cursorKV cu of
        None \<Rightarrow> ([], s)
      | Some K \<Rightarrow> (case kvGet K c (cursorNs cu) (cursorKey cu) s of
          (Inl e, s') \<Rightarrow> ([], s')
        | (Inr None, s') \<Rightarrow> ([], s')
        | (Inr (Some e), s') \<Rightarrow> (Value e, s')))"

definition cursorSave :: "'s cursor \<Rightarrow> call \<Rightarrow> string \<Rightarrow> ('s, err, unit) act" where
  "cursorSave cu c val =
     (case cursorKV cu of None \<Rightarrow> ok () | Some K \<Rightarrow> kvPut K c (cursorNs cu) (cursorKey cu) val zero_time)"

definition cursorClear :: "'s cursor \<Rightarrow> call \<Rightarrow> ('s, err, unit) act" where
  "cursorClear cu c =
     (case cursorKV cu of None \<Rightarrow> ok () | Some K \<Rightarrow> kvDelete K c (cursorNs cu) (cursorKey cu))"

section \<open>Watermark\<close>

text \<open>\<open>Time.Unix\<close>, \<open>time.Unix(u, 0)\<close>, \<open>strconv.FormatInt(i, 10)\<close> and \<open>strconv.ParseInt(s, 10, 64)\<close>.\<close>

abbreviation (input) unixEpoch :: int where "unixEpoch \<equiv> 62135596800"

definition Unix :: "time \<Rightarrow> int" where
  "Unix t = wrap64 (t div 1000000000 - unixEpoch)"

definition unixTime :: "int \<Rightarrow> time" where
  "unixTime u = wrap64 (u + unixEpoch) * 1000000000"

definition FormatInt :: "int \<Rightarrow> string" where
  "FormatInt i = map char_of (if i < 0 then 45 # itoa (nat (- i)) else itoa (nat i))"

definition ParseInt :: "string \<Rightarrow> int option" where
  "ParseInt s = atoi (lit s)"

record 's watermark =
  wmKV :: "'s kvIface option"
  wmNs :: string
  wmKey :: string

definition NewWatermark :: "'s kvIface option \<Rightarrow> string \<Rightarrow> string \<Rightarrow> 's watermark" where
  "NewWatermark store ns key = \<lparr>wmKV = store, wmNs = ns, wmKey = key\<rparr>"

definition stampOf :: "string \<Rightarrow> time" where
  "stampOf v = (if v = [] then zero_time else case ParseInt v of None \<Rightarrow> zero_time | Some u \<Rightarrow> unixTime u)"

definition watermarkLoad :: "'s watermark \<Rightarrow> call \<Rightarrow> 's \<Rightarrow> time \<times> 's" where
  "watermarkLoad w c s =
     (case wmKV w of
        None \<Rightarrow> (zero_time, s)
      | Some K \<Rightarrow> (case kvGet K c (wmNs w) (wmKey w) s of
          (Inl e, s') \<Rightarrow> (zero_time, s')
        | (Inr None, s') \<Rightarrow> (zero_time, s')
        | (Inr (Some e), s') \<Rightarrow> (stampOf (Value e), s')))"

definition watermarkSave :: "'s watermark \<Rightarrow> call \<Rightarrow> time \<Rightarrow> ('s, err, unit) act" where
  "watermarkSave w c t =
     (case wmKV w of None \<Rightarrow> ok () | Some K \<Rightarrow> kvPut K c (wmNs w) (wmKey w) (FormatInt (Unix t)) zero_time)"

section \<open>The contract\<close>

text \<open>
  The methods as the clients use them: an entry is stored without expiry.  A call that fails has
  done all of its change or nothing of it.
\<close>

locale kvspace =
  fixes K :: "'s kvIface" and usable :: "'s \<Rightarrow> bool" and view :: "'s \<Rightarrow> time \<Rightarrow> string \<times> string \<rightharpoonup> string"
  assumes get_law: "usable s \<Longrightarrow> kvGet K c n k s = (r, s') \<Longrightarrow>
      usable s' \<and> (\<forall>t \<ge> now c. view s' t = view s t) \<and> (\<forall>x. r = Inr x \<longrightarrow> map_option Value x = view s (now c) (n, k))"
    and put_law: "usable s \<Longrightarrow> kvPut K c n k v 0 s = (r1, s') \<Longrightarrow>
      usable s' \<and> ((\<forall>t \<ge> now c. view s' t = view s t) \<and> r1 \<noteq> Inr () \<or> (\<forall>t \<ge> now c. view s' t = (view s t)((n, k) \<mapsto> v)))"
    and delete_law: "usable s \<Longrightarrow> kvDelete K c n k s = (r1, s') \<Longrightarrow>
      usable s' \<and> ((\<forall>t \<ge> now c. view s' t = view s t) \<and> r1 \<noteq> Inr () \<or> (\<forall>t \<ge> now c. view s' t = (view s t)((n, k) := None)))"
    and list_law: "usable s \<Longrightarrow> kvList K c n s = (r2, s') \<Longrightarrow>
      usable s' \<and> (\<forall>t \<ge> now c. view s' t = view s t)
      \<and> (\<forall>m. r2 = Inr m \<longrightarrow> finite (dom m) \<and> (\<forall>k. map_option Value (m k) = view s (now c) (n, k)))"
begin

text \<open>A prefix gives another space: the namespaces under it, as if they were all.\<close>

lemma scoped_kvspace: "kvspace (scopedKV K p) usable (\<lambda>s t nk. view s t (scope p (fst nk), snd nk))"
proof
  fix s c n k v and s' :: 's
  have inj: "scope p a = scope p b \<longleftrightarrow> a = b" for a b by (simp add: scope_def)
  show "kvGet (scopedKV K p) c n k s = (r, s') \<Longrightarrow> usable s \<Longrightarrow>
      usable s' \<and> (\<forall>t\<ge>now c. (\<lambda>nk. view s' t (scope p (fst nk), snd nk)) = (\<lambda>nk. view s t (scope p (fst nk), snd nk)))
      \<and> (\<forall>x. r = Inr x \<longrightarrow> map_option Value x = view s (now c) (scope p (fst (n, k)), snd (n, k)))" for r
    using get_law [of s c "scope p n" k r s'] by (simp add: scopedKV_def)
  show "kvPut (scopedKV K p) c n k v 0 s = (r, s') \<Longrightarrow> usable s \<Longrightarrow>
      usable s' \<and> ((\<forall>t\<ge>now c. (\<lambda>nk. view s' t (scope p (fst nk), snd nk)) = (\<lambda>nk. view s t (scope p (fst nk), snd nk))) \<and> r \<noteq> Inr ()
      \<or> (\<forall>t\<ge>now c. (\<lambda>nk. view s' t (scope p (fst nk), snd nk)) = (\<lambda>nk. view s t (scope p (fst nk), snd nk))((n, k) \<mapsto> v)))" for r
    using put_law [of s c "scope p n" k v r s'] by (auto simp: scopedKV_def fun_eq_iff inj)
  show "kvDelete (scopedKV K p) c n k s = (r, s') \<Longrightarrow> usable s \<Longrightarrow>
      usable s' \<and> ((\<forall>t\<ge>now c. (\<lambda>nk. view s' t (scope p (fst nk), snd nk)) = (\<lambda>nk. view s t (scope p (fst nk), snd nk))) \<and> r \<noteq> Inr ()
      \<or> (\<forall>t\<ge>now c. (\<lambda>nk. view s' t (scope p (fst nk), snd nk)) = (\<lambda>nk. view s t (scope p (fst nk), snd nk))((n, k) := None)))" for r
    using delete_law [of s c "scope p n" k r s'] by (auto simp: scopedKV_def fun_eq_iff inj)
  show "kvList (scopedKV K p) c n s = (r, s') \<Longrightarrow> usable s \<Longrightarrow>
      usable s' \<and> (\<forall>t\<ge>now c. (\<lambda>nk. view s' t (scope p (fst nk), snd nk)) = (\<lambda>nk. view s t (scope p (fst nk), snd nk)))
      \<and> (\<forall>m. r = Inr m \<longrightarrow> finite (dom m) \<and> (\<forall>k. map_option Value (m k) = view s (now c) (scope p (fst (n, k)), snd (n, k))))" for r
    using list_law [of s c "scope p n" r s'] by (simp add: scopedKV_def)
qed

text \<open>What a cursor saved is what it loads, unless the read fails; cleared, it loads nothing.\<close>

lemma cursor_load_save:
  assumes "usable s" "cursorKV cu = Some K" "cursorSave cu c v s = (Inr (), s1)" "cursorLoad cu c' s1 = (x, s2)" "now c \<le> now c'"
  shows "x = v \<or> x = [] \<and> (\<exists>e. fst (kvGet K c' (cursorNs cu) (cursorKey cu) s1) = Inl e)"
proof -
  have "kvPut K c (cursorNs cu) (cursorKey cu) v 0 s = (Inr (), s1)" using assms(2,3) by (simp add: cursorSave_def)
  from put_law [OF assms(1) this] have s1: "usable s1" "view s1 (now c') (cursorNs cu, cursorKey cu) = Some v"
    using assms(5) by auto
  obtain r s2' where g: "kvGet K c' (cursorNs cu) (cursorKey cu) s1 = (r, s2')" by fastforce
  from get_law [OF s1(1) g] s1(2) assms(2,4) g show ?thesis
    by (cases r) (auto simp: cursorLoad_def split: option.splits)
qed

lemma cursor_load_clear:
  assumes "usable s" "cursorKV cu = Some K" "cursorClear cu c s = (Inr (), s1)" "now c \<le> now c'"
  shows "fst (cursorLoad cu c' s1) = []"
proof -
  have "kvDelete K c (cursorNs cu) (cursorKey cu) s = (Inr (), s1)" using assms(2,3) by (simp add: cursorClear_def)
  from delete_law [OF assms(1) this] have s1: "usable s1" "view s1 (now c') (cursorNs cu, cursorKey cu) = None"
    using assms(4) by auto
  obtain r s2 where g: "kvGet K c' (cursorNs cu) (cursorKey cu) s1 = (r, s2)" by fastforce
  from get_law [OF s1(1) g] s1(2) assms(2) g show ?thesis
    by (cases r) (auto simp: cursorLoad_def split: option.splits)
qed

end

section \<open>Decimal stamps\<close>

lemma lit_map_char: "list_all (\<lambda>r. 0 \<le> r \<and> r < 128) t \<Longrightarrow> lit (map char_of t) = t"
proof (induction t)
  case (Cons r t)
  then have "r mod 256 = r" by simp
  with Cons show ?case by (simp add: lit_def)
qed simp

lemma atoi_neg: "0 < n \<Longrightarrow> int n \<le> 2 ^ 63 \<Longrightarrow> atoi (45 # itoa n) = Some (- int n)"
  using itoa_digits [of n] digitsVal_itoa [of n] by (simp add: atoi_def int64_range_def)

lemma ParseInt_FormatInt: "int64_range i \<Longrightarrow> ParseInt (FormatInt i) = Some i"
proof -
  assume i: "int64_range i"
  have "list_all (\<lambda>r. 0 \<le> r \<and> r < 128) (itoa n)" for n
    using itoa_digits [of n] by (auto simp: list_all_iff digit_def)
  then have "lit (FormatInt i) = (if i < 0 then 45 # itoa (nat (- i)) else itoa (nat i))"
    unfolding FormatInt_def by (intro lit_map_char) simp
  then show ?thesis
    using i atoi_neg [of "nat (- i)"] atoi_itoa [of "nat i"] by (simp add: ParseInt_def int64_range_def)
qed

lemma FormatInt_nonempty: "FormatInt i \<noteq> []"
  using itoa_digits by (simp add: FormatInt_def)

text \<open>A stamp is kept to the second.\<close>

definition toSecond :: "time \<Rightarrow> time" where
  "toSecond t = t div 1000000000 * 1000000000"

lemma stampOf_Unix: "int64_range (t div 1000000000 - unixEpoch) \<Longrightarrow> int64_range (t div 1000000000) \<Longrightarrow>
    stampOf (FormatInt (Unix t)) = toSecond t"
  by (simp add: stampOf_def FormatInt_nonempty ParseInt_FormatInt wrap64_range Unix_def unixTime_def wrap64_id toSecond_def)

context kvspace
begin

lemma watermark_load_save:
  assumes "usable s" "wmKV w = Some K" "watermarkSave w c t s = (Inr (), s1)" "watermarkLoad w c' s1 = (x, s2)" "now c \<le> now c'"
    "int64_range (t div 1000000000 - unixEpoch)" "int64_range (t div 1000000000)"
  shows "x = toSecond t \<or> x = 0 \<and> (\<exists>e. fst (kvGet K c' (wmNs w) (wmKey w) s1) = Inl e)"
proof -
  have "kvPut K c (wmNs w) (wmKey w) (FormatInt (Unix t)) 0 s = (Inr (), s1)" using assms(2,3) by (simp add: watermarkSave_def)
  from put_law [OF assms(1) this] have s1: "usable s1" "view s1 (now c') (wmNs w, wmKey w) = Some (FormatInt (Unix t))"
    using assms(5) by auto
  obtain r s2' where g: "kvGet K c' (wmNs w) (wmKey w) s1 = (r, s2')" by fastforce
  from get_law [OF s1(1) g] s1(2) assms(2,4) g show ?thesis
    by (cases r) (auto simp: watermarkLoad_def stampOf_Unix [OF assms(6,7)] split: option.splits)
qed

end

section \<open>The store meets it\<close>

definition liveView :: "kvtable store \<Rightarrow> time \<Rightarrow> string \<times> string \<rightharpoonup> string" where
  "liveView s t nk = map_option Value (liveMap t (kvAbs (committed (tablesOf s))) nk)"

definition storeUsable :: "(time \<Rightarrow> time) \<Rightarrow> kvtable store \<Rightarrow> bool" where
  "storeUsable ts s \<longleftrightarrow> roundsDown ts \<and> idle_conn (tablesOf s) \<and> tableOk ts (committed (tablesOf s))"

text \<open>What a call may do to the view, from the refinement of the store.\<close>

definition specView :: "(time \<Rightarrow> time) \<Rightarrow> call \<Rightarrow> kvOp \<Rightarrow> kvtable store \<Rightarrow> time \<Rightarrow> string \<times> string \<rightharpoonup> string" where
  "specView ts c op s t nk = map_option Value (liveMap t (kvSpec ts (now c) op (kvAbs (committed (tablesOf s)))) nk)"

lemma kv_call_view:
  assumes "storeUsable ts s" "opOk ts op" "kv_call ts c op s = (r, s')"
  shows "storeUsable ts s'
    \<and> ((\<forall>t \<ge> now c. liveView s' t = liveView s t) \<or> (\<forall>t \<ge> now c. liveView s' t = specView ts c op s t))
    \<and> (\<forall>x. r = Inr x \<longrightarrow> (\<forall>t \<ge> now c. liveView s' t = specView ts c op s t)
         \<and> kvAnswer ts (now c) (kvAbs (committed (tablesOf s))) op x)"
proof -
  have u: "roundsDown ts" "idle_conn (tablesOf s)" "tableOk ts (committed (tablesOf s))"
    using assms(1) by (simp_all add: storeUsable_def)
  have e: "liveMap t (kvAbs (committed (tablesOf s'))) = liveMap t (kvAbs (committed (tablesOf s))) \<Longrightarrow> liveView s' t = liveView s t"
    "liveMap t (kvAbs (committed (tablesOf s'))) = liveMap t (kvSpec ts (now c) op (kvAbs (committed (tablesOf s))))
      \<Longrightarrow> liveView s' t = specView ts c op s t" for t
    by (simp_all add: liveView_def [abs_def] specView_def [abs_def])
  from kv_call_meets [OF u assms(2,3)] show ?thesis
    unfolding meets_def storeUsable_def using u(1) e by metis
qed

lemma specView_simps:
  "specView ts c (OpGet n k) s t = liveView s t" "specView ts c (OpList n) s t = liveView s t"
  "specView ts c (OpDelete n k) s t = (liveView s t)((n, k) := None)"
  "specView ts c (OpPut n k v 0) s t = (liveView s t)((n, k) \<mapsto> v)"
  by (auto simp: specView_def liveView_def liveMap_def expired_def go_simps fun_eq_iff)

lemma finite_kvAbs: "finite (dom (kvAbs t))"
  by (simp add: dom_kvAbs)

lemma finite_live: "finite {k. liveMap u (kvAbs t) (n, k) \<noteq> None}"
proof (rule finite_subset)
  show "{k. liveMap u (kvAbs t) (n, k) \<noteq> None} \<subseteq> snd ` dom (kvAbs t)"
    by (force simp: liveMap_def dom_def image_iff split: option.splits if_splits)
qed (simp add: finite_kvAbs)

interpretation store: kvspace "storeKV ts" "storeUsable ts" liveView for ts
proof
  fix s c n k v and s' :: "kvtable store"
  assume u: "storeUsable ts s"
  {
    fix r assume "kvGet (storeKV ts) c n k s = (r, s')"
    then have "kv_call ts c (OpGet n k) s = (case r of Inl e \<Rightarrow> Inl e | Inr x \<Rightarrow> Inr (REntry x), s')"
      by (simp add: storeKV_def replied_def andThen_def split: sum.split)
    from kv_call_view [OF u _ this] show "storeUsable ts s' \<and> (\<forall>t\<ge>now c. liveView s' t = liveView s t)
        \<and> (\<forall>x. r = Inr x \<longrightarrow> map_option Value x = liveView s (now c) (n, k))"
      by (cases r) (simp_all add: specView_simps liveView_def)
  next
    fix r assume "kvPut (storeKV ts) c n k v 0 s = (r, s')"
    then have "kv_call ts c (OpPut n k v 0) s = (case r of Inl e \<Rightarrow> Inl e | Inr x \<Rightarrow> Inr RDone, s')"
      by (simp add: storeKV_def replied_def andThen_def split: sum.split)
    from kv_call_view [OF u _ this] show "storeUsable ts s' \<and> ((\<forall>t\<ge>now c. liveView s' t = liveView s t) \<and> r \<noteq> Inr ()
        \<or> (\<forall>t\<ge>now c. liveView s' t = (liveView s t)((n, k) \<mapsto> v)))"
      by (cases r) (simp_all add: specView_simps)
  next
    fix r assume "kvDelete (storeKV ts) c n k s = (r, s')"
    then have "kv_call ts c (OpDelete n k) s = (case r of Inl e \<Rightarrow> Inl e | Inr x \<Rightarrow> Inr RDone, s')"
      by (simp add: storeKV_def replied_def andThen_def split: sum.split)
    from kv_call_view [OF u _ this] show "storeUsable ts s' \<and> ((\<forall>t\<ge>now c. liveView s' t = liveView s t) \<and> r \<noteq> Inr ()
        \<or> (\<forall>t\<ge>now c. liveView s' t = (liveView s t)((n, k) := None)))"
      by (cases r) (simp_all add: specView_simps)
  next
    fix r assume "kvList (storeKV ts) c n s = (r, s')"
    then have "kv_call ts c (OpList n) s = (case r of Inl e \<Rightarrow> Inl e | Inr x \<Rightarrow> Inr (RMap x), s')"
      by (simp add: storeKV_def replied_def andThen_def split: sum.split)
    from kv_call_view [OF u _ this] show "storeUsable ts s' \<and> (\<forall>t\<ge>now c. liveView s' t = liveView s t)
        \<and> (\<forall>m. r = Inr m \<longrightarrow> finite (dom m) \<and> (\<forall>k. map_option Value (m k) = liveView s (now c) (n, k)))"
      by (cases r) (simp_all add: specView_simps liveView_def dom_def finite_live [unfolded not_None_eq])
  }
qed

text \<open>And so does every part of it under a prefix.\<close>

definition scopedView :: "string \<Rightarrow> kvtable store \<Rightarrow> time \<Rightarrow> string \<times> string \<rightharpoonup> string" where
  "scopedView p s t nk = liveView s t (scope p (fst nk), snd nk)"

interpretation scoped: kvspace "scopedKV (storeKV ts) p" "storeUsable ts" "scopedView p" for ts p
  using store.scoped_kvspace [of ts p] by (simp add: scopedView_def [abs_def])

text \<open>A cursor, a watermark, a deduper under a prefix cannot touch what lies outside it.\<close>

fun ifaceCall :: "'s kvIface \<Rightarrow> call \<Rightarrow> kvOp \<Rightarrow> 's \<Rightarrow> 's" where
  "ifaceCall K c (OpGet n k) s = snd (kvGet K c n k s)"
| "ifaceCall K c (OpPut n k v x) s = snd (kvPut K c n k v x s)"
| "ifaceCall K c (OpDelete n k) s = snd (kvDelete K c n k s)"
| "ifaceCall K c (OpList n) s = snd (kvList K c n s)"
| "ifaceCall K c _ s = s"

fun scopeOp :: "string \<Rightarrow> kvOp \<Rightarrow> kvOp" where
  "scopeOp p (OpGet n k) = OpGet (scope p n) k"
| "scopeOp p (OpPut n k v x) = OpPut (scope p n) k v x"
| "scopeOp p (OpDelete n k) = OpDelete (scope p n) k"
| "scopeOp p (OpList n) = OpList (scope p n)"
| "scopeOp p opr = opr"

lemma scoped_call:
  "ifaceCall (scopedKV (storeKV ts) p) c op s = s \<or> ifaceCall (scopedKV (storeKV ts) p) c op s = snd (kv_call ts c (scopeOp p op) s)"
  by (cases op) (auto simp: scopedKV_def storeKV_def replied_def andThen_def split: prod.split sum.split)

lemma specView_outside:
  "(\<And>n. m \<noteq> scope p n) \<Longrightarrow> ifaceCall (scopedKV (storeKV ts) p) c op s \<noteq> s \<Longrightarrow>
     specView ts c (scopeOp p op) s t (m, k) = liveView s t (m, k)"
  by (cases op) (auto simp: specView_def liveView_def liveMap_def)

lemma scoped_call_outside:
  assumes "storeUsable ts s" "opOk ts op" "now c \<le> t" "\<And>n. m \<noteq> scope p n"
  shows "liveView (ifaceCall (scopedKV (storeKV ts) p) c op s) t (m, k) = liveView s t (m, k)"
proof (cases "ifaceCall (scopedKV (storeKV ts) p) c op s = s")
  case False
  let ?s = "ifaceCall (scopedKV (storeKV ts) p) c op s"
  obtain r where run: "kv_call ts c (scopeOp p op) s = (r, ?s)"
    using scoped_call [of ts p c op s] False by (cases "kv_call ts c (scopeOp p op) s") simp
  have "opOk ts (scopeOp p op)" using assms(2) by (cases op) simp_all
  from kv_call_view [OF assms(1) this run] specView_outside [OF assms(4) False, of t k] assms(3) show ?thesis
    by metis
qed simp

end
