(* ===== verification/Dedup.thy ===== *)
theory Dedup
  imports StreamKV "HOL-Library.Sublist"
begin

text \<open>
  The duplicate suppression of src/stream (\<open>Deduper\<close> in stream.go, \<open>NewPersistentDeduper\<close> in
  persist.go).  A deduper acts on a world \<open>kvworld\<close>: the state of its store and the number of store calls
  made so far; \<open>cs i\<close> is what the \<open>i\<close>-th call meets.  \<open>iter\<close> is the order in which Go ranges over a map.
\<close>

record 's kvworld =
  backing :: 's
  turn :: nat

record ('a, 's) deduper =
  keyOf :: "'a \<Rightarrow> string"
  keysSeen :: "string set"
  order :: "string list"
  cap :: int
  firstPass :: bool
  dedupKV :: "'s kvIface option"
  dedupNs :: string

definition callKV :: "(nat \<Rightarrow> call) \<Rightarrow> (call \<Rightarrow> ('s, err, 'b) act) \<Rightarrow> 's kvworld \<Rightarrow> (err + 'b) \<times> 's kvworld" where
  "callKV cs m w = (case m (cs (turn w)) (backing w) of (r, s) \<Rightarrow> (r, \<lparr>backing = s, turn = Suc (turn w)\<rparr>))"

definition defaultSeenCap :: int where "defaultSeenCap = 8192"
definition seenInitKey :: string where "seenInitKey = ''_deduper:init''"
definition legacySeenInitKey :: string where "legacySeenInitKey = ''sisyphus:deduper:init''"

definition NewDeduper :: "('a \<Rightarrow> string) \<Rightarrow> ('a, 's) deduper" where
  "NewDeduper key = \<lparr>keyOf = key, keysSeen = {}, order = [], cap = defaultSeenCap, firstPass = True,
     dedupKV = None, dedupNs = []\<rparr>"

text \<open>The store calls of a deduper, whose errors are dropped.\<close>

definition mirrorPut :: "(nat \<Rightarrow> call) \<Rightarrow> ('a, 's) deduper \<Rightarrow> string \<Rightarrow> 's kvworld \<Rightarrow> 's kvworld" where
  "mirrorPut cs d k w = (case dedupKV d of None \<Rightarrow> w
     | Some K \<Rightarrow> snd (callKV cs (\<lambda>c. kvPut K c (dedupNs d) k ''1'' zero_time) w))"

definition mirrorDelete :: "(nat \<Rightarrow> call) \<Rightarrow> ('a, 's) deduper \<Rightarrow> string \<Rightarrow> 's kvworld \<Rightarrow> 's kvworld" where
  "mirrorDelete cs d k w = (case dedupKV d of None \<Rightarrow> w
     | Some K \<Rightarrow> snd (callKV cs (\<lambda>c. kvDelete K c (dedupNs d) k) w))"

function evictLoop :: "(nat \<Rightarrow> call) \<Rightarrow> ('a, 's) deduper \<Rightarrow> 's kvworld \<Rightarrow> ('a, 's) deduper \<times> 's kvworld" where
  "evictLoop cs d w =
     (case order d of
        [] \<Rightarrow> (d, w)
      | oldest # rest \<Rightarrow>
          if int (length (order d)) > cap d
          then evictLoop cs (d\<lparr>order := rest, keysSeen := keysSeen d - {oldest}\<rparr>) (mirrorDelete cs d oldest w)
          else (d, w))"
  by pat_completeness auto
termination by (relation "measure (\<lambda>(cs, d, w). length (order d))") auto

declare evictLoop.simps [simp del]

definition evictKeys :: "(nat \<Rightarrow> call) \<Rightarrow> ('a, 's) deduper \<Rightarrow> 's kvworld \<Rightarrow> ('a, 's) deduper \<times> 's kvworld" where
  "evictKeys cs d w = (if cap d \<le> 0 then (d, w) else evictLoop cs d w)"

fun unseenLoop :: "(nat \<Rightarrow> call) \<Rightarrow> 'a list \<Rightarrow> ('a, 's) deduper \<Rightarrow> 's kvworld \<Rightarrow> 'a list
    \<Rightarrow> ('a, 's) deduper \<times> 's kvworld \<times> 'a list" where
  "unseenLoop cs [] d w out = (d, w, out)"
| "unseenLoop cs (it # its) d w out =
     (let k = keyOf d it in
      if k \<in> keysSeen d then unseenLoop cs its d w out
      else
        let d1 = d\<lparr>keysSeen := insert k (keysSeen d), order := order d @ [k]\<rparr>;
            w1 = mirrorPut cs d1 k w;
            out1 = (if firstPass d then out else out @ [it]) in
        (case evictKeys cs d1 w1 of (d2, w2) \<Rightarrow> unseenLoop cs its d2 w2 out1))"

definition Unseen :: "(nat \<Rightarrow> call) \<Rightarrow> 'a list \<Rightarrow> ('a, 's) deduper \<Rightarrow> 's kvworld \<Rightarrow> ('a, 's) deduper \<times> 's kvworld \<times> 'a list" where
  "Unseen cs items d w =
     (case unseenLoop cs items d w [] of (d1, w1, out) \<Rightarrow>
        if firstPass d1 then (d1\<lparr>firstPass := False\<rparr>, mirrorPut cs d1 seenInitKey w1, out) else (d1, w1, out))"

definition dropMarkers :: "(string \<rightharpoonup> entry) \<Rightarrow> string \<rightharpoonup> entry" where
  "dropMarkers existing = existing(seenInitKey := None, legacySeenInitKey := None)"

definition NewPersistentDeduper :: "(nat \<Rightarrow> call) \<Rightarrow> ((string \<rightharpoonup> entry) \<Rightarrow> string list) \<Rightarrow> ('a \<Rightarrow> string)
    \<Rightarrow> 's kvIface option \<Rightarrow> string \<Rightarrow> 's kvworld \<Rightarrow> ('a, 's) deduper \<times> 's kvworld" where
  "NewPersistentDeduper cs iter key store ns w =
     (let d = (NewDeduper key)\<lparr>dedupKV := store, dedupNs := ns\<rparr> in
      case store of
        None \<Rightarrow> (d, w)
      | Some K \<Rightarrow> (case callKV cs (\<lambda>c. kvList K c ns) w of
          (Inl e, w1) \<Rightarrow> (d, w1)
        | (Inr existing, w1) \<Rightarrow>
            let marked = existing seenInitKey \<noteq> None \<or> existing legacySeenInitKey \<noteq> None;
                left = iter (dropMarkers existing) in
            evictKeys cs (d\<lparr>firstPass := \<not> marked \<and> left = [], keysSeen := set left, order := left\<rparr>) w1))"

text \<open>The calls of \<open>Unseen\<close> that a source makes, one per batch.\<close>

fun unseenBatches :: "(nat \<Rightarrow> call) \<Rightarrow> 'a list list \<Rightarrow> ('a, 's) deduper \<Rightarrow> 's kvworld
    \<Rightarrow> ('a, 's) deduper \<times> 's kvworld \<times> 'a list list" where
  "unseenBatches cs [] d w = (d, w, [])"
| "unseenBatches cs (b # bs) d w =
     (case Unseen cs b d w of (d1, w1, out) \<Rightarrow>
      case unseenBatches cs bs d1 w1 of (d2, w2, outs) \<Rightarrow> (d2, w2, out # outs))"

section \<open>Bounded memory\<close>

definition dedupOk :: "('a, 's) deduper \<Rightarrow> bool" where
  "dedupOk d \<longleftrightarrow> distinct (order d) \<and> keysSeen d = set (order d) \<and> (0 < cap d \<longrightarrow> int (length (order d)) \<le> cap d)"

text \<open>What eviction leaves: the newest keys.\<close>

definition newest :: "int \<Rightarrow> string list \<Rightarrow> string list" where
  "newest m ks = (if m \<le> 0 then ks else drop (length ks - nat m) ks)"

lemma newest_id: "int (length ks) \<le> m \<Longrightarrow> newest m ks = ks"
  by (simp add: newest_def)

lemma set_newest: "set (newest m ks) \<subseteq> set ks"
  by (simp add: newest_def set_drop_subset)

lemma newest_length: "0 < m \<Longrightarrow> int (length (newest m ks)) \<le> m"
  by (simp add: newest_def)

definition sameShape :: "('a, 's) deduper \<Rightarrow> ('a, 's) deduper \<Rightarrow> bool" where
  "sameShape d d' \<longleftrightarrow> keyOf d' = keyOf d \<and> cap d' = cap d \<and> dedupKV d' = dedupKV d \<and> dedupNs d' = dedupNs d"

lemma sameShape_refl [simp]: "sameShape d d"
  by (simp add: sameShape_def)

lemma sameShape_trans: "sameShape a b \<Longrightarrow> sameShape b c \<Longrightarrow> sameShape a c"
  by (simp add: sameShape_def)

lemma evictLoop_res:
  assumes "0 < cap d" "distinct (order d)" "keysSeen d = set (order d)" "evictLoop cs d w = (d', w')"
  shows "d' = d\<lparr>order := newest (cap d) (order d), keysSeen := set (newest (cap d) (order d))\<rparr>"
  using assms
proof (induction cs d w rule: evictLoop.induct)
  case (1 cs d w)
  show ?case
  proof (cases "order d")
    case Nil
    with 1 show ?thesis by (simp add: evictLoop.simps newest_def)
  next
    case (Cons o' rest)
    show ?thesis
    proof (cases "int (length (order d)) > cap d")
      case False
      with 1 Cons show ?thesis by (simp add: evictLoop.simps [of cs d w] newest_def)
    next
      case True
      let ?d = "d\<lparr>order := rest, keysSeen := keysSeen d - {o'}\<rparr>"
      have run: "evictLoop cs ?d (mirrorDelete cs d o' w) = (d', w')"
        using 1(5) Cons True by (simp add: evictLoop.simps [of cs d w])
      have "keysSeen ?d = set (order ?d)" "distinct (order ?d)" using 1(3,4) Cons by auto
      from 1(1) [OF Cons True _ this(2,1) run] 1(2)
      have "d' = ?d\<lparr>order := newest (cap d) rest, keysSeen := set (newest (cap d) rest)\<rparr>" by simp
      moreover have "newest (cap d) (order d) = newest (cap d) rest"
        using True Cons 1(2) by (simp add: newest_def Suc_diff_le drop_Suc nat_le_iff)
      ultimately show ?thesis by simp
    qed
  qed
qed

lemma evict_res:
  assumes "distinct (order d)" "keysSeen d = set (order d)" "evictKeys cs d w = (d', w')"
  shows "order d' = newest (cap d) (order d) \<and> sameShape d d' \<and> firstPass d' = firstPass d \<and> dedupOk d'"
proof -
  have "d' = d\<lparr>order := newest (cap d) (order d), keysSeen := set (newest (cap d) (order d))\<rparr>"
    using assms evictLoop_res [of d cs w d' w'] by (cases "cap d \<le> 0") (auto simp: evictKeys_def newest_def)
  with assms(1) show ?thesis by (simp add: dedupOk_def newest_length sameShape_def) (simp add: newest_def)
qed

text \<open>One batch without the store: the reference.\<close>

fun remember :: "int \<Rightarrow> ('a \<Rightarrow> string) \<Rightarrow> 'a list \<Rightarrow> string list \<Rightarrow> string list \<times> 'a list" where
  "remember m key [] ks = (ks, [])"
| "remember m key (it # its) ks =
     (if key it \<in> set ks then remember m key its ks
      else (case remember m key its (newest m (ks @ [key it])) of (ks', out) \<Rightarrow> (ks', it # out)))"

lemma unseenLoop_res:
  assumes "dedupOk d" "unseenLoop cs its d w out = (d', w', out')" "remember (cap d) (keyOf d) its (order d) = (ks, fresh)"
  shows "order d' = ks \<and> sameShape d d' \<and> firstPass d' = firstPass d \<and> dedupOk d'
    \<and> out' = (if firstPass d then out else out @ fresh)"
  using assms
proof (induction its arbitrary: d w out ks fresh)
  case (Cons it its)
  let ?k = "keyOf d it"
  have d: "keysSeen d = set (order d)" "distinct (order d)" using Cons.prems(1) by (simp_all add: dedupOk_def)
  show ?case
  proof (cases "?k \<in> keysSeen d")
    case True
    with Cons.IH [OF Cons.prems(1)] Cons.prems(2,3) d show ?thesis by simp
  next
    case False
    let ?d1 = "d\<lparr>keysSeen := insert ?k (keysSeen d), order := order d @ [?k]\<rparr>"
    obtain d2 w2 where e: "evictKeys cs ?d1 (mirrorPut cs ?d1 ?k w) = (d2, w2)" by fastforce
    have "distinct (order ?d1)" "keysSeen ?d1 = set (order ?d1)" using d False by auto
    from evict_res [OF this e] have d2: "dedupOk d2" "order d2 = newest (cap d) (order d @ [?k])"
      "sameShape d d2" "firstPass d2 = firstPass d" by (simp_all add: sameShape_def)
    obtain ks' fresh' where r: "remember (cap d) (keyOf d) its (newest (cap d) (order d @ [?k])) = (ks', fresh')" by fastforce
    have f: "ks = ks'" "fresh = it # fresh'" using Cons.prems(3) False d r by simp_all
    have run: "unseenLoop cs its d2 w2 (if firstPass d then out else out @ [it]) = (d', w', out')"
      using Cons.prems(2) False e by (simp add: Let_def)
    from r d2 have "remember (cap d2) (keyOf d2) its (order d2) = (ks', fresh')" by (simp add: sameShape_def)
    from Cons.IH [OF d2(1) run this] d2(3,4) f show ?thesis by (simp add: sameShape_def)
  qed
qed simp

lemma Unseen_res:
  assumes "dedupOk d" "Unseen cs its d w = (d', w', out)" "remember (cap d) (keyOf d) its (order d) = (ks, fresh)"
  shows "order d' = ks \<and> sameShape d d' \<and> \<not> firstPass d' \<and> dedupOk d' \<and> out = (if firstPass d then [] else fresh)"
proof -
  obtain d1 w1 out1 where l: "unseenLoop cs its d w [] = (d1, w1, out1)" by (cases "unseenLoop cs its d w []") auto
  note L = unseenLoop_res [OF assms(1) l assms(3)]
  with assms(2) l show ?thesis by (cases "firstPass d") (auto simp: Unseen_def dedupOk_def sameShape_def)
qed

lemma dedupOk_NewDeduper: "dedupOk (NewDeduper key)"
  by (simp add: dedupOk_def NewDeduper_def defaultSeenCap_def)

definition rangesOver :: "((string \<rightharpoonup> entry) \<Rightarrow> string list) \<Rightarrow> bool" where
  "rangesOver iter \<longleftrightarrow> (\<forall>m. finite (dom m) \<longrightarrow> distinct (iter m) \<and> set (iter m) = dom m)"

section \<open>Each item once\<close>

text \<open>The first item of each key outside \<open>S\<close>.\<close>

fun firstOf :: "('a \<Rightarrow> string) \<Rightarrow> string set \<Rightarrow> 'a list \<Rightarrow> 'a list" where
  "firstOf key S [] = []"
| "firstOf key S (x # xs) = (if key x \<in> S then firstOf key S xs else x # firstOf key (insert (key x) S) xs)"

lemma firstOf_append: "firstOf key S (xs @ ys) = firstOf key S xs @ firstOf key (S \<union> key ` set xs) ys"
  by (induction xs arbitrary: S) (auto simp: insert_absorb)

lemma firstOf_keys: "key ` set (firstOf key S xs) = key ` set xs - S \<and> distinct (map key (firstOf key S xs))"
  by (induction xs arbitrary: S) auto

text \<open>With room for every key, the reference is \<open>firstOf\<close>.\<close>

lemma remember_room:
  assumes "distinct ks" "0 < m" "int (card (set ks \<union> key ` set its)) \<le> m"
  shows "\<exists>ks'. remember m key its ks = (ks', firstOf key (set ks) its) \<and> set ks' = set ks \<union> key ` set its \<and> distinct ks'"
  using assms
proof (induction its arbitrary: ks)
  case (Cons it its)
  show ?case
  proof (cases "key it \<in> set ks")
    case True
    with Cons show ?thesis by (simp add: insert_absorb)
  next
    case False
    let ?ks = "ks @ [key it]"
    have dist: "distinct ?ks" using Cons.prems(1) False by simp
    have eq: "set ?ks \<union> key ` set its = set ks \<union> key ` set (it # its)" by auto
    have "int (length ?ks) = int (card (set ?ks))" using dist by (simp only: distinct_card)
    also have "\<dots> \<le> int (card (set ks \<union> key ` set (it # its)))"
      unfolding eq [symmetric] of_nat_le_iff by (rule card_mono) auto
    finally have "newest m ?ks = ?ks" using Cons.prems(3) by (intro newest_id) linarith
    with Cons.IH [OF dist Cons.prems(2)] Cons.prems(3) eq False show ?thesis by auto
  qed
qed simp

lemma Unseen_room:
  assumes "dedupOk d" "0 < cap d" "int (card (keysSeen d \<union> keyOf d ` set its)) \<le> cap d" "Unseen cs its d w = (d', w', out)"
  shows "dedupOk d' \<and> sameShape d d' \<and> \<not> firstPass d' \<and> keysSeen d' = keysSeen d \<union> keyOf d ` set its
    \<and> out = (if firstPass d then [] else firstOf (keyOf d) (keysSeen d) its)"
proof -
  have d: "keysSeen d = set (order d)" "distinct (order d)" using assms(1) by (simp_all add: dedupOk_def)
  obtain ks where ks: "remember (cap d) (keyOf d) its (order d) = (ks, firstOf (keyOf d) (keysSeen d) its)"
    "set ks = keysSeen d \<union> keyOf d ` set its"
    using remember_room [OF d(2) assms(2), of "keyOf d" its] assms(3) unfolding d(1) by blast
  note U = Unseen_res [OF assms(1,4) ks(1)]
  then have "keysSeen d' = set ks" by (simp add: dedupOk_def)
  with U ks(2) show ?thesis by simp
qed

lemma unseenBatches_room:
  assumes "dedupOk d" "0 < cap d" "int (card (keysSeen d \<union> keyOf d ` set (concat bs))) \<le> cap d" "\<not> firstPass d"
    "unseenBatches cs bs d w = (d', w', outs)"
  shows "concat outs = firstOf (keyOf d) (keysSeen d) (concat bs) \<and> keysSeen d' = keysSeen d \<union> keyOf d ` set (concat bs)
    \<and> dedupOk d' \<and> sameShape d d' \<and> \<not> firstPass d'"
  using assms
proof (induction bs arbitrary: d w d' w' outs)
  case (Cons b bs)
  obtain d1 w1 out where u: "Unseen cs b d w = (d1, w1, out)" by (cases "Unseen cs b d w") auto
  obtain d2 w2 outs' where r: "unseenBatches cs bs d1 w1 = (d2, w2, outs')" by (cases "unseenBatches cs bs d1 w1") auto
  have o: "outs = out # outs'" "d' = d2" using Cons.prems(5) u r by simp_all
  have fin: "finite (keysSeen d \<union> keyOf d ` set (concat (b # bs)))" using Cons.prems(1) by (simp add: dedupOk_def)
  have "card (keysSeen d \<union> keyOf d ` set b) \<le> card (keysSeen d \<union> keyOf d ` set (concat (b # bs)))"
    by (rule card_mono [OF fin]) auto
  with Cons.prems(3) have "int (card (keysSeen d \<union> keyOf d ` set b)) \<le> cap d" by linarith
  note U = Unseen_room [OF Cons.prems(1,2) this u]
  have "keysSeen d1 \<union> keyOf d1 ` set (concat bs) = keysSeen d \<union> keyOf d ` set (concat (b # bs))"
    using U by (auto simp: sameShape_def)
  with Cons.IH [OF _ _ _ _ r] U Cons.prems(2,3) have
    "concat outs' = firstOf (keyOf d1) (keysSeen d1) (concat bs) \<and> keysSeen d2 = keysSeen d1 \<union> keyOf d1 ` set (concat bs)
      \<and> dedupOk d2 \<and> sameShape d1 d2 \<and> \<not> firstPass d2" by (simp add: sameShape_def)
  with U o Cons.prems(4) show ?case by (auto simp: firstOf_append sameShape_def)
qed (simp add: assms)

text \<open>Room or not, the first item of each key that was not remembered is announced, in order.\<close>

lemma remember_misses_nothing: "set ks \<subseteq> S \<Longrightarrow> subseq (firstOf key S its) (snd (remember m key its ks))"
proof (induction its arbitrary: ks S)
  case (Cons it its)
  have "set (newest m (ks @ [key it])) \<subseteq> insert (key it) S" using Cons.prems set_newest [of m "ks @ [key it]"] by auto
  note IH = Cons.IH [OF Cons.prems] Cons.IH [OF this]
  show ?case
  proof (cases "key it \<in> set ks")
    case True
    with Cons.prems IH(1) show ?thesis by auto
  next
    case False
    then show ?thesis using IH(2) by (cases "key it \<in> S") (auto simp: insert_absorb split: prod.splits)
  qed
qed simp

lemma Unseen_misses_nothing:
  assumes "dedupOk d" "\<not> firstPass d" "Unseen cs its d w = (d', w', out)"
  shows "subseq (firstOf (keyOf d) (keysSeen d) its) out"
proof -
  obtain ks fresh where r: "remember (cap d) (keyOf d) its (order d) = (ks, fresh)" by fastforce
  have "set (order d) \<subseteq> keysSeen d" using assms(1) by (simp add: dedupOk_def)
  from remember_misses_nothing [OF this, of "keyOf d" its "cap d"] Unseen_res [OF assms(1,3) r] assms(2) r
  show ?thesis by simp
qed

text \<open>Without room the order of the keys matters, and a restart does not keep it: the same remembered
  keys in another order forget another key first, and announce it again.\<close>

lemma order_matters_when_full:
  "snd (remember 2 (\<lambda>k. k) [''c'', ''a''] [''a'', ''b'']) = [''c'', ''a'']
   \<and> snd (remember 2 (\<lambda>k. k) [''c'', ''a''] [''b'', ''a'']) = [''c'']"
  by code_simp

section \<open>Restarts\<close>

definition marker :: "string \<Rightarrow> bool" where
  "marker k \<longleftrightarrow> k = seenInitKey \<or> k = legacySeenInitKey"

text \<open>The store holds, now and from now on, what the deduper remembers.\<close>

definition persisted :: "('s \<Rightarrow> time \<Rightarrow> string \<times> string \<rightharpoonup> string) \<Rightarrow> time \<Rightarrow> ('a, 's) deduper \<Rightarrow> 's \<Rightarrow> bool" where
  "persisted view t0 d s \<longleftrightarrow> (\<forall>k \<in> keysSeen d. \<not> marker k) \<and> (\<forall>t \<ge> t0.
       (\<forall>k. \<not> marker k \<longrightarrow> (view s t (dedupNs d, k) \<noteq> None \<longleftrightarrow> k \<in> keysSeen d))
     \<and> (firstPass d \<or> keysSeen d \<noteq> {} \<or> (\<exists>k. marker k \<and> view s t (dedupNs d, k) \<noteq> None)))"

lemma only_markers:
  "(\<not> (f a \<noteq> None \<or> f b \<noteq> None) \<and> {k. \<not> (k = a \<or> k = b) \<and> f k \<noteq> None} = {}) \<longleftrightarrow> (\<forall>k. f k = None)"
  unfolding Collect_empty_eq by metis

lemma persistedD:
  assumes "persisted view t0 d s" "t0 \<le> t"
  shows "\<forall>k \<in> keysSeen d. \<not> marker k"
    "\<not> marker k \<Longrightarrow> view s t (dedupNs d, k) \<noteq> None \<longleftrightarrow> k \<in> keysSeen d"
    "firstPass d \<or> keysSeen d \<noteq> {} \<or> (\<exists>k. marker k \<and> view s t (dedupNs d, k) \<noteq> None)"
  using assms unfolding persisted_def by blast+

locale reliable_kvspace = kvspace +
  fixes cs :: "nat \<Rightarrow> call" and good :: "'a \<Rightarrow> bool"
  assumes clock_mono: "i \<le> j \<Longrightarrow> now (cs i) \<le> now (cs j)"
    and put_ok: "usable s \<Longrightarrow> good s \<Longrightarrow> \<exists>s'. kvPut K (cs i) n k v 0 s = (Inr (), s') \<and> good s'"
    and delete_ok: "usable s \<Longrightarrow> good s \<Longrightarrow> \<exists>s'. kvDelete K (cs i) n k s = (Inr (), s') \<and> good s'"
    and list_ok: "usable s \<Longrightarrow> good s \<Longrightarrow> \<exists>m s'. kvList K (cs i) n s = (Inr m, s') \<and> good s'"
begin

definition steady :: "('b, 'a) deduper \<Rightarrow> 'a kvworld \<Rightarrow> bool" where
  "steady d w \<longleftrightarrow> usable (backing w) \<and> good (backing w) \<and> dedupKV d = Some K"

lemma mirrorPut_res:
  assumes "steady d w"
  shows "steady d (mirrorPut cs d k w) \<and> turn (mirrorPut cs d k w) = Suc (turn w)
    \<and> (\<forall>t \<ge> now (cs (turn w)). view (backing (mirrorPut cs d k w)) t = (view (backing w) t)((dedupNs d, k) \<mapsto> ''1''))"
proof -
  have w: "usable (backing w)" "good (backing w)" "dedupKV d = Some K" using assms by (simp_all add: steady_def)
  obtain s' where s': "kvPut K (cs (turn w)) (dedupNs d) k ''1'' 0 (backing w) = (Inr (), s')" "good s'"
    using put_ok [OF w(1,2)] by blast
  from put_law [OF w(1) s'(1)] s' w show ?thesis by (simp add: mirrorPut_def callKV_def steady_def)
qed

lemma mirrorDelete_res:
  assumes "steady d w"
  shows "steady d (mirrorDelete cs d k w) \<and> turn (mirrorDelete cs d k w) = Suc (turn w)
    \<and> (\<forall>t \<ge> now (cs (turn w)). view (backing (mirrorDelete cs d k w)) t = (view (backing w) t)((dedupNs d, k) := None))"
proof -
  have w: "usable (backing w)" "good (backing w)" "dedupKV d = Some K" using assms by (simp_all add: steady_def)
  obtain s' where s': "kvDelete K (cs (turn w)) (dedupNs d) k (backing w) = (Inr (), s')" "good s'"
    using delete_ok [OF w(1,2)] by blast
  from delete_law [OF w(1) s'(1)] s' w show ?thesis by (simp add: mirrorDelete_def callKV_def steady_def)
qed

definition inStep :: "('b, 'a) deduper \<Rightarrow> 'a kvworld \<Rightarrow> bool" where
  "inStep d w \<longleftrightarrow> steady d w \<and> persisted view (now (cs (turn w))) d (backing w)"

lemma later: "now (cs (Suc i)) \<le> t \<Longrightarrow> now (cs i) \<le> t"
  using clock_mono [of i "Suc i"] by simp

lemma inStep_put:
  assumes "inStep d w" "\<not> marker k" "d1 = d\<lparr>keysSeen := insert k (keysSeen d), order := order d @ [k]\<rparr>"
  shows "inStep d1 (mirrorPut cs d1 k w)"
proof -
  have s: "steady d1 w" using assms by (simp add: inStep_def steady_def)
  note P = mirrorPut_res [OF s, of k]
  have "view (backing (mirrorPut cs d1 k w)) t = (view (backing w) t)((dedupNs d, k) \<mapsto> ''1'')"
    if "now (cs (turn (mirrorPut cs d1 k w))) \<le> t" for t
    using P later that assms(3) by simp
  moreover have "now (cs (turn w)) \<le> t" if "now (cs (turn (mirrorPut cs d1 k w))) \<le> t" for t
    using P later that by simp
  ultimately show ?thesis using P assms(1,2) unfolding inStep_def persisted_def by (auto simp: assms(3))
qed

lemma inStep_mark:
  assumes "inStep d w"
  shows "inStep (d\<lparr>firstPass := False\<rparr>) (mirrorPut cs d seenInitKey w)"
proof -
  have s: "steady d w" using assms by (simp add: inStep_def)
  note P = mirrorPut_res [OF s, of seenInitKey]
  let ?w = "mirrorPut cs d seenInitKey w"
  have v: "view (backing ?w) t = (view (backing w) t)((dedupNs d, seenInitKey) \<mapsto> ''1'')" "now (cs (turn w)) \<le> t"
    if "now (cs (turn ?w)) \<le> t" for t
    using P later that by simp_all
  have m: "marker seenInitKey" by (simp add: marker_def)
  have "steady (d\<lparr>firstPass := False\<rparr>) ?w" using P by (simp add: steady_def)
  moreover have "persisted view (now (cs (turn ?w))) (d\<lparr>firstPass := False\<rparr>) (backing ?w)"
    using assms v m unfolding inStep_def persisted_def by auto
  ultimately show ?thesis by (simp add: inStep_def)
qed

lemma inStep_evictLoop:
  assumes "inStep d w" "0 < cap d" "distinct (order d)" "keysSeen d = set (order d)" "evictLoop cs d w = (d', w')"
  shows "inStep d' w'"
  using assms
proof (induction "length (order d)" arbitrary: d w rule: less_induct)
  case less
  show ?case
  proof (cases "order d")
    case Nil
    with less show ?thesis by (simp add: evictLoop.simps)
  next
    case (Cons o' rest)
    show ?thesis
    proof (cases "int (length (order d)) > cap d")
      case False
      with less Cons show ?thesis by (simp add: evictLoop.simps [of cs d w])
    next
      case True
      let ?d = "d\<lparr>order := rest, keysSeen := keysSeen d - {o'}\<rparr>" and ?w = "mirrorDelete cs d o' w"
      have run: "evictLoop cs ?d ?w = (d', w')" using less.prems(5) Cons True by (simp add: evictLoop.simps [of cs d w])
      have s: "steady d w" using less.prems(1) by (simp add: inStep_def)
      note D = mirrorDelete_res [OF s, of o']
      have v: "view (backing ?w) t = (view (backing w) t)((dedupNs d, o') := None)" "now (cs (turn w)) \<le> t"
        if "now (cs (turn ?w)) \<le> t" for t
        using D later that by simp_all
      have ne: "keysSeen d - {o'} = set rest" "rest \<noteq> []" using less.prems(2-4) Cons True by auto
      then have left: "\<not> keysSeen d \<subseteq> {o'}" by (auto simp: neq_Nil_conv)
      have "persisted view (now (cs (turn ?w))) ?d (backing ?w)"
        using less.prems(1) v left unfolding inStep_def persisted_def by auto
      then have "inStep ?d ?w" using D by (simp add: inStep_def steady_def)
      from less.hyps [OF _ this _ _ _ run] less.prems(2,3) Cons ne(1) show ?thesis by simp
    qed
  qed
qed

lemma inStep_evict:
  assumes "inStep d w" "distinct (order d)" "keysSeen d = set (order d)" "evictKeys cs d w = (d', w')"
  shows "inStep d' w'"
  using assms inStep_evictLoop [of d w d' w'] by (simp add: evictKeys_def split: if_splits)

lemma inStep_unseenLoop:
  assumes "inStep d w" "dedupOk d" "\<And>it. it \<in> set its \<Longrightarrow> \<not> marker (keyOf d it)" "unseenLoop cs its d w out = (d', w', out')"
  shows "inStep d' w'"
  using assms
proof (induction its arbitrary: d w out)
  case (Cons it its)
  let ?k = "keyOf d it"
  show ?case
  proof (cases "?k \<in> keysSeen d")
    case True
    with Cons show ?thesis by simp
  next
    case False
    let ?d1 = "d\<lparr>keysSeen := insert ?k (keysSeen d), order := order d @ [?k]\<rparr>"
    obtain d2 w2 where e: "evictKeys cs ?d1 (mirrorPut cs ?d1 ?k w) = (d2, w2)" by fastforce
    have o1: "distinct (order ?d1)" "keysSeen ?d1 = set (order ?d1)" using Cons.prems(2) False by (auto simp: dedupOk_def)
    have "inStep ?d1 (mirrorPut cs ?d1 ?k w)" using Cons.prems(1,3) by (intro inStep_put) simp_all
    then have i2: "inStep d2 w2" by (rule inStep_evict [OF _ o1 e])
    have run: "unseenLoop cs its d2 w2 (if firstPass d then out else out @ [it]) = (d', w', out')"
      using Cons.prems(4) False e by (simp add: Let_def)
    from evict_res [OF o1 e] have "dedupOk d2" "keyOf d2 = keyOf d" by (simp_all add: sameShape_def)
    with Cons.IH [OF i2 _ _ run] Cons.prems(3) show ?thesis by simp
  qed
qed simp

lemma inStep_Unseen:
  assumes "inStep d w" "dedupOk d" "\<And>it. it \<in> set its \<Longrightarrow> \<not> marker (keyOf d it)" "Unseen cs its d w = (d', w', out)"
  shows "inStep d' w'"
proof -
  obtain d1 w1 out1 where l: "unseenLoop cs its d w [] = (d1, w1, out1)" by (cases "unseenLoop cs its d w []") auto
  note L = inStep_unseenLoop [OF assms(1-3) l]
  with assms(4) l inStep_mark [OF L] show ?thesis by (auto simp: Unseen_def split: if_splits)
qed

lemma New_run:
  assumes "usable (backing w)" "good (backing w)" "rangesOver iter" "NewPersistentDeduper cs iter key (Some K) ns w = (d', w')"
  obtains left w1 where "distinct left" "set left = {k. \<not> marker k \<and> view (backing w) (now (cs (turn w))) (ns, k) \<noteq> None}"
    "steady ((NewDeduper key)\<lparr>dedupKV := Some K, dedupNs := ns,
        firstPass := (\<forall>k. view (backing w) (now (cs (turn w))) (ns, k) = None), keysSeen := set left, order := left\<rparr>) w1"
    "turn w1 = Suc (turn w)" "\<forall>t \<ge> now (cs (turn w)). view (backing w1) t = view (backing w) t"
    "evictKeys cs ((NewDeduper key)\<lparr>dedupKV := Some K, dedupNs := ns,
        firstPass := (\<forall>k. view (backing w) (now (cs (turn w))) (ns, k) = None), keysSeen := set left, order := left\<rparr>) w1 = (d', w')"
proof -
  obtain m s' where l: "kvList K (cs (turn w)) ns (backing w) = (Inr m, s')" "good s'" using list_ok [OF assms(1,2)] by blast
  note L = list_law [OF assms(1) l(1)]
  have m: "m k = None \<longleftrightarrow> view (backing w) (now (cs (turn w))) (ns, k) = None" for k
    using L by (metis option.map_disc_iff)
  have fin: "finite (dom (dropMarkers m))" using L by (simp add: dropMarkers_def)
  have dom: "dom (dropMarkers m) = {k. \<not> marker k \<and> view (backing w) (now (cs (turn w))) (ns, k) \<noteq> None}"
    by (rule set_eqI) (simp add: dropMarkers_def marker_def domIff m conj_ac del: not_None_eq)
  have left: "distinct (iter (dropMarkers m))" "set (iter (dropMarkers m)) = dom (dropMarkers m)"
    using assms(3) fin by (simp_all add: rangesOver_def)
  have fp: "(\<not> (m seenInitKey \<noteq> None \<or> m legacySeenInitKey \<noteq> None) \<and> iter (dropMarkers m) = [])
      \<longleftrightarrow> (\<forall>k. view (backing w) (now (cs (turn w))) (ns, k) = None)"
  proof -
    have none: "iter (dropMarkers m) = [] \<longleftrightarrow> dom (dropMarkers m) = {}" using left(2) by (metis set_empty)
    show ?thesis unfolding none dom m marker_def
      by (rule only_markers [of "\<lambda>k. view (backing w) (now (cs (turn w))) (ns, k)" seenInitKey legacySeenInitKey])
  qed
  show thesis
  proof (rule that [of "iter (dropMarkers m)" "\<lparr>backing = s', turn = Suc (turn w)\<rparr>", OF left(1) left(2) [unfolded dom]])
    show "evictKeys cs ((NewDeduper key)\<lparr>dedupKV := Some K, dedupNs := ns,
        firstPass := (\<forall>k. view (backing w) (now (cs (turn w))) (ns, k) = None), keysSeen := set (iter (dropMarkers m)),
        order := iter (dropMarkers m)\<rparr>) \<lparr>backing = s', turn = Suc (turn w)\<rparr> = (d', w')"
      using assms(4) l(1) unfolding fp [symmetric] by (simp add: NewPersistentDeduper_def callKV_def Let_def NewDeduper_def)
  qed (use L l(2) in \<open>simp_all add: steady_def\<close>)
qed

text \<open>A new deduper starts in step when what the namespace holds stays there.\<close>

lemma New_inStep:
  assumes "usable (backing w)" "good (backing w)" "rangesOver iter" "NewPersistentDeduper cs iter key (Some K) ns w = (d', w')"
    "\<And>t k. now (cs (turn w)) \<le> t \<Longrightarrow> view (backing w) t (ns, k) = view (backing w) (now (cs (turn w))) (ns, k)"
  shows "inStep d' w' \<and> dedupOk d' \<and> keyOf d' = key \<and> cap d' = defaultSeenCap \<and> dedupNs d' = ns
    \<and> keysSeen d' \<subseteq> {k. view (backing w) (now (cs (turn w))) (ns, k) \<noteq> None}"
proof -
  let ?fp = "\<forall>k. view (backing w) (now (cs (turn w))) (ns, k) = None"
  obtain left w1 where r: "distinct left" "set left = {k. \<not> marker k \<and> view (backing w) (now (cs (turn w))) (ns, k) \<noteq> None}"
    "steady ((NewDeduper key)\<lparr>dedupKV := Some K, dedupNs := ns, firstPass := ?fp, keysSeen := set left, order := left\<rparr>) w1"
    "turn w1 = Suc (turn w)" "\<forall>t \<ge> now (cs (turn w)). view (backing w1) t = view (backing w) t"
    "evictKeys cs ((NewDeduper key)\<lparr>dedupKV := Some K, dedupNs := ns, firstPass := ?fp, keysSeen := set left, order := left\<rparr>) w1 = (d', w')"
    by (rule New_run [OF assms(1-4)])
  let ?d = "(NewDeduper key)\<lparr>dedupKV := Some K, dedupNs := ns, firstPass := ?fp, keysSeen := set left, order := left\<rparr>"
  have v: "view (backing w1) t (ns, k) = view (backing w) (now (cs (turn w))) (ns, k)" if "now (cs (turn w1)) \<le> t" for t k
    using r(4,5) assms(5) [of t k] later [of "turn w" t] that by simp
  have "persisted view (now (cs (turn w1))) ?d (backing w1)"
    unfolding persisted_def using r(2) by (auto simp: v NewDeduper_def)
  then have "inStep ?d w1" using r(3) by (simp add: inStep_def)
  moreover have o1: "distinct (order ?d)" "keysSeen ?d = set (order ?d)" using r(1) by simp_all
  ultimately have "inStep d' w'" by (rule inStep_evict [OF _ _ _ r(6)])
  moreover have "keysSeen d' \<subseteq> set left"
    using evict_res [OF o1 r(6)] set_newest [of "cap ?d" "order ?d"] by (simp add: dedupOk_def)
  ultimately show ?thesis using evict_res [OF o1 r(6)] r(2) by (auto simp: sameShape_def NewDeduper_def)
qed

lemma restart_res:
  assumes "inStep d w" "dedupOk d" "\<not> firstPass d" "cap d = defaultSeenCap" "rangesOver iter"
    "NewPersistentDeduper cs iter key (Some K) (dedupNs d) w = (d', w')"
  shows "keysSeen d' = keysSeen d \<and> \<not> firstPass d' \<and> dedupOk d' \<and> keyOf d' = key \<and> cap d' = defaultSeenCap"
proof -
  let ?t = "now (cs (turn w))"
  let ?fp = "\<forall>k. view (backing w) ?t (dedupNs d, k) = None"
  have w: "usable (backing w)" "good (backing w)" using assms(1) by (simp_all add: inStep_def steady_def)
  obtain left w1 where r: "distinct left" "set left = {k. \<not> marker k \<and> view (backing w) ?t (dedupNs d, k) \<noteq> None}"
    "evictKeys cs ((NewDeduper key)\<lparr>dedupKV := Some K, dedupNs := dedupNs d, firstPass := ?fp, keysSeen := set left, order := left\<rparr>) w1
      = (d', w')"
    by (rule New_run [OF w assms(5,6)])
  let ?d = "(NewDeduper key)\<lparr>dedupKV := Some K, dedupNs := dedupNs d, firstPass := ?fp, keysSeen := set left, order := left\<rparr>"
  have P: "\<forall>k \<in> keysSeen d. \<not> marker k" "\<And>k. \<not> marker k \<Longrightarrow> view (backing w) ?t (dedupNs d, k) \<noteq> None \<longleftrightarrow> k \<in> keysSeen d"
    "firstPass d \<or> keysSeen d \<noteq> {} \<or> (\<exists>k. marker k \<and> view (backing w) ?t (dedupNs d, k) \<noteq> None)"
    using persistedD [OF _ order_refl] assms(1) unfolding inStep_def by metis+
  have left: "set left = keysSeen d" unfolding r(2) using P(1,2) by blast
  have "length left = length (order d)"
    using r(1) left assms(2) unfolding dedupOk_def by (metis distinct_card)
  then have "int (length left) \<le> defaultSeenCap" using assms(2,4) by (simp add: dedupOk_def defaultSeenCap_def)
  then have n: "newest (cap ?d) (order ?d) = left" by (simp add: NewDeduper_def newest_id)
  have o1: "distinct (order ?d)" "keysSeen ?d = set (order ?d)" using r(1) by simp_all
  have fp: "\<not> ?fp" using P(2,3) P(1) assms(3) by (metis ex_in_conv)
  have "\<not> firstPass ?d" "keyOf ?d = key" "cap ?d = defaultSeenCap" using fp by (simp_all add: NewDeduper_def)
  with evict_res [OF o1 r(3), unfolded n] have E: "order d' = left" "\<not> firstPass d'" "dedupOk d'" "keyOf d' = key" "cap d' = defaultSeenCap"
    unfolding sameShape_def by metis+
  then have "keysSeen d' = keysSeen d" using left by (simp add: dedupOk_def)
  with E show ?thesis by blast
qed

lemma inStep_batches:
  assumes "inStep d w" "dedupOk d" "\<And>it. it \<in> set (concat bs) \<Longrightarrow> \<not> marker (keyOf d it)" "unseenBatches cs bs d w = (d', w', outs)"
  shows "inStep d' w' \<and> dedupOk d' \<and> sameShape d d' \<and> (bs \<noteq> [] \<or> \<not> firstPass d \<longrightarrow> \<not> firstPass d')"
  using assms
proof (induction bs arbitrary: d w d' w' outs)
  case (Cons b bs)
  obtain d1 w1 out where u: "Unseen cs b d w = (d1, w1, out)" by (cases "Unseen cs b d w") auto
  obtain d2 w2 outs' where r: "unseenBatches cs bs d1 w1 = (d2, w2, outs')" by (cases "unseenBatches cs bs d1 w1") auto
  obtain ks fresh where m: "remember (cap d) (keyOf d) b (order d) = (ks, fresh)" by fastforce
  note U = Unseen_res [OF Cons.prems(2) u m]
  have i: "inStep d1 w1" by (rule inStep_Unseen [OF Cons.prems(1,2) _ u]) (use Cons.prems(3) in simp)
  have "\<not> marker (keyOf d1 it)" if "it \<in> set (concat bs)" for it
    using Cons.prems(3) [of it] that U by (simp add: sameShape_def)
  with Cons.IH [OF i _ _ r] U have "inStep d2 w2 \<and> dedupOk d2 \<and> sameShape d1 d2 \<and> \<not> firstPass d2" by simp
  moreover have "d' = d2" "w' = w2" using Cons.prems(4) u r by simp_all
  ultimately show ?case using U by (simp add: sameShape_def)
qed simp

end

section \<open>On the key/value store\<close>

text \<open>Calls that meet nothing unusual, on a clock that does not go back.\<close>

definition ticking :: "time \<Rightarrow> (nat \<Rightarrow> nat) \<Rightarrow> nat \<Rightarrow> call" where
  "ticking t0 step i = calmAt (t0 + (\<Sum>j<i. int (step j)))"

lemma ticking_mono: "i \<le> j \<Longrightarrow> now (ticking t0 step i) \<le> now (ticking t0 step j)"
  by (auto simp: ticking_def intro!: sum_mono2)

lemma kv_Delete_calm:
  assumes "storeOk s"
  shows "\<exists>s'. kv_Delete (calmAt t) n k s = (Inr (), s') \<and> storeOk s'"
  unfolding kv_Delete_def calmAt_simps
  using within_run [OF assms, of "andThen (exec noFaults (deleteWhere (\<lambda>r. rowKey r = (n, k)))) (\<lambda>_. ok ())"] assms
  by (fastforce simp: andThen_def exec_def noFaults_def deleteWhere_def storeOk_def idle_conn_def)

lemma kv_List_calm:
  assumes "storeOk s"
  shows "\<exists>m s'. kv_List ts (calmAt t) n s = (Inr m, s') \<and> storeOk s'"
  unfolding kv_List_def calmAt_simps sweepOn_def
  using within_run [OF assms, of "andThen (exec noFaults (deleteWhere (isExpired ts t))) (\<lambda>_.
      andThen (query noFaults (filter (\<lambda>r. rns r = n))) (\<lambda>rows. ok (collect rows Map.empty)))"] assms
  by (fastforce simp: andThen_def exec_def query_def noFaults_def deleteWhere_def storeOk_def idle_conn_def)

interpretation calm_store: reliable_kvspace "storeKV ts" "storeUsable ts" liveView "ticking t0 step" storeOk for ts t0 step
proof
  show "i \<le> j \<Longrightarrow> now (ticking t0 step i) \<le> now (ticking t0 step j)" for i j by (rule ticking_mono)
  show "storeOk s \<Longrightarrow> \<exists>s'. kvPut (storeKV ts) (ticking t0 step i) n k v 0 s = (Inr (), s') \<and> storeOk s'" for s i n k v
    using kv_Put_calm [of s] by (fastforce simp: storeKV_def ticking_def)
  show "storeOk s \<Longrightarrow> \<exists>s'. kvDelete (storeKV ts) (ticking t0 step i) n k s = (Inr (), s') \<and> storeOk s'" for s i n k
    using kv_Delete_calm [of s] by (simp add: storeKV_def ticking_def)
  show "storeOk s \<Longrightarrow> \<exists>m s'. kvList (storeKV ts) (ticking t0 step i) n s = (Inr m, s') \<and> storeOk s'" for s i n
    using kv_List_calm [of s] by (simp add: storeKV_def ticking_def)
qed

section \<open>Properties\<close>

text \<open>
  Claim C36.  A new deduper announces each item once.  Over any number of batches with at most 8192
  different keys in all, the first batch is announced not at all (it is the baseline) and the later ones
  together announce, in order, exactly the first item of each key that the first batch did not have,
  whatever the other batches repeat.
\<close>

theorem dedup_announces_each_once:
  assumes "card (key ` set (concat (b # bs))) \<le> 8192" "unseenBatches cs (b # bs) (NewDeduper key) w = (d, w', outs)"
  shows "hd outs = [] \<and> concat outs = firstOf key (key ` set b) (concat bs)
    \<and> distinct (map key (concat outs)) \<and> key ` set (concat outs) = key ` set (concat bs) - key ` set b"
proof -
  let ?d = "NewDeduper key :: ('a, 'b) deduper"
  obtain d1 w1 out where u: "Unseen cs b ?d w = (d1, w1, out)" by (cases "Unseen cs b ?d w") auto
  obtain d2 w2 outs' where r: "unseenBatches cs bs d1 w1 = (d2, w2, outs')" by (cases "unseenBatches cs bs d1 w1") auto
  have n: "keysSeen ?d = {}" "cap ?d = 8192" "keyOf ?d = key" "firstPass ?d" "dedupOk ?d"
    by (simp_all add: NewDeduper_def defaultSeenCap_def dedupOk_def)
  have "card (key ` set b) \<le> card (key ` set (concat (b # bs)))" by (rule card_mono) auto
  with assms(1) have U: "dedupOk d1" "sameShape ?d d1" "\<not> firstPass d1" "keysSeen d1 = key ` set b" "out = []"
    using Unseen_room [OF n(5) _ _ u] n by simp_all
  have "keysSeen d1 \<union> keyOf d1 ` set (concat bs) = key ` set (concat (b # bs))"
    using U n by (auto simp: sameShape_def)
  then have "int (card (keysSeen d1 \<union> keyOf d1 ` set (concat bs))) \<le> cap d1"
    using assms(1) U(2) n by (simp add: sameShape_def)
  from unseenBatches_room [OF U(1) _ this U(3) r] U(2,4) n
  have "concat outs' = firstOf key (key ` set b) (concat bs)" by (simp add: sameShape_def)
  moreover have "outs = out # outs'" using assms(2) u r by simp
  ultimately show ?thesis using U(5) firstOf_keys [of key "key ` set b" "concat bs"] by simp
qed

theorem dedup_announces_each_once_witness:
  "\<exists>d w outs. unseenBatches (ticking 0 (\<lambda>_. 1)) [[''a'', ''b''], [''b'', ''c''], [''c'', ''a'', ''d'']] (NewDeduper id)
      \<lparr>backing = (), turn = 0\<rparr> = (d, w, outs) \<and> concat outs = [''c'', ''d'']"
proof -
  obtain d w outs where run: "unseenBatches (ticking 0 (\<lambda>_. 1)) [[''a'', ''b''], [''b'', ''c''], [''c'', ''a'', ''d'']] (NewDeduper id)
      \<lparr>backing = (), turn = 0\<rparr> = (d, w, outs)" by (metis prod_cases3)
  have "card (id ` set (concat [[''a'', ''b''], [''b'', ''c''], [''c'', ''a'', ''d'']])) \<le> 8192" by (simp add: card_insert_if)
  from dedup_announces_each_once [OF this run] run show ?thesis by simp
qed

text \<open>
  Claim C37.  A restart repeats nothing while there is room, and misses nothing.  A deduper over the
  key/value store, restored after any batches (with at least one behind it) from what the store then holds,
  remembers exactly the keys the former one remembered and has no first pass.  Of the next batch it
  announces the first item of every key that is not remembered, in order, whether or not there is room;
  and with room for the keys of the batch (8192 in all) exactly these, which is what the former one would
  have announced.  Without room more may be announced, and other items than by the former one: which key is
  forgotten depends on the order, and a restart does not keep it (lemma \<open>order_matters_when_full\<close>).
  It needs that the store's calls succeed, that the namespace held nothing that was to expire, and that
  no item is named like a marker.
\<close>

theorem restarted_deduper_continues:
  fixes d1 d2 d3 d4 :: "('a, kvtable store) deduper"
  assumes "roundsDown ts" "storeOk s" "tableOk ts (committed (tablesOf s))" "rangesOver iter"
    and "\<And>t k. now (ticking t0 step i) \<le> t \<Longrightarrow> liveView s t (ns, k) = liveView s (now (ticking t0 step i)) (ns, k)"
    and "\<And>it. \<not> marker (key it)"
    and "NewPersistentDeduper (ticking t0 step) iter key (Some (storeKV ts)) ns \<lparr>backing = s, turn = i\<rparr> = (d1, w1)"
    and "unseenBatches (ticking t0 step) bs d1 w1 = (d2, w2, outs)" "bs \<noteq> []"
    and "NewPersistentDeduper (ticking t0 step) iter key (Some (storeKV ts)) ns w2 = (d3, w3)"
    and "Unseen (ticking t0 step) b d3 w3 = (d4, w4, out)"
  shows "keysSeen d3 = keysSeen d2 \<and> \<not> firstPass d3 \<and> subseq (firstOf key (keysSeen d2) b) out
    \<and> (card (keysSeen d2 \<union> key ` set b) \<le> 8192
        \<longrightarrow> out = firstOf key (keysSeen d2) b \<and> out = snd (snd (Unseen cs b d2 w)))"
proof -
  let ?w = "\<lparr>backing = s, turn = i\<rparr>"
  have s: "storeUsable ts (backing ?w)" "storeOk (backing ?w)"
    using assms(1-3) by (simp_all add: storeUsable_def storeOk_def)
  have still: "liveView (backing ?w) t (ns, k) = liveView (backing ?w) (now (ticking t0 step (turn ?w))) (ns, k)"
    if "now (ticking t0 step (turn ?w)) \<le> t" for t k
    using that unfolding kvworld.simps by (rule assms(5))
  have d1: "calm_store.inStep ts t0 step d1 w1" "dedupOk d1" "keyOf d1 = key" "cap d1 = defaultSeenCap" "dedupNs d1 = ns"
    using calm_store.New_inStep [OF s assms(4,7) still] by blast+
  have "\<not> marker (keyOf d1 it)" for it using assms(6) d1(3) by simp
  from calm_store.inStep_batches [OF d1(1,2) this assms(8)] assms(9)
  have d2: "calm_store.inStep ts t0 step d2 w2" "dedupOk d2" "sameShape d1 d2" "\<not> firstPass d2" by simp_all
  then have "cap d2 = defaultSeenCap" "dedupNs d2 = ns" "keyOf d2 = key" using d1 by (simp_all add: sameShape_def)
  note r = this
  from calm_store.restart_res [OF d2(1,2,4) r(1) assms(4) assms(10) [folded r(2)]]
  have d3: "keysSeen d3 = keysSeen d2" "\<not> firstPass d3" "dedupOk d3" "keyOf d3 = key" "cap d3 = defaultSeenCap" by simp_all
  have "subseq (firstOf key (keysSeen d2) b) out" using Unseen_misses_nothing [OF d3(3,2) assms(11)] d3 by simp
  moreover have "out = firstOf key (keysSeen d2) b \<and> out = snd (snd (Unseen cs b d2 w))"
    if card: "card (keysSeen d2 \<union> key ` set b) \<le> 8192"
  proof -
    have room: "int (card (keysSeen d2 \<union> keyOf d2 ` set b)) \<le> cap d2" "int (card (keysSeen d3 \<union> keyOf d3 ` set b)) \<le> cap d3"
      using card r d3 by (simp_all add: defaultSeenCap_def)
    obtain d5 w5 out5 where u: "Unseen cs b d2 w = (d5, w5, out5)" by (cases "Unseen cs b d2 w") auto
    show ?thesis using Unseen_room [OF d3(3) _ room(2) assms(11)] Unseen_room [OF d2(2) _ room(1) u] d2 d3 r u
      by (simp add: defaultSeenCap_def)
  qed
  ultimately show ?thesis using d3 by blast
qed

definition byName :: "(string \<rightharpoonup> entry) \<Rightarrow> string list" where
  "byName m = sorted_list_of_set (dom m)"

lemma rangesOver_byName: "rangesOver byName"
  by (simp add: rangesOver_def byName_def)

theorem restarted_deduper_continues_witness:
  "\<exists>d1 w1 d2 w2 outs d3 w3 d4 w4.
     NewPersistentDeduper (ticking 7000000 (\<lambda>_. 1)) byName (\<lambda>k. CHR ''k'' # k) (Some (storeKV micro)) ''seen''
        \<lparr>backing = freshStore sampleTable, turn = 0\<rparr> = (d1, w1)
   \<and> unseenBatches (ticking 7000000 (\<lambda>_. 1)) [[''1'', ''2'']] d1 w1 = (d2, w2, outs)
   \<and> NewPersistentDeduper (ticking 7000000 (\<lambda>_. 1)) byName (\<lambda>k. CHR ''k'' # k) (Some (storeKV micro)) ''seen'' w2 = (d3, w3)
   \<and> Unseen (ticking 7000000 (\<lambda>_. 1)) [''2'', ''3''] d3 w3 = (d4, w4, [''3''])"
proof -
  let ?cs = "ticking 7000000 (\<lambda>_. 1)" and ?key = "\<lambda>k. CHR ''k'' # k"
  let ?w = "\<lparr>backing = freshStore sampleTable, turn = 0\<rparr>"
  obtain d1 w1 where r1: "NewPersistentDeduper ?cs byName ?key (Some (storeKV micro)) ''seen'' ?w = (d1, w1)" by fastforce
  obtain d2 w2 outs where r2: "unseenBatches ?cs [[''1'', ''2'']] d1 w1 = (d2, w2, outs)" by (metis prod_cases3)
  obtain d3 w3 where r3: "NewPersistentDeduper ?cs byName ?key (Some (storeKV micro)) ''seen'' w2 = (d3, w3)" by fastforce
  obtain d4 w4 out where r4: "Unseen ?cs [''2'', ''3''] d3 w3 = (d4, w4, out)" by (metis prod_cases3)
  have none: "liveView (freshStore sampleTable) t (''seen'', k) = None" for t k
    by (simp add: liveView_def liveMap_def kvAbs_find sampleTable_def newRow_def rowKey_def)
  have mark: "\<not> marker (?key it)" for it by (simp add: marker_def seenInitKey_def legacySeenInitKey_def)
  have t: "tableOk micro (committed (tablesOf (freshStore sampleTable)))" by (simp add: tableOk_sample)
  have u: "storeUsable micro (backing ?w)" "storeOk (backing ?w)" by (simp_all add: storeUsable_def roundsDown_micro tableOk_sample)
  have d1: "calm_store.inStep micro 7000000 (\<lambda>_. 1) d1 w1" "dedupOk d1" "keyOf d1 = ?key" "cap d1 = 8192" "dedupNs d1 = ''seen''"
    and k1: "keysSeen d1 = {}"
    using calm_store.New_inStep [OF u rangesOver_byName r1] by (simp_all add: none defaultSeenCap_def)
  have "fst (Unseen ?cs [''1'', ''2''] d1 w1) = d2" using r2 by (auto split: prod.splits)
  then obtain w' out' where "Unseen ?cs [''1'', ''2''] d1 w1 = (d2, w', out')" by (metis eq_fst_iff prod_cases3)
  from Unseen_room [OF d1(2) _ _ this] d1 have k2: "keysSeen d2 = {''k1'', ''k2''}" by (simp add: k1 card_insert_if)
  have room: "card (keysSeen d2 \<union> ?key ` set [''2'', ''3'']) \<le> 8192" by (simp add: k2 card_insert_if)
  from restarted_deduper_continues [OF roundsDown_micro _ t rangesOver_byName _ mark r1 r2 _ r3 r4] room
  have "out = firstOf ?key (keysSeen d2) [''2'', ''3'']" by (simp add: none)
  then have "out = [''3'']" by (simp add: k2)
  with r1 r2 r3 r4 show ?thesis by blast
qed

end
