(* ===== verification/Subject.thy ===== *)
theory Subject
  imports Prelude "HOL-Library.Sublist"
begin

text \<open>
  The broadcaster of src/stream/subject.go as a state machine.  A channel is its buffer, its
  capacity, whether it is closed, whether a receiver is blocked on it, and what its receiver has got;
  a channel's name is its number.  The events are the communications that the goroutine of \<open>run\<close>
  and the methods take part in, in any order: a method whose \<open>select\<close> finds \<open>done\<close> closed takes that
  branch.  \<open>None\<close> is Go's panic: a send on, or a close of, a closed channel.  Ranging over the map of
  subscribers is a list here; the order is of no consequence since each turn touches one channel.
\<close>

record 'a chan =
  capacity :: nat
  buffer :: "'a list"
  shut :: bool
  parked :: bool
  got :: "'a list"

record 'a subject =
  chans :: "'a chan list"
  subs :: "nat list"
  stopToken :: bool
  doneClosed :: bool

definition NewSubject :: "'a subject" where
  "NewSubject = \<lparr>chans = [], subs = [], stopToken = False, doneClosed = False\<rparr>"

datatype 'a event =
    EvSubscribe int
  | EvUnsubscribe nat
  | EvNext 'a
  | EvClose
  | EvStop
  | EvReceive nat

section \<open>Channels\<close>

definition makeChan :: "int \<Rightarrow> 'a chan" where
  "makeChan n = \<lparr>capacity = nat n, buffer = [], shut = False, parked = False, got = []\<rparr>"

text \<open>\<open>close(ch)\<close>: a blocked receiver returns.\<close>

definition closeChan :: "'a chan \<Rightarrow> 'a chan option" where
  "closeChan ch = (if shut ch then None else Some (ch\<lparr>shut := True, parked := False\<rparr>))"

text \<open>\<open>select { case ch <- v: default: }\<close>.\<close>

definition offer :: "'a \<Rightarrow> 'a chan \<Rightarrow> 'a chan option" where
  "offer v ch =
     (if shut ch then None
      else if parked ch then Some (ch\<lparr>got := got ch @ [v], parked := False\<rparr>)
      else if length (buffer ch) < capacity ch then Some (ch\<lparr>buffer := buffer ch @ [v]\<rparr>)
      else Some ch)"

text \<open>A receive by the subscriber.\<close>

definition receive :: "'a chan \<Rightarrow> 'a chan" where
  "receive ch =
     (case buffer ch of
        v # vs \<Rightarrow> ch\<lparr>buffer := vs, got := got ch @ [v]\<rparr>
      | [] \<Rightarrow> if shut ch then ch else ch\<lparr>parked := True\<rparr>)"

definition onChan :: "nat \<Rightarrow> ('a chan \<Rightarrow> 'a chan option) \<Rightarrow> 'a chan list \<Rightarrow> 'a chan list option" where
  "onChan c f cs = (if c < length cs then map_option (\<lambda>ch. cs[c := ch]) (f (cs ! c)) else None)"

fun onChans :: "nat list \<Rightarrow> ('a chan \<Rightarrow> 'a chan option) \<Rightarrow> 'a chan list \<Rightarrow> 'a chan list option" where
  "onChans [] f cs = Some cs"
| "onChans (c # rest) f cs = (case onChan c f cs of None \<Rightarrow> None | Some cs' \<Rightarrow> onChans rest f cs')"

section \<open>The methods and the loop\<close>

definition Subscribe :: "int \<Rightarrow> 'a subject \<Rightarrow> 'a subject option" where
  "Subscribe n s =
     (let ch = makeChan (if n < 0 then 0 else n); c = length (chans s) in
      if doneClosed s then map_option (\<lambda>ch. s\<lparr>chans := chans s @ [ch]\<rparr>) (closeChan ch)
      else Some (s\<lparr>chans := chans s @ [ch], subs := subs s @ [c]\<rparr>))"

definition Unsubscribe :: "nat \<Rightarrow> 'a subject \<Rightarrow> 'a subject option" where
  "Unsubscribe c s =
     (if doneClosed s then Some s
      else if c \<in> set (subs s)
      then map_option (\<lambda>cs. s\<lparr>chans := cs, subs := removeAll c (subs s)\<rparr>) (onChan c closeChan (chans s))
      else Some s)"

definition Next :: "'a \<Rightarrow> 'a subject \<Rightarrow> 'a subject option" where
  "Next v s =
     (if doneClosed s then Some s
      else map_option (\<lambda>cs. s\<lparr>chans := cs\<rparr>) (onChans (subs s) (offer v) (chans s)))"

definition Close_subject :: "'a subject \<Rightarrow> 'a subject" where
  "Close_subject s = s\<lparr>stopToken := True\<rparr>"

text \<open>The loop takes the token of \<open>stop\<close>.\<close>

definition stopRun :: "'a subject \<Rightarrow> 'a subject option" where
  "stopRun s =
     (if doneClosed s \<or> \<not> stopToken s then Some s
      else map_option (\<lambda>cs. s\<lparr>chans := cs, subs := [], stopToken := False, doneClosed := True\<rparr>)
             (onChans (subs s) closeChan (chans s)))"

fun subjectStep :: "'a event \<Rightarrow> 'a subject \<Rightarrow> 'a subject option" where
  "subjectStep (EvSubscribe n) s = Subscribe n s"
| "subjectStep (EvUnsubscribe c) s = Unsubscribe c s"
| "subjectStep (EvNext v) s = Next v s"
| "subjectStep EvClose s = Some (Close_subject s)"
| "subjectStep EvStop s = stopRun s"
| "subjectStep (EvReceive c) s = Some (if c < length (chans s) then s\<lparr>chans := (chans s)[c := receive (chans s ! c)]\<rparr> else s)"

fun runEvents :: "'a event list \<Rightarrow> 'a subject \<Rightarrow> 'a subject option" where
  "runEvents [] s = Some s"
| "runEvents (e # es) s = (case subjectStep e s of None \<Rightarrow> None | Some s' \<Rightarrow> runEvents es s')"

text \<open>\<open>Pump\<close> publishes what it receives until the channel closes (the end of the list) or \<open>ctx\<close> is
  cancelled (\<open>None\<close>).\<close>

fun Pump :: "'a option list \<Rightarrow> 'a subject \<Rightarrow> 'a subject option" where
  "Pump [] s = Some s"
| "Pump (None # rest) s = Some s"
| "Pump (Some v # rest) s = (case Next v s of None \<Rightarrow> None | Some s' \<Rightarrow> Pump rest s')"

text \<open>What was published while \<open>c\<close> was subscribed.\<close>

fun offered :: "'a event list \<Rightarrow> 'a subject \<Rightarrow> nat \<Rightarrow> 'a list" where
  "offered [] s c = []"
| "offered (e # es) s c =
     (case e of EvNext v \<Rightarrow> if c \<in> set (subs s) then [v] else [] | _ \<Rightarrow> [])
     @ (case subjectStep e s of None \<Rightarrow> [] | Some s' \<Rightarrow> offered es s' c)"

text \<open>What of it the channel could take when it was published: its receiver was waiting, or its buffer had
  room at that moment.\<close>

definition hasRoom :: "'a chan \<Rightarrow> bool" where
  "hasRoom ch \<longleftrightarrow> parked ch \<or> length (buffer ch) < capacity ch"

fun accepted :: "'a event list \<Rightarrow> 'a subject \<Rightarrow> nat \<Rightarrow> 'a list" where
  "accepted [] s c = []"
| "accepted (e # es) s c =
     (case e of EvNext v \<Rightarrow> if c \<in> set (subs s) \<and> hasRoom (chans s ! c) then [v] else [] | _ \<Rightarrow> [])
     @ (case subjectStep e s of None \<Rightarrow> [] | Some s' \<Rightarrow> accepted es s' c)"

text \<open>The buffers the subscribers asked for, in order.\<close>

fun asked :: "'a event list \<Rightarrow> nat list" where
  "asked [] = []"
| "asked (EvSubscribe n # es) = nat n # asked es"
| "asked (e # es) = asked es"

section \<open>Lemmas\<close>

text \<open>A subscriber's channel is open, and every other one closed.\<close>

definition chanOk :: "'a chan \<Rightarrow> bool" where
  "chanOk ch \<longleftrightarrow> length (buffer ch) \<le> capacity ch \<and> (parked ch \<longrightarrow> buffer ch = [] \<and> \<not> shut ch)"

definition subjectOk :: "'a subject \<Rightarrow> bool" where
  "subjectOk s \<longleftrightarrow> distinct (subs s) \<and> set (subs s) \<subseteq> {..<length (chans s)} \<and> (\<forall>ch \<in> set (chans s). chanOk ch)
    \<and> (\<forall>c < length (chans s). shut (chans s ! c) \<longleftrightarrow> c \<notin> set (subs s)) \<and> (doneClosed s \<longrightarrow> subs s = [])"

lemma onChans_res:
  assumes "distinct cs" "set cs \<subseteq> {..<length hs}" "\<And>c. c \<in> set cs \<Longrightarrow> f (hs ! c) = Some (g (hs ! c))"
  shows "\<exists>hs'. onChans cs f hs = Some hs' \<and> length hs' = length hs
    \<and> (\<forall>c < length hs. hs' ! c = (if c \<in> set cs then g (hs ! c) else hs ! c))"
  using assms
proof (induction cs arbitrary: hs)
  case (Cons c cs)
  then have c: "onChan c f hs = Some (hs[c := g (hs ! c)])" "c \<notin> set cs" by (simp_all add: onChan_def)
  have "\<And>d. d \<in> set cs \<Longrightarrow> f (hs[c := g (hs ! c)] ! d) = Some (g (hs[c := g (hs ! c)] ! d))"
    using Cons.prems(3) c(2) by (metis list.set_intros(2) nth_list_update_neq)
  with Cons.IH [of "hs[c := g (hs ! c)]"] Cons.prems(1,2) obtain hs' where
    h: "onChans cs f (hs[c := g (hs ! c)]) = Some hs'" "length hs' = length hs"
      "\<forall>d < length hs. hs' ! d = (if d \<in> set cs then g (hs[c := g (hs ! c)] ! d) else hs[c := g (hs ! c)] ! d)"
    by auto
  show ?case
  proof (intro exI conjI)
    show "onChans (c # cs) f hs = Some hs'" using c h(1) by simp
    show "\<forall>d < length hs. hs' ! d = (if d \<in> set (c # cs) then g (hs ! d) else hs ! d)"
      using h(3) c(2) Cons.prems(2) by (auto simp: nth_list_update)
  qed (rule h(2))
qed simp

definition content :: "'a subject \<Rightarrow> nat \<Rightarrow> 'a list" where
  "content s c = (if c < length (chans s) then got (chans s ! c) @ buffer (chans s ! c) else [])"

definition offeredNow :: "'a event \<Rightarrow> 'a subject \<Rightarrow> nat \<Rightarrow> 'a list" where
  "offeredNow e s c = (case e of EvNext v \<Rightarrow> if c \<in> set (subs s) then [v] else [] | _ \<Rightarrow> [])"

definition acceptedNow :: "'a event \<Rightarrow> 'a subject \<Rightarrow> nat \<Rightarrow> 'a list" where
  "acceptedNow e s c =
     (case e of EvNext v \<Rightarrow> if c \<in> set (subs s) \<and> hasRoom (chans s ! c) then [v] else [] | _ \<Rightarrow> [])"

text \<open>One turn: it does not panic, keeps the invariant, and adds to a channel's content what was
  published to it, if there was room; every subscription makes one channel of the size asked for.\<close>

definition turnOk :: "'a event \<Rightarrow> 'a subject \<Rightarrow> 'a subject \<Rightarrow> bool" where
  "turnOk e s s' \<longleftrightarrow> subjectOk s' \<and> map capacity (chans s') = map capacity (chans s) @ asked [e]
    \<and> (\<forall>c. content s' c = content s c @ acceptedNow e s c)"

lemma acceptedNow_quiet: "(\<And>v. e \<noteq> EvNext v) \<Longrightarrow> acceptedNow e s c = []"
  by (cases e) (auto simp: acceptedNow_def)

lemma onClosed:
  assumes "subjectOk s" "distinct cs" "set cs \<subseteq> set (subs s)"
  shows "\<exists>hs. onChans cs closeChan (chans s) = Some hs \<and> length hs = length (chans s)
    \<and> (\<forall>c < length (chans s). hs ! c = (if c \<in> set cs then (chans s ! c)\<lparr>shut := True, parked := False\<rparr> else chans s ! c))"
proof (rule onChans_res [OF assms(2)])
  show "set cs \<subseteq> {..<length (chans s)}" using assms(1,3) by (auto simp: subjectOk_def)
  show "closeChan (chans s ! c) = Some ((chans s ! c)\<lparr>shut := True, parked := False\<rparr>)" if "c \<in> set cs" for c
    using assms(1,3) that by (auto simp: subjectOk_def closeChan_def)
qed

lemma turn_closed:
  assumes "subjectOk s" "distinct cs" "set cs \<subseteq> set (subs s)" "onChans cs closeChan (chans s) = Some hs"
    "subs s' = filter (\<lambda>c. c \<notin> set cs) (subs s)" "chans s' = hs" "doneClosed s' \<longrightarrow> subs s' = []"
    "\<And>v. e \<noteq> EvNext v" "asked [e] = []"
  shows "turnOk e s s'"
proof -
  have h: "length hs = length (chans s)"
    "\<And>c. c < length (chans s) \<Longrightarrow> hs ! c = (if c \<in> set cs then (chans s ! c)\<lparr>shut := True, parked := False\<rparr> else chans s ! c)"
    using onClosed [OF assms(1-3)] assms(4) by auto
  have "chanOk ch" if mem: "ch \<in> set hs" for ch
  proof -
    obtain c where "c < length hs" "hs ! c = ch" using mem unfolding in_set_conv_nth by blast
    then have c: "c < length (chans s)" "ch = hs ! c" using h(1) by simp_all
    then have "chanOk (chans s ! c)" using assms(1) by (simp add: subjectOk_def)
    with c h(2) [OF c(1)] show ?thesis by (simp add: chanOk_def split: if_splits)
  qed
  then have "subjectOk s'" using assms(1,3,5-7) h by (auto simp: subjectOk_def)
  moreover have "map capacity hs = map capacity (chans s)" by (rule nth_equalityI) (simp_all add: h)
  ultimately show ?thesis using assms(6,9) h acceptedNow_quiet [OF assms(8)] by (simp add: turnOk_def content_def)
qed

definition offerOpen :: "'a \<Rightarrow> 'a chan \<Rightarrow> 'a chan" where
  "offerOpen v ch = (if parked ch then ch\<lparr>got := got ch @ [v], parked := False\<rparr>
     else if length (buffer ch) < capacity ch then ch\<lparr>buffer := buffer ch @ [v]\<rparr> else ch)"

lemma turn_next:
  assumes "subjectOk s" "\<not> doneClosed s"
  shows "\<exists>s'. Next v s = Some s' \<and> turnOk (EvNext v) s s'"
proof -
  have s: "distinct (subs s)" "set (subs s) \<subseteq> {..<length (chans s)}" "\<And>ch. ch \<in> set (chans s) \<Longrightarrow> chanOk ch"
    "\<And>c. c < length (chans s) \<Longrightarrow> shut (chans s ! c) \<longleftrightarrow> c \<notin> set (subs s)"
    using assms(1) by (auto simp: subjectOk_def)
  have o1: "offer v (chans s ! c) = Some (offerOpen v (chans s ! c))" if "c \<in> set (subs s)" for c
    using s(2,4) that by (auto simp: offer_def offerOpen_def)
  obtain hs where h: "onChans (subs s) (offer v) (chans s) = Some hs" "length hs = length (chans s)"
    "\<And>c. c < length (chans s) \<Longrightarrow> hs ! c = (if c \<in> set (subs s) then offerOpen v (chans s ! c) else chans s ! c)"
    using onChans_res [of "subs s" "chans s" "offer v" "offerOpen v", OF s(1,2) o1] by blast
  have ok: "chanOk (hs ! c)" "shut (hs ! c) = shut (chans s ! c)" "capacity (hs ! c) = capacity (chans s ! c)"
    if "c < length (chans s)" for c
    using s(3) [OF nth_mem [OF that]] by (auto simp: h(3) [OF that] chanOk_def offerOpen_def)
  let ?s = "s\<lparr>chans := hs\<rparr>"
  have "subjectOk ?s" using assms s ok h(2) by (auto simp: subjectOk_def in_set_conv_nth)
  moreover have "content ?s c = content s c @ acceptedNow (EvNext v) s c" for c
  proof (cases "c < length (chans s)")
    case True
    then have "chanOk (chans s ! c)" using s(3) by simp
    then show ?thesis using h(2) h(3) [OF True] True
      by (auto simp: content_def acceptedNow_def hasRoom_def offerOpen_def chanOk_def)
  next
    case False
    then show ?thesis using h(2) s(2) by (auto simp: content_def acceptedNow_def)
  qed
  moreover have "map capacity hs = map capacity (chans s)" by (rule nth_equalityI) (simp_all add: h(2) ok(3))
  ultimately have "turnOk (EvNext v) s ?s" unfolding turnOk_def by simp
  with assms(2) h(1) show ?thesis by (simp add: Next_def)
qed

lemma turnOk_refl: "subjectOk s \<Longrightarrow> (\<And>c. acceptedNow e s c = []) \<Longrightarrow> asked [e] = [] \<Longrightarrow> turnOk e s s"
  by (simp add: turnOk_def)

lemma turn_subscribe: "subjectOk s \<Longrightarrow> \<exists>s'. Subscribe n s = Some s' \<and> turnOk (EvSubscribe n) s s'"
proof -
  assume s: "subjectOk s"
  let ?ch = "makeChan (if n < 0 then 0 else n) :: 'a chan"
  have cap: "capacity ?ch = nat n" by (simp add: makeChan_def)
  have "turnOk (EvSubscribe n) s (s\<lparr>chans := chans s @ [?ch\<lparr>shut := True\<rparr>]\<rparr>)" if "doneClosed s"
    using s that cap
    by (auto simp: turnOk_def acceptedNow_quiet subjectOk_def content_def makeChan_def chanOk_def nth_append less_Suc_eq)
  moreover have "turnOk (EvSubscribe n) s (s\<lparr>chans := chans s @ [?ch], subs := subs s @ [length (chans s)]\<rparr>)"
    if "\<not> doneClosed s"
    using s that cap
    by (auto simp: turnOk_def acceptedNow_quiet subjectOk_def content_def makeChan_def chanOk_def nth_append less_Suc_eq)
  ultimately show ?thesis by (auto simp: Subscribe_def closeChan_def makeChan_def Let_def)
qed

lemma turn_unsubscribe: "subjectOk s \<Longrightarrow> \<exists>s'. Unsubscribe c s = Some s' \<and> turnOk (EvUnsubscribe c) s s'"
proof (cases "doneClosed s \<or> c \<notin> set (subs s)")
  case True
  assume "subjectOk s"
  with True show ?thesis by (auto simp: Unsubscribe_def turnOk_refl acceptedNow_quiet)
next
  case False
  assume s: "subjectOk s"
  from False have c: "distinct [c]" "set [c] \<subseteq> set (subs s)" by simp_all
  obtain hs where h: "onChans [c] closeChan (chans s) = Some hs" using onClosed [OF s c] by blast
  then have "Unsubscribe c s = Some (s\<lparr>chans := hs, subs := removeAll c (subs s)\<rparr>)"
    using False by (simp add: Unsubscribe_def split: option.splits)
  moreover have "turnOk (EvUnsubscribe c) s (s\<lparr>chans := hs, subs := removeAll c (subs s)\<rparr>)"
    by (rule turn_closed [OF s c h]) (use False in \<open>auto simp: removeAll_filter_not_eq intro!: filter_cong\<close>)
  ultimately show ?thesis by blast
qed

lemma turn_stop: "subjectOk s \<Longrightarrow> \<exists>s'. stopRun s = Some s' \<and> turnOk EvStop s s'"
proof (cases "doneClosed s \<or> \<not> stopToken s")
  case True
  assume "subjectOk s"
  with True show ?thesis by (simp add: stopRun_def turnOk_refl acceptedNow_quiet)
next
  case False
  assume s: "subjectOk s"
  then have d: "distinct (subs s)" by (simp add: subjectOk_def)
  obtain hs where h: "onChans (subs s) closeChan (chans s) = Some hs" using onClosed [OF s d] by blast
  have "turnOk EvStop s (s\<lparr>chans := hs, subs := [], stopToken := False, doneClosed := True\<rparr>)"
    by (rule turn_closed [OF s d _ h]) simp_all
  with False h show ?thesis by (simp add: stopRun_def)
qed

lemma receive_res:
  "chanOk ch \<Longrightarrow> chanOk (receive ch) \<and> shut (receive ch) = shut ch \<and> capacity (receive ch) = capacity ch
    \<and> got (receive ch) @ buffer (receive ch) = got ch @ buffer ch"
  by (auto simp: chanOk_def receive_def split: list.splits)

lemma turn_receive:
  assumes "subjectOk s" "c < length (chans s)"
  shows "turnOk (EvReceive c) s (s\<lparr>chans := (chans s)[c := receive (chans s ! c)]\<rparr>)" (is "turnOk _ _ ?s")
proof -
  let ?ch = "receive (chans s ! c)"
  have "chanOk (chans s ! c)" using assms by (simp add: subjectOk_def)
  then have r: "chanOk ?ch" "shut ?ch = shut (chans s ! c)" "capacity ?ch = capacity (chans s ! c)"
    "got ?ch @ buffer ?ch = got (chans s ! c) @ buffer (chans s ! c)"
    using receive_res by blast+
  have "set (chans ?s) \<subseteq> insert ?ch (set (chans s))" by (simp add: set_update_subset_insert)
  moreover have "shut (chans ?s ! d) = shut (chans s ! d)" for d
    using r(2) assms(2) by (cases "d = c") simp_all
  ultimately have "subjectOk ?s" using assms(1) r(1) unfolding subjectOk_def by auto
  moreover have "content ?s d = content s d" for d using r(4) assms(2) by (cases "d = c") (simp_all add: content_def)
  moreover have "map capacity (chans ?s) = map capacity (chans s)"
    using r(3) assms(2) by (simp add: map_update list_update_same_conv)
  ultimately show ?thesis by (simp add: turnOk_def acceptedNow_quiet)
qed

lemma turn_any:
  assumes "subjectOk s"
  shows "\<exists>s'. subjectStep e s = Some s' \<and> turnOk e s s'"
proof (cases e)
  case (EvNext v)
  show ?thesis
  proof (cases "doneClosed s")
    case True
    then have "acceptedNow e s c = []" for c using assms by (simp add: EvNext acceptedNow_def subjectOk_def)
    with True assms show ?thesis by (simp add: EvNext Next_def turnOk_refl)
  next
    case False
    with turn_next [OF assms False, of v] show ?thesis by (simp add: EvNext)
  qed
next
  case EvClose
  with assms show ?thesis
    by (simp add: Close_subject_def turnOk_def subjectOk_def content_def acceptedNow_quiet)
next
  case (EvReceive c)
  with assms turn_receive [OF assms, of c] show ?thesis by (simp add: turnOk_refl acceptedNow_quiet)
qed (use assms turn_subscribe turn_unsubscribe turn_stop in simp_all)

text \<open>A whole run: what the channels have got or still hold is what they could take, exactly.\<close>

lemma asked_Cons: "asked (e # es) = asked [e] @ asked es"
  by (cases e) simp_all

lemma run_any:
  assumes "subjectOk s"
  shows "\<exists>sf. runEvents es s = Some sf \<and> subjectOk sf \<and> map capacity (chans sf) = map capacity (chans s) @ asked es
    \<and> (\<forall>c. content sf c = content s c @ accepted es s c)"
  using assms
proof (induction es arbitrary: s)
  case (Cons e es)
  obtain s1 where s1: "subjectStep e s = Some s1" "turnOk e s s1" using turn_any [OF Cons.prems] by blast
  then have t: "subjectOk s1" "map capacity (chans s1) = map capacity (chans s) @ asked [e]"
    "\<And>c. content s1 c = content s c @ acceptedNow e s c" by (simp_all add: turnOk_def)
  from Cons.IH [OF t(1)] s1(1) t(2,3) show ?case
    by (auto simp: acceptedNow_def asked_Cons [of e es])
qed auto

lemma accepted_offered: "subseq (accepted es s c) (offered es s c)"
proof (induction es arbitrary: s)
  case (Cons e es)
  then show ?case by (cases "subjectStep e s") (auto split: event.split intro!: list_emb_append_mono)
qed simp

text \<open>
  Claim C38.  The subject never panics, never reorders and drops only for want of room.  Whatever the order
  in which subscriptions, unsubscriptions, publications, receptions, \<open>Close\<close> and the loop's stop interleave,
  no channel is closed twice or sent on after it was closed; what a subscriber has received, followed by what
  its buffer still holds, is exactly the values that were published while it was subscribed and while it was
  waiting or its buffer had room, in order; its buffer has the size it asked for and never holds more; its
  channel is closed exactly when it is not subscribed any more, and after the stop none is subscribed.
\<close>

theorem subject_delivers_in_order:
  "\<exists>s. runEvents evs NewSubject = Some s
    \<and> map capacity (chans s) = asked evs
    \<and> (\<forall>c < length (chans s).
         got (chans s ! c) @ buffer (chans s ! c) = accepted evs NewSubject c
       \<and> subseq (accepted evs NewSubject c) (offered evs NewSubject c)
       \<and> length (buffer (chans s ! c)) \<le> capacity (chans s ! c)
       \<and> (shut (chans s ! c) \<longleftrightarrow> c \<notin> set (subs s)))
    \<and> (doneClosed s \<longrightarrow> subs s = [])"
proof -
  have n: "subjectOk (NewSubject :: 'a subject)" "\<And>c. content (NewSubject :: 'a subject) c = []"
    "chans (NewSubject :: 'a subject) = []"
    by (simp_all add: NewSubject_def subjectOk_def content_def)
  obtain s where s: "runEvents evs NewSubject = Some s" "subjectOk s" "map capacity (chans s) = asked evs"
    and c: "\<And>c. content s c = accepted evs NewSubject c"
    using run_any [OF n(1), of evs] unfolding n(2,3) by auto
  have "got (chans s ! c) @ buffer (chans s ! c) = accepted evs NewSubject c
      \<and> length (buffer (chans s ! c)) \<le> capacity (chans s ! c)
      \<and> (shut (chans s ! c) \<longleftrightarrow> c \<notin> set (subs s))" if "c < length (chans s)" for c
    using c [of c] s(2) that nth_mem [OF that] unfolding subjectOk_def chanOk_def content_def by auto
  with s accepted_offered show ?thesis unfolding subjectOk_def by auto
qed

definition sampleEvents :: "nat event list" where
  "sampleEvents = [EvSubscribe 2, EvNext 1, EvReceive 0, EvSubscribe (-1), EvNext 2, EvReceive 1, EvNext 3, EvNext 4,
     EvUnsubscribe 0, EvNext 5, EvClose, EvNext 6, EvStop, EvNext 7, EvSubscribe 1, EvUnsubscribe 1, EvClose]"

theorem subject_delivers_in_order_witness:
  "case runEvents sampleEvents NewSubject of None \<Rightarrow> False | Some s \<Rightarrow>
     map got (chans s) = [[1], [3], []] \<and> map buffer (chans s) = [[2, 3], [], []] \<and> map shut (chans s) = [True, True, True]
     \<and> accepted sampleEvents NewSubject 0 = [1, 2, 3]"
proof -
  have run: "case runEvents sampleEvents NewSubject of None \<Rightarrow> False | Some s \<Rightarrow>
     map got (chans s) = [[1], [3], []] \<and> map buffer (chans s) = [[2, 3], [], []] \<and> map shut (chans s) = [True, True, True]"
    by code_simp
  obtain s where s: "runEvents sampleEvents NewSubject = Some s"
    and d: "c < length (chans s) \<Longrightarrow> got (chans s ! c) @ buffer (chans s ! c) = accepted sampleEvents NewSubject c" for c
    using subject_delivers_in_order [of sampleEvents] by blast
  from run s have m: "map got (chans s) = [[1], [3], []]" "map buffer (chans s) = [[2, 3], [], []]" by simp_all
  then have l: "0 < length (chans s)" by (metis length_map length_greater_0_conv list.distinct(1))
  then have "got (chans s ! 0) = [1]" "buffer (chans s ! 0) = [2, 3]" using m by (metis nth_Cons_0 nth_map)+
  with d [OF l] run s show ?thesis by simp
qed

end
