(* ===== verification/Streams.thy ===== *)
theory Streams
  imports Dedup Subject
begin

text \<open>
  The pipelines of src/stream: \<open>Poll\<close> and \<open>Run\<close> (stream.go), \<open>PollAdaptive\<close> (persist.go), \<open>Source\<close>
  (source.go) and \<open>FanIn\<close> (stream.go).  A polling goroutine is a function of what its rounds meet: the
  result of the step, whether the receiver takes the emission or \<open>ctx\<close> ends first, and whether the timer
  fires or \<open>ctx\<close> ends first; the emissions are those that were taken.  A list of rounds is a run up
  to its end or to any moment.
\<close>

record 'a Emission =
  Items :: "'a list"
  Err :: "err option"

record 'a pollRound =
  stepItems :: "'a list"
  stepNext :: duration
  stepErr :: "err option"
  taken :: bool
  fired :: bool

definition pollInterval :: "duration \<Rightarrow> duration" where
  "pollInterval interval = (if interval \<le> 0 then 60 * second else interval)"

text \<open>What \<open>tick\<close> sends: nothing for an empty result.\<close>

definition tickEmission :: "'a pollRound \<Rightarrow> 'a Emission option" where
  "tickEmission r =
     (if stepErr r \<noteq> None then Some \<lparr>Items = [], Err = stepErr r\<rparr>
      else if stepItems r = [] then None
      else Some \<lparr>Items = stepItems r, Err = None\<rparr>)"

text \<open>\<open>tick\<close>: what was emitted, and whether to go on.\<close>

definition pollTick :: "'a pollRound \<Rightarrow> 'a Emission list \<times> bool" where
  "pollTick r = (case tickEmission r of None \<Rightarrow> ([], True) | Some e \<Rightarrow> if taken r then ([e], True) else ([], False))"

fun Poll :: "'a pollRound list \<Rightarrow> 'a Emission list" where
  "Poll [] = []"
| "Poll (r # rs) = (case pollTick r of (es, again) \<Rightarrow> es @ (if again \<and> fired r then Poll rs else []))"

text \<open>The adaptive loop also gives the delays it set its timer to.\<close>

fun adaptLoop :: "duration \<Rightarrow> 'a pollRound list \<Rightarrow> 'a Emission list \<times> duration list" where
  "adaptLoop cur [] = ([], [])"
| "adaptLoop cur (r # rs) =
     (let cur = (if stepNext r > 0 then stepNext r else cur) in
      case pollTick r of (es, again) \<Rightarrow>
        if \<not> again then (es, [])
        else if \<not> fired r then (es, [cur])
        else (case adaptLoop cur rs of (es', ds) \<Rightarrow> (es @ es', cur # ds)))"

definition PollAdaptive :: "duration \<Rightarrow> 'a pollRound list \<Rightarrow> 'a Emission list \<times> duration list" where
  "PollAdaptive interval rs = adaptLoop (pollInterval interval) rs"

section \<open>Run\<close>

text \<open>What each turn meets: \<open>ctx\<close> done, the channel closed, or an event; \<open>handle\<close> changes the state \<open>'s\<close>.\<close>

datatype 'a arrival = CtxDone | ChanClosed | Arrived 'a

fun runHandler :: "('a \<Rightarrow> ('s, err, unit) act) \<Rightarrow> 'a arrival list \<Rightarrow> ('s, err, unit) act" where
  "runHandler handle [] = ok ()"
| "runHandler handle (CtxDone # rest) = ok ()"
| "runHandler handle (ChanClosed # rest) = ok ()"
| "runHandler handle (Arrived ev # rest) = andThen (handle ev) (\<lambda>_. runHandler handle rest)"

section \<open>Source\<close>

record ('a, 's) source =
  Interval :: duration
  adaptive :: bool
  Key :: "('a \<Rightarrow> string) option"
  KVStore :: "'s kvIface option"
  SourceNs :: string

definition sourcePoll :: "('a, 's) source \<Rightarrow> 'a pollRound list \<Rightarrow> 'a Emission list" where
  "sourcePoll src rs = (if adaptive src then fst (PollAdaptive (Interval src) rs) else Poll rs)"

definition sourceDeduper :: "(nat \<Rightarrow> call) \<Rightarrow> ((string \<rightharpoonup> entry) \<Rightarrow> string list) \<Rightarrow> ('a, 's) source \<Rightarrow> ('a \<Rightarrow> string)
    \<Rightarrow> 's kvworld \<Rightarrow> ('a, 's) deduper \<times> 's kvworld" where
  "sourceDeduper cs iter src key w =
     (if KVStore src \<noteq> None then NewPersistentDeduper cs iter key (KVStore src) (SourceNs src) w else (NewDeduper key, w))"

text \<open>The filtering goroutine; the flag says whether the receiver takes the emission or \<open>ctx\<close> ends.\<close>

fun sourceLoop :: "(nat \<Rightarrow> call) \<Rightarrow> ((string \<rightharpoonup> entry) \<Rightarrow> string list) \<Rightarrow> ('a, 's) source \<Rightarrow> ('a \<Rightarrow> string)
    \<Rightarrow> ('a Emission \<times> bool) list \<Rightarrow> ('a, 's) deduper option \<Rightarrow> 's kvworld \<Rightarrow> 'a Emission list" where
  "sourceLoop cs iter src key [] dd w = []"
| "sourceLoop cs iter src key ((e, go) # ems) dd w =
     (if Err e \<noteq> None
      then (if go then e # sourceLoop cs iter src key ems dd w else [])
      else
        case (case dd of Some d \<Rightarrow> (d, w) | None \<Rightarrow> sourceDeduper cs iter src key w) of (d, w1) \<Rightarrow>
        case Unseen cs (Items e) d w1 of (d1, w2, items) \<Rightarrow>
          if items = [] then sourceLoop cs iter src key ems (Some d1) w2
          else if go then e\<lparr>Items := items\<rparr> # sourceLoop cs iter src key ems (Some d1) w2
          else [])"

definition source_Run :: "(nat \<Rightarrow> call) \<Rightarrow> ((string \<rightharpoonup> entry) \<Rightarrow> string list) \<Rightarrow> ('a, 's) source \<Rightarrow> 'a pollRound list
    \<Rightarrow> bool list \<Rightarrow> 's kvworld \<Rightarrow> 'a Emission list" where
  "source_Run cs iter src rs gos w =
     (case Key src of
        None \<Rightarrow> sourcePoll src rs
      | Some key \<Rightarrow> sourceLoop cs iter src key (zip (sourcePoll src rs) gos) None w)"

section \<open>FanIn\<close>

text \<open>
  One goroutine per input: what is still to come on it, the value in hand, and whether it has
  returned.  The output tags a value with its input.
\<close>

record 'a feeder =
  coming :: "'a list"
  hand :: "'a option"
  returned :: bool

record 'a fan =
  feeders :: "'a feeder list"
  merged :: "(nat \<times> 'a) list"
  cancelled :: bool

datatype fanEvent = FanTake nat | FanSend nat | FanCancel | FanReturn nat

definition FanIn :: "'a list list \<Rightarrow> 'a fan" where
  "FanIn inputs = \<lparr>feeders = map (\<lambda>xs. \<lparr>coming = xs, hand = None, returned = False\<rparr>) inputs, merged = [], cancelled = False\<rparr>"

text \<open>The first \<open>select\<close> of goroutine \<open>i\<close>: a value or the end of a closed channel.  Once \<open>ctx\<close> is cancelled
  either \<open>select\<close> may choose to return instead (\<open>FanReturn\<close>).\<close>

definition fanTake :: "'a feeder \<Rightarrow> 'a feeder" where
  "fanTake f = (if returned f \<or> hand f \<noteq> None then f
     else case coming f of [] \<Rightarrow> f\<lparr>returned := True\<rparr> | v # vs \<Rightarrow> f\<lparr>coming := vs, hand := Some v\<rparr>)"

fun fanStep :: "fanEvent \<Rightarrow> 'a fan \<Rightarrow> 'a fan" where
  "fanStep (FanTake i) s = (if i < length (feeders s) then s\<lparr>feeders := (feeders s)[i := fanTake (feeders s ! i)]\<rparr> else s)"
| "fanStep (FanSend i) s =
     (if i < length (feeders s) \<and> \<not> returned (feeders s ! i)
      then (case hand (feeders s ! i) of
          None \<Rightarrow> s
        | Some v \<Rightarrow> s\<lparr>feeders := (feeders s)[i := (feeders s ! i)\<lparr>hand := None\<rparr>], merged := merged s @ [(i, v)]\<rparr>)
      else s)"
| "fanStep FanCancel s = s\<lparr>cancelled := True\<rparr>"
| "fanStep (FanReturn i) s =
     (if i < length (feeders s) \<and> cancelled s then s\<lparr>feeders := (feeders s)[i := (feeders s ! i)\<lparr>returned := True\<rparr>]\<rparr> else s)"

definition fanClosed :: "'a fan \<Rightarrow> bool" where
  "fanClosed s \<longleftrightarrow> (\<forall>f \<in> set (feeders s). returned f)"

section \<open>Lemmas\<close>

text \<open>An emission is a batch or an error, never both and never neither.\<close>

lemma Poll_emissions: "e \<in> set (Poll rs) \<Longrightarrow> (Err e = None) \<longleftrightarrow> (Items e \<noteq> [])"
  by (induction rs) (auto simp: pollTick_def tickEmission_def split: option.splits if_splits prod.splits)

text \<open>The timer is never set to a delay that is not positive.\<close>

lemma adaptLoop_delays: "0 < cur \<Longrightarrow> x \<in> set (snd (adaptLoop cur rs)) \<Longrightarrow> 0 < x"
proof (induction rs arbitrary: cur)
  case (Cons r rs)
  then show ?case by (cases "stepNext r > 0") (auto simp: Let_def split: prod.splits if_splits)
qed simp

lemma PollAdaptive_delays: "x \<in> set (snd (PollAdaptive interval rs)) \<Longrightarrow> 0 < x"
proof -
  have "0 < pollInterval interval" by (simp add: pollInterval_def duration_defs)
  then show "x \<in> set (snd (PollAdaptive interval rs)) \<Longrightarrow> 0 < x"
    unfolding PollAdaptive_def by (rule adaptLoop_delays)
qed

text \<open>Without a requested delay, the adaptive loop emits what \<open>Poll\<close> emits.\<close>

lemma adaptLoop_Poll: "fst (adaptLoop cur rs) = Poll rs"
proof (induction rs arbitrary: cur)
  case (Cons r rs)
  obtain es again where t: "pollTick r = (es, again)" by fastforce
  let ?cur = "if stepNext r > 0 then stepNext r else cur"
  obtain es' ds where l: "adaptLoop ?cur rs = (es', ds)" by fastforce
  with Cons.IH [of ?cur] have "es' = Poll rs" by simp
  with t l show ?case by (simp add: Let_def)
qed simp

text \<open>What of input \<open>i\<close> came out, is in hand, or is still to come is the input, in order.\<close>

definition fanOf :: "'a fan \<Rightarrow> nat \<Rightarrow> 'a list" where
  "fanOf s i = map snd (filter (\<lambda>p. fst p = i) (merged s)) @ (case hand (feeders s ! i) of None \<Rightarrow> [] | Some v \<Rightarrow> [v])
     @ coming (feeders s ! i)"

lemma fanStep_keeps: "i < length (feeders s) \<Longrightarrow> fanOf (fanStep e s) i = fanOf s i \<and> length (feeders (fanStep e s)) = length (feeders s)"
proof (cases e)
  case (FanTake j)
  assume i: "i < length (feeders s)"
  show ?thesis
  proof (cases "i = j")
    case True
    with i FanTake show ?thesis
      by (cases "coming (feeders s ! j)") (auto simp: fanOf_def fanTake_def)
  qed (use i FanTake in \<open>simp add: fanOf_def\<close>)
next
  case (FanSend j)
  assume i: "i < length (feeders s)"
  then show ?thesis using FanSend by (cases "i = j") (auto simp: fanOf_def split: option.splits)
next
  case (FanReturn j)
  then show ?thesis by (cases "i = j") (auto simp: fanOf_def)
qed (simp add: fanOf_def)

lemma fan_runs: "i < length (feeders s) \<Longrightarrow> fanOf (fold fanStep es s) i = fanOf s i"
proof (induction es arbitrary: s)
  case (Cons e es)
  with fanStep_keeps [of i s e] show ?case by simp
qed simp

text \<open>Each input comes out in its own order; once closed without a cancellation, completely.\<close>

lemma FanIn_order:
  assumes "i < length inputs"
  shows "\<exists>rest. map snd (filter (\<lambda>p. fst p = i) (merged (fold fanStep es (FanIn inputs)))) @ rest = inputs ! i"
proof -
  have "fanOf (fold fanStep es (FanIn inputs)) i = inputs ! i"
    using fan_runs [of i "FanIn inputs" es] assms by (simp add: FanIn_def fanOf_def)
  then show ?thesis unfolding fanOf_def by blast
qed

end
