(* ===== verification/ConfigEnv.thy ===== *)
theory ConfigEnv
  imports ConfigFiles
begin

text \<open>
  The environment overrides of src/config/config.go: the schema that \<open>buildEnvNode\<close> reads off the
  target's type by reflection, the resolution of a variable's name in it, and the document of
  overrides that \<open>ParseInto\<close> lays over the file.  A Go type is the datatype \<open>goType\<close>, a value found by
  reflection \<open>goVal\<close> (\<open>None\<close> is the invalid value); a recursive type is its unfolding, which the bound
  \<open>envMaxDepth\<close> makes finite.  Maps are association lists.  The library koanf (parsers, merging, decoding into
  the target) is the parameter \<open>koanfLib\<close>.
\<close>

section \<open>Documents, types and vals\<close>

datatype doc = DStr gostr | DOther | DMap "(gostr \<times> doc) list"

datatype goType =
    TStruct "(gostr \<times> gostr option \<times> bool \<times> goType) list"
  | TMap bool goType
  | TPtr goType
  | TOther

datatype goVal =
    VStruct "goVal list"
  | VMap "(gostr \<times> goVal) list"
  | VNilMap
  | VPtr goVal
  | VNilPtr
  | VIface goVal
  | VNilIface
  | VOther

datatype envNode = Node (children: "(gostr \<times> envNode) list") (normalized: "(gostr \<times> gostr) list")
  (dynamicKey: "gostr list") (dynamicVal: "envNode option")

abbreviation emptyNode :: envNode where
  "emptyNode \<equiv> Node [] [] [] None"

abbreviation dynamic :: "envNode \<Rightarrow> bool" where
  "dynamic n \<equiv> dynamicVal n \<noteq> None"

definition envMaxDepth :: nat where "envMaxDepth = 12"

section \<open>The schema\<close>

definition envSeparators :: "gostr" where
  "envSeparators = lit ''_-.+ ''"

definition normalizeEnvKey :: "unicode \<Rightarrow> gostr \<Rightarrow> gostr" where
  "normalizeEnvKey U s = filter (\<lambda>r. r \<notin> set envSeparators) (ToLower U s)"

text \<open>A field is its name, its koanf tag, whether it is exported, and its type.\<close>

definition envFieldName :: "unicode \<Rightarrow> gostr \<Rightarrow> gostr option \<Rightarrow> gostr \<times> bool" where
  "envFieldName U fname tag =
     (case tag of
        None \<Rightarrow> (ToLower U fname, False)
      | Some tg \<Rightarrow>
          let parts = Split1 44 tg; name = hd parts; squash = lit ''squash'' \<in> set (tl parts) in
          if name = [] \<and> \<not> squash then (ToLower U fname, False) else (name, squash))"

definition childMap :: "(gostr \<times> doc) list option \<Rightarrow> gostr \<Rightarrow> (gostr \<times> doc) list option" where
  "childMap existing name =
     (case existing of None \<Rightarrow> None | Some m \<Rightarrow> (case map_of m name of Some (DMap sub) \<Rightarrow> Some sub | _ \<Rightarrow> None))"

fun derefValue :: "goVal option \<Rightarrow> goVal option" where
  "derefValue (Some (VPtr v)) = derefValue (Some v)"
| "derefValue (Some VNilPtr) = None"
| "derefValue v = v"

text \<open>The loop over pointers: the type, and the value as far as it goes.\<close>

fun ptrElem :: "goVal option \<Rightarrow> goVal option" where
  "ptrElem (Some (VPtr v)) = Some v"
| "ptrElem _ = None"

fun stripPtr :: "goType \<Rightarrow> goVal option \<Rightarrow> goType \<times> goVal option" where
  "stripPtr (TPtr t) v = stripPtr t (ptrElem v)"
| "stripPtr t v = (t, v)"

fun unwrapIface :: "goVal option \<Rightarrow> goVal option" where
  "unwrapIface (Some (VIface v)) = Some v"
| "unwrapIface (Some VNilIface) = None"
| "unwrapIface v = v"

fun fieldValues :: "goVal option \<Rightarrow> nat \<Rightarrow> goVal option list" where
  "fieldValues (Some (VStruct vs)) n = map Some vs"
| "fieldValues _ n = replicate n None"

definition mapKeys :: "goVal option \<Rightarrow> gostr list" where
  "mapKeys v = (case v of Some (VMap m) \<Rightarrow> map fst m | _ \<Rightarrow> [])"

fun addKeys :: "gostr list \<Rightarrow> gostr list \<Rightarrow> gostr list" where
  "addKeys [] found = found"
| "addKeys (k # ks) found = addKeys ks (if k = [] \<or> k \<in> set found then found else found @ [k])"

definition addChild :: "unicode \<Rightarrow> gostr \<Rightarrow> envNode \<Rightarrow> envNode \<Rightarrow> envNode" where
  "addChild U name child n =
     (if map_of (children n) name \<noteq> None then n
      else let norm = normalizeEnvKey U name in
        Node (children n @ [(name, child)])
          (if norm \<noteq> [] \<and> map_of (normalized n) norm = None then normalized n @ [(norm, name)] else normalized n)
          (dynamicKey n) (dynamicVal n))"

fun tsize :: "goType \<Rightarrow> nat" where
  "tsize (TStruct fs) = Suc (sum_list (map (\<lambda>(_, _, _, t). Suc (tsize t)) fs))"
| "tsize (TMap b t) = Suc (tsize t)"
| "tsize (TPtr t) = Suc (tsize t)"
| "tsize TOther = 0"

definition fieldsSize :: "(gostr \<times> gostr option \<times> bool \<times> goType) list \<Rightarrow> nat" where
  "fieldsSize fs = sum_list (map (\<lambda>(_, _, _, t). Suc (tsize t)) fs)"

lemma stripPtr_tsize: "tsize (fst (stripPtr t v)) \<le> tsize t"
  by (induction t v rule: stripPtr.induct) auto

lemma stripPtr_struct: "stripPtr t v = (t', v') \<Longrightarrow> t' = TStruct gs \<Longrightarrow> fieldsSize gs < tsize t"
  using stripPtr_tsize [of t v] by (simp add: fieldsSize_def)

lemma stripPtr_struct_fst: "fst (stripPtr t v) = TStruct gs \<Longrightarrow> fieldsSize gs < tsize t"
  using stripPtr_tsize [of t v] by (simp add: fieldsSize_def)

lemma stripPtr_map: "stripPtr t v = (t', v') \<Longrightarrow> t' = TMap b e \<Longrightarrow> tsize e < tsize t"
  using stripPtr_tsize [of t v] by simp

function (sequential) buildEnvNode :: "unicode \<Rightarrow> goType \<Rightarrow> goVal option \<Rightarrow> (gostr \<times> doc) list option \<Rightarrow> nat \<Rightarrow> envNode"
  and addStructFields :: "unicode \<Rightarrow> (gostr \<times> gostr option \<times> bool \<times> goType) list \<Rightarrow> goVal option list
    \<Rightarrow> (gostr \<times> doc) list option \<Rightarrow> nat \<Rightarrow> envNode \<Rightarrow> envNode" where
  "buildEnvNode U t v existing depth =
     (if depth > envMaxDepth then emptyNode
      else case stripPtr t v of (t', v') \<Rightarrow>
        (let w = unwrapIface v' in
         case t' of
           TStruct fs \<Rightarrow> addStructFields U fs (fieldValues w (length fs)) existing depth emptyNode
         | TMap strKey e \<Rightarrow>
             if \<not> strKey then emptyNode
             else Node [] [] (sort (addKeys (map fst (or_default existing [])) (addKeys (mapKeys w) [])))
                    (Some (buildEnvNode U e None None (Suc depth)))
         | _ \<Rightarrow> emptyNode))"
| "addStructFields U ((fname, tag, exported, ft) # fs) vs existing depth n =
     (let fv = (case vs of [] \<Rightarrow> None | v # _ \<Rightarrow> v); rest = tl vs in
      if \<not> exported then addStructFields U fs rest existing depth n
      else case envFieldName U fname tag of (name, squash) \<Rightarrow>
        if name = lit ''-'' then addStructFields U fs rest existing depth n
        else if squash then
          (case fst (stripPtr ft None) of
             TStruct gs \<Rightarrow>
               if depth \<le> envMaxDepth
               then addStructFields U fs rest existing depth
                      (addStructFields U gs (fieldValues (derefValue fv) (length gs)) existing depth n)
               else addStructFields U fs rest existing depth n
           | _ \<Rightarrow> addStructFields U fs rest existing depth n)
        else if name = [] then addStructFields U fs rest existing depth n
        else addStructFields U fs rest existing depth
               (addChild U name (buildEnvNode U ft fv (childMap existing name) (Suc depth)) n))"
| "addStructFields U [] vs existing depth n = n"
  by pat_completeness auto

termination
  by (relation "measure (case_sum (\<lambda>(U, t, v, ex, d). tsize t) (\<lambda>(U, fs, vs, ex, d, n). fieldsSize fs))")
    (auto dest: stripPtr_struct stripPtr_struct_fst stripPtr_map [OF sym] stripPtr_struct [OF sym] simp: fieldsSize_def)

declare buildEnvNode.simps [simp del]

definition newEnvSchema :: "unicode \<Rightarrow> (goType \<times> goVal) option \<Rightarrow> (gostr \<times> doc) list \<Rightarrow> envNode" where
  "newEnvSchema U target existing =
     (case target of None \<Rightarrow> emptyNode | Some (t, v) \<Rightarrow> buildEnvNode U t (Some v) (Some existing) 0)"

section \<open>Resolution\<close>

definition leaf :: "envNode \<Rightarrow> bool" where
  "leaf n \<longleftrightarrow> children n = [] \<and> \<not> dynamic n"

definition envTokens :: "unicode \<Rightarrow> gostr \<Rightarrow> gostr list" where
  "envTokens U rest = filter (\<lambda>tok. tok \<noteq> []) (Split1 95 (ToLower U rest))"

definition matchNames :: "unicode \<Rightarrow> envNode \<Rightarrow> gostr list \<Rightarrow> gostr list" where
  "matchNames U n tokens =
     (if children n = [] then []
      else
        let joined = Join tokens [95];
            out = (if map_of (children n) joined \<noteq> None then [joined] else []) in
        (case map_of (normalized n) (normalizeEnvKey U (Join tokens [])) of
           Some name \<Rightarrow> if out = [] \<or> hd out \<noteq> name then out @ [name] else out
         | None \<Rightarrow> out))"

text \<open>
  One candidate after the other, each with what the rest of the tokens resolves to: the first that is
  settable is taken (\<open>Inl\<close>), else the first section is remembered.  A nil path is \<open>None\<close>.
\<close>

fun pickFirst :: "(gostr \<times> gostr list option \<times> bool) list \<Rightarrow> gostr list option \<Rightarrow> gostr list + gostr list option" where
  "pickFirst [] section' = Inr section'"
| "pickFirst ((name, None, good) # cands) section' = pickFirst cands section'"
| "pickFirst ((name, Some rest, good) # cands) section' =
     (if good then Inl (name # rest)
      else pickFirst cands (if section' = None then Some (name # rest) else section'))"

text \<open>The prefixes of the tokens, longest first, with the names that match each.\<close>

definition staticCands :: "unicode \<Rightarrow> envNode \<Rightarrow> gostr list \<Rightarrow> (gostr \<times> nat) list" where
  "staticCands U n tokens =
     concat (map (\<lambda>i. map (\<lambda>name. (name, i)) (matchNames U n (take i tokens))) (rev [1..<Suc (length tokens)]))"

definition dynamicCands :: "unicode \<Rightarrow> envNode \<Rightarrow> gostr list \<Rightarrow> (gostr \<times> nat) list" where
  "dynamicCands U n tokens =
     concat (map (\<lambda>i. map (\<lambda>key. (key, i))
         (filter (\<lambda>key. normalizeEnvKey U key = normalizeEnvKey U (Join (take i tokens) [])) (dynamicKey n)))
       (rev [1..<Suc (length tokens)]))"

lemma child_size: "map_of (children n) name = Some c \<Longrightarrow> size c < size n"
proof (cases n)
  case (Node ch nm dk dv)
  assume "map_of (children n) name = Some c"
  then have "(name, c) \<in> set ch" using Node by (simp add: map_of_SomeD)
  then have "size c < size_list (size_prod (\<lambda>_. 0) size) ch" by (induction ch) auto
  with Node show ?thesis by simp
qed

lemma dynamicVal_size: "dynamicVal n = Some c \<Longrightarrow> size c < size n"
  by (cases n) auto

function resolve :: "unicode \<Rightarrow> envNode \<Rightarrow> gostr list \<Rightarrow> gostr list option \<times> bool" where
  "resolve U n tokens =
     (if tokens = [] then (Some [], leaf n)
      else case pickFirst (map (\<lambda>(name, i). (name,
               case map_of (children n) name of None \<Rightarrow> (None, False) | Some c \<Rightarrow> resolve U c (drop i tokens)))
             (staticCands U n tokens)) None of
        Inl path \<Rightarrow> (Some path, True)
      | Inr section' \<Rightarrow>
          (case dynamicVal n of
             None \<Rightarrow> (section', False)
           | Some dv \<Rightarrow>
               (case pickFirst (map (\<lambda>(key, i). (key, resolve U dv (drop i tokens))) (dynamicCands U n tokens)) section' of
                  Inl path \<Rightarrow> (Some path, True)
                | Inr section' \<Rightarrow>
                    if section' \<noteq> None then (section', False)
                    else if leaf dv then (Some [Join tokens [46]], True)
                    else (None, False))))"
  by pat_completeness auto
termination
  by (relation "measure (\<lambda>(U, n, tokens). size n)") (auto dest: child_size dynamicVal_size)

declare resolve.simps [simp del]

section \<open>Overrides\<close>

text \<open>\<open>setEnvPath\<close> on a document; the path is not empty.\<close>

definition putKey :: "gostr \<Rightarrow> doc \<Rightarrow> (gostr \<times> doc) list \<Rightarrow> (gostr \<times> doc) list" where
  "putKey k d m = (if map_of m k = None then m @ [(k, d)] else map (\<lambda>(k', d'). (k', if k' = k then d else d')) m)"

fun setEnvPath :: "(gostr \<times> doc) list \<Rightarrow> gostr list \<Rightarrow> gostr \<Rightarrow> (gostr \<times> doc) list" where
  "setEnvPath m [] val = m"
| "setEnvPath m [seg] val = putKey seg (DStr val) m"
| "setEnvPath m (seg # path) val =
     putKey seg (DMap (setEnvPath (case map_of m seg of Some (DMap sub) \<Rightarrow> sub | _ \<Rightarrow> []) path val)) m"

text \<open>The variables with the prefix: names in order of appearance, each with its last value.\<close>

fun scanEnviron :: "gostr \<Rightarrow> gostr list \<Rightarrow> gostr list \<Rightarrow> (gostr \<rightharpoonup> gostr) \<Rightarrow> gostr list \<times> (gostr \<rightharpoonup> gostr)" where
  "scanEnviron prefix [] names vals = (names, vals)"
| "scanEnviron prefix (entry # env) names vals =
     (case Index1 61 entry of
        None \<Rightarrow> scanEnviron prefix env names vals
      | Some eq \<Rightarrow>
          let name = take eq entry in
          if eq = 0 \<or> \<not> HasPrefix name prefix \<or> name = prefix then scanEnviron prefix env names vals
          else scanEnviron prefix env (if vals name = None then names @ [name] else names)
                 (vals(name \<mapsto> drop (Suc eq) entry)))"

record parseOptions =
  envKeyMapper :: "(gostr \<Rightarrow> gostr list) option"

text \<open>One variable's path; the loop also gives the calls of the warning callback.\<close>

definition envPath :: "unicode \<Rightarrow> parseOptions \<Rightarrow> envNode \<Rightarrow> gostr \<Rightarrow> gostr \<Rightarrow> gostr list \<times> bool" where
  "envPath U o' schema prefix name =
     (case envKeyMapper o' of
        Some mapper \<Rightarrow> (mapper name, True)
      | None \<Rightarrow> (case resolve U schema (envTokens U (drop (length prefix) name)) of (p, good) \<Rightarrow> (or_default p [], good)))"

fun overrideLoop :: "unicode \<Rightarrow> parseOptions \<Rightarrow> envNode \<Rightarrow> gostr \<Rightarrow> (gostr \<rightharpoonup> gostr) \<Rightarrow> gostr list
    \<Rightarrow> (gostr \<times> doc) list \<Rightarrow> (gostr \<times> gostr list) list \<Rightarrow> (gostr \<times> doc) list \<times> (gostr \<times> gostr list) list" where
  "overrideLoop U o' schema prefix vals [] m warned = (m, warned)"
| "overrideLoop U o' schema prefix vals (name # names) m warned =
     (case envPath U o' schema prefix name of (path, settable) \<Rightarrow>
        if path = [] then overrideLoop U o' schema prefix vals names m warned
        else if \<not> settable then overrideLoop U o' schema prefix vals names m (warned @ [(name, path)])
        else overrideLoop U o' schema prefix vals names (setEnvPath m path (or_default (vals name) [])) warned)"

record ('k, 't) koanfLib =
  newKoanf :: 'k
  loadRaw :: "bool \<Rightarrow> bytes \<Rightarrow> 'k \<Rightarrow> err + 'k"
  rawOf :: "'k \<Rightarrow> (gostr \<times> doc) list"
  marshalDoc :: "(gostr \<times> doc) list \<Rightarrow> err + bytes"
  unmarshalInto :: "'k \<Rightarrow> 't \<Rightarrow> err + 't"
  reflected :: "'t \<Rightarrow> (goType \<times> goVal) option"

definition envOverrides :: "unicode \<Rightarrow> parseOptions \<Rightarrow> (goType \<times> goVal) option \<Rightarrow> (gostr \<times> doc) list \<Rightarrow> gostr \<Rightarrow> gostr list
    \<Rightarrow> (gostr \<times> doc) list \<times> (gostr \<times> gostr list) list" where
  "envOverrides U o' target raw prefix environ =
     (case scanEnviron prefix environ [] Map.empty of (names, vals) \<Rightarrow>
        overrideLoop U o' (newEnvSchema U target raw) prefix vals (sort names) [] [])"

definition loadEnvOverrides :: "('k, 't) koanfLib \<Rightarrow> unicode \<Rightarrow> parseOptions \<Rightarrow> gostr list \<Rightarrow> 't \<Rightarrow> gostr \<Rightarrow> 'k \<Rightarrow> err + 'k" where
  "loadEnvOverrides L U o' environ target prefix k =
     (case envOverrides U o' (reflected L target) (rawOf L k) prefix environ of (overrides, warned) \<Rightarrow>
        if overrides = [] then Inr k
        else case marshalDoc L overrides of
          Inl e \<Rightarrow> Inl (Wrap ''encoding env overrides: '' e)
        | Inr encoded \<Rightarrow> (case loadRaw L True encoded k of
            Inl e \<Rightarrow> Inl (Wrap ''loading env overrides: '' e)
          | Inr k' \<Rightarrow> Inr k'))"

definition ParseInto :: "('k, 't) koanfLib \<Rightarrow> unicode \<Rightarrow> parseOptions \<Rightarrow> gostr list \<Rightarrow> 't \<Rightarrow> bytes \<Rightarrow> format \<Rightarrow> gostr \<Rightarrow> err + 't" where
  "ParseInto L U o' environ target raw fmt prefix =
     (case (if raw = [] then Inr (newKoanf L) else loadRaw L (fmt = FormatJSON) raw (newKoanf L)) of
        Inl e \<Rightarrow> Inl (Wrap ''parsing config: '' e)
      | Inr k \<Rightarrow> (case (if prefix = [] then Inr k else loadEnvOverrides L U o' environ target prefix k) of
          Inl e \<Rightarrow> Inl e
        | Inr k \<Rightarrow> (case unmarshalInto L k target of
            Inl e \<Rightarrow> Inl (Wrap ''decoding config: '' e)
          | Inr t \<Rightarrow> Inr t)))"

section \<open>Lemmas\<close>

text \<open>A path that leads to a leaf of the schema: a field of a field ..., a known key of a map, or, where
  a map's vals are leaves, any one key.\<close>

fun settable :: "envNode \<Rightarrow> gostr list \<Rightarrow> bool" where
  "settable n [] \<longleftrightarrow> leaf n"
| "settable n (x # p) \<longleftrightarrow>
     (case map_of (children n) x of Some c \<Rightarrow> settable c p | None \<Rightarrow> False)
   \<or> (case dynamicVal n of Some dv \<Rightarrow> settable dv p \<and> (x \<in> set (dynamicKey n) \<or> p = []) | None \<Rightarrow> False)"








section \<open>The readings of a name\<close>

text \<open>
  The ways to read a list of tokens as a path of the schema, whatever the order in which \<open>resolve\<close>
  tries them: the first tokens name a child or a known key of a map, the rest is read below it; no
  tokens are left, or all of them are one new key of a map of leaves.  The last argument says
  whether the path ends at a leaf (settable) or at a section.
\<close>

inductive readsAs :: "unicode \<Rightarrow> envNode \<Rightarrow> gostr list \<Rightarrow> gostr list \<Rightarrow> bool \<Rightarrow> bool" for U where
  stop: "readsAs U n [] [] (leaf n)"
| child: "0 < i \<Longrightarrow> i \<le> length ts \<Longrightarrow> name \<in> set (matchNames U n (take i ts)) \<Longrightarrow> map_of (children n) name = Some c
    \<Longrightarrow> readsAs U c (drop i ts) p g \<Longrightarrow> readsAs U n ts (name # p) g"
| known: "0 < i \<Longrightarrow> i \<le> length ts \<Longrightarrow> k \<in> set (dynamicKey n)
    \<Longrightarrow> normalizeEnvKey U k = normalizeEnvKey U (Join (take i ts) []) \<Longrightarrow> dynamicVal n = Some dv
    \<Longrightarrow> readsAs U dv (drop i ts) p g \<Longrightarrow> readsAs U n ts (k # p) g"
| new: "ts \<noteq> [] \<Longrightarrow> dynamicVal n = Some dv \<Longrightarrow> leaf dv \<Longrightarrow> readsAs U n ts [Join ts [46]] True"

inductive_simps readsAs_Nil [simp]: "readsAs U n [] p g"

















section \<open>The schema and the type\<close>

text \<open>The fields a struct contributes by name, squashed ones flattened.\<close>

function (sequential) namedFields :: "unicode \<Rightarrow> (gostr \<times> gostr option \<times> bool \<times> goType) list \<Rightarrow> (gostr \<times> goType) list" where
  "namedFields U [] = []"
| "namedFields U ((fname, tag, exported, ft) # fs) =
     (if \<not> exported then [] else case envFieldName U fname tag of (name, squash) \<Rightarrow>
        if name = lit ''-'' then []
        else if squash then (case fst (stripPtr ft None) of TStruct gs \<Rightarrow> namedFields U gs | _ \<Rightarrow> [])
        else if name = [] then [] else [(name, ft)]) @ namedFields U fs"
  by pat_completeness auto
termination
  by (relation "measure (\<lambda>(U, fs). fieldsSize fs)") (auto dest: stripPtr_struct_fst simp: fieldsSize_def)

text \<open>
  A path through a Go type to something a string can be decoded into: neither a struct with named
  fields nor a map with string keys, unless it lies deeper than the bound.
\<close>

inductive reaches :: "unicode \<Rightarrow> nat \<Rightarrow> goType \<Rightarrow> gostr list \<Rightarrow> bool" for U where
  deep: "envMaxDepth < d \<Longrightarrow> reaches U d t []"
| ptr: "reaches U d t p \<Longrightarrow> reaches U d (TPtr t) p"
| scalar: "reaches U d TOther []"
| other_map: "reaches U d (TMap False e) []"
| bare: "namedFields U fs = [] \<Longrightarrow> reaches U d (TStruct fs) []"
| field: "(name, ft) \<in> set (namedFields U fs) \<Longrightarrow> reaches U (Suc d) ft p \<Longrightarrow> reaches U d (TStruct fs) (name # p)"
| key: "reaches U (Suc d) e p \<Longrightarrow> reaches U d (TMap True e) (k # p)"

inductive_cases reaches_structE: "reaches U d (TStruct fs) p"
inductive_simps reaches_scalar [simp]: "reaches U d TOther p"








lemma settable_emptyNode [simp]: "settable emptyNode p \<longleftrightarrow> p = []"
  by (cases p) (simp_all add: leaf_def)






section \<open>The overrides\<close>

fun docAt :: "(gostr \<times> doc) list \<Rightarrow> gostr list \<Rightarrow> doc option" where
  "docAt m [] = None"
| "docAt m [k] = map_of m k"
| "docAt m (k # p) = (case map_of m k of Some (DMap sub) \<Rightarrow> docAt sub p | _ \<Rightarrow> None)"

lemma docAt_Cons: "p \<noteq> [] \<Longrightarrow> docAt m (k # p) = (case map_of m k of Some (DMap sub) \<Rightarrow> docAt sub p | _ \<Rightarrow> None)"
  unfolding neq_Nil_conv by (elim exE) (simp only: docAt.simps)

lemma docAt_Nil [simp]: "docAt [] q = None"
proof (cases q)
  case (Cons k p)
  then show ?thesis by (cases "p = []") (simp_all add: docAt_Cons)
qed simp





text \<open>A variable with the prefix and its value: what the last entry of the environment for it says.\<close>

definition variable :: "gostr \<Rightarrow> gostr list \<Rightarrow> gostr \<Rightarrow> gostr \<Rightarrow> bool" where
  "variable prefix env name x \<longleftrightarrow> HasPrefix name prefix \<and> name \<noteq> prefix \<and> 61 \<notin> set name
     \<and> (\<exists>before after. env = before @ (name @ 61 # x) # after \<and> (\<forall>y. name @ 61 # y \<notin> set after))"



lemma variable_Nil [simp]: "\<not> variable prefix [] name x"
  by (simp add: variable_def)




























end
