(* ===== verification/Umask.thy ===== *)
theory Umask
  imports Prelude
begin

unbundle bit_operations_syntax

text \<open>
  The reference-counted guard of src/internal/duckdb/umask_unix.go, as many goroutines that open
  databases at the same time use it.  The process's file mode creation mask is part of the state;
  nothing else of the program changes it.  Each call of \<open>secureUmask\<close> returns a closure that is named
  by its number and may be called any number of times, in any order.
\<close>

section \<open>The guard\<close>

text \<open>The package variable \<open>umask\<close>, the mask of the process, and of each closure its \<open>done\<close>.\<close>

record umaskGuard =
  refs :: nat
  old :: int
  processMask :: int
  doneFlags :: "bool list"

definition narrow :: int where "narrow = 0x7F"

text \<open>Octal 0177 is hexadecimal 7F.  \<open>unix.Umask(m)\<close>: sets the mask and returns the previous one.\<close>

definition Umask :: "int \<Rightarrow> umaskGuard \<Rightarrow> int \<times> umaskGuard" where
  "Umask m g = (processMask g, g\<lparr>processMask := m\<rparr>)"

definition secureUmask :: "umaskGuard \<Rightarrow> nat \<times> umaskGuard" where
  "secureUmask g =
     (let g1 = (if refs g = 0 then (case Umask narrow g of (m, g') \<Rightarrow> g'\<lparr>old := m\<rparr>) else g)
      in (length (doneFlags g1), g1\<lparr>refs := refs g1 + 1, doneFlags := doneFlags g1 @ [False]\<rparr>))"

definition restoreUmask :: "nat \<Rightarrow> umaskGuard \<Rightarrow> umaskGuard" where
  "restoreUmask i g =
     (if doneFlags g ! i \<or> refs g = 0 then g
      else
        (let g1 = g\<lparr>doneFlags := (doneFlags g)[i := True], refs := refs g - 1\<rparr>
         in if refs g1 = 0 then snd (Umask (old g1) g1) else g1))"

section \<open>Goroutines opening databases\<close>

text \<open>
  What happens, in any order: \<open>Open\<close> takes the guard, the engine creates a file asking for a mode,
  and a closure is called.  A created file is noted with its mode and whether the guard was held.
\<close>

datatype umaskEvent = EvSecure | EvCreate int | EvRestore nat

record umaskRun =
  grd :: umaskGuard
  created :: "(int \<times> bool) list"

definition outstanding :: "umaskGuard \<Rightarrow> nat" where
  "outstanding g = length (filter Not (doneFlags g))"

fun umaskStep :: "umaskEvent \<Rightarrow> umaskRun \<Rightarrow> umaskRun" where
  "umaskStep EvSecure r = r\<lparr>grd := snd (secureUmask (grd r))\<rparr>"
| "umaskStep (EvCreate m) r =
     r\<lparr>created := created r @ [(m AND NOT (processMask (grd r)), outstanding (grd r) > 0)]\<rparr>"
| "umaskStep (EvRestore i) r =
     (if i < length (doneFlags (grd r)) then r\<lparr>grd := restoreUmask i (grd r)\<rparr> else r)"

definition freshProcess :: "int \<Rightarrow> umaskRun" where
  "freshProcess m = \<lparr>grd = \<lparr>refs = 0, old = 0, processMask = m, doneFlags = []\<rparr>, created = []\<rparr>"

text \<open>The bookkeeping that every event keeps; \<open>m\<close> is the mask the process started with.\<close>

definition guardOk :: "int \<Rightarrow> umaskGuard \<Rightarrow> bool" where
  "guardOk m g \<longleftrightarrow>
     refs g = outstanding g
     \<and> (if refs g = 0 then processMask g = m else processMask g = narrow \<and> old g = m)"

definition ownerOnly :: "int \<Rightarrow> bool" where
  "ownerOnly f \<longleftrightarrow> f AND 0x7F = 0"

lemma masked_private: "ownerOnly (m AND NOT narrow)"
proof -
  have "(m AND NOT 0x7F) AND 0x7F = m AND (NOT 0x7F AND 0x7F)"
    by (simp only: and.assoc)
  then show ?thesis by (simp add: ownerOnly_def narrow_def and.assoc)
qed

lemma outstanding_take:
  "i < length bs \<Longrightarrow> \<not> bs ! i \<Longrightarrow> length (filter Not bs) = Suc (length (filter Not (bs[i := True])))"
proof (induction bs arbitrary: i)
  case Nil
  then show ?case by simp
next
  case (Cons b bs)
  then show ?case by (cases i) auto
qed

lemma secure_guardOk: "guardOk m g \<Longrightarrow> guardOk m (snd (secureUmask g))"
  by (auto simp: guardOk_def secureUmask_def outstanding_def Umask_def Let_def)

lemma restore_guardOk:
  assumes "guardOk m g" and "i < length (doneFlags g)"
  shows "guardOk m (restoreUmask i g)"
proof (cases "doneFlags g ! i \<or> refs g = 0")
  case True
  with assms show ?thesis by (simp add: restoreUmask_def)
next
  case False
  with outstanding_take [of i "doneFlags g"] assms show ?thesis
    by (auto simp: guardOk_def restoreUmask_def outstanding_def Umask_def Let_def)
qed

lemma step_guardOk: "guardOk m (grd r) \<Longrightarrow> guardOk m (grd (umaskStep e r))"
  by (cases e) (auto simp: secure_guardOk restore_guardOk)

lemma step_created:
  assumes "guardOk m (grd r)" and "\<forall>(f, held) \<in> set (created r). held \<longrightarrow> ownerOnly f"
  shows "\<forall>(f, held) \<in> set (created (umaskStep e r)). held \<longrightarrow> ownerOnly f"
proof (cases e)
  case (EvCreate x)
  have "outstanding (grd r) > 0 \<Longrightarrow> processMask (grd r) = narrow"
    using assms(1) by (auto simp: guardOk_def)
  then have "outstanding (grd r) > 0 \<Longrightarrow> ownerOnly (x AND NOT (processMask (grd r)))"
    using masked_private by simp
  with EvCreate assms(2) show ?thesis by auto
qed (use assms(2) in auto)

lemma run_ok:
  assumes "guardOk m (grd r)" and "\<forall>(f, held) \<in> set (created r). held \<longrightarrow> ownerOnly f"
  shows "guardOk m (grd (fold umaskStep es r))
    \<and> (\<forall>(f, held) \<in> set (created (fold umaskStep es r)). held \<longrightarrow> ownerOnly f)"
  using assms
proof (induction es arbitrary: r)
  case Nil
  then show ?case by simp
next
  case (Cons e es)
  from Cons.IH [OF step_guardOk [OF Cons.prems(1)] step_created [OF Cons.prems]]
  show ?case by simp
qed

lemma fresh_guardOk: "guardOk m (grd (freshProcess m))" "created (freshProcess m) = []"
  by (simp_all add: guardOk_def freshProcess_def outstanding_def)

text \<open>A second call of the same closure does nothing.\<close>

lemma restore_twice:
  assumes "guardOk m g" and "i < length (doneFlags g)"
  shows "restoreUmask i (restoreUmask i g) = restoreUmask i g"
proof (cases "doneFlags g ! i \<or> refs g = 0")
  case True
  then show ?thesis by (auto simp: restoreUmask_def)
next
  case False
  with assms(2) have "doneFlags (restoreUmask i g) ! i"
    by (simp add: restoreUmask_def Umask_def Let_def)
  then show ?thesis by (simp add: restoreUmask_def)
qed

section \<open>The guard around every open\<close>

text \<open>
  Claim C33.  However the opens of several goroutines overlap, and however often their restore
  functions are called, the process's mask is 0177 as long as one of them is outstanding, and the
  mask it had before as soon as none is; so every file the engine creates inside such a window is
  readable and writable by its owner at most, whatever mode it asks for.
\<close>

theorem umask_guard_balanced:
  "processMask (grd (fold umaskStep es (freshProcess m)))
     = (if outstanding (grd (fold umaskStep es (freshProcess m))) = 0 then m else narrow)
   \<and> (\<forall>(f, held) \<in> set (created (fold umaskStep es (freshProcess m))). held \<longrightarrow> ownerOnly f)"
  using run_ok [of m "freshProcess m" es] fresh_guardOk [of m] by (auto simp: guardOk_def)

theorem umask_guard_balanced_witness:
  "processMask (grd (fold umaskStep [EvSecure, EvSecure, EvCreate 438, EvRestore 0, EvRestore 0] (freshProcess 18)))
     = narrow
   \<and> processMask (grd (fold umaskStep [EvSecure, EvSecure, EvRestore 0, EvRestore 0, EvRestore 1] (freshProcess 18)))
     = 18"
proof -
  have a: "outstanding (grd (fold umaskStep
      [EvSecure, EvSecure, EvCreate 438, EvRestore 0, EvRestore 0] (freshProcess 18))) = 1"
    by code_simp
  have b: "outstanding (grd (fold umaskStep
      [EvSecure, EvSecure, EvRestore 0, EvRestore 0, EvRestore 1] (freshProcess 18))) = 0"
    by code_simp
  from umask_guard_balanced [of "[EvSecure, EvSecure, EvCreate 438, EvRestore 0, EvRestore 0]" 18]
    umask_guard_balanced [of "[EvSecure, EvSecure, EvRestore 0, EvRestore 0, EvRestore 1]" 18]
  show ?thesis unfolding a b by simp
qed

end
