(* ===== verification/Sockets.thy ===== *)
theory Sockets
  imports Errors
begin

text \<open>
  Claiming a service socket, src/ipc/socket_unix.go: the lock beside the path, the probe of a socket
  found there, its removal, binding, and the listener that removes its socket on closing only if the
  path still names it.  The state is what the operating system knows of one path; every system call of
  every process that wants or has the socket is a step of its own, so that the steps of several
  processes interleave.  A socket is named by the number of its binding, which is used once; the inode
  number that \<open>os.SameFile\<close> compares is another matter: the file system gives it with each binding and
  may give one again that an earlier socket had.  Files are put at the path and removed from it by these
  processes only.  A process that dies loses its listener and its lock.
\<close>

section \<open>The path, and where each process is\<close>

datatype nodeAt = Sock nat | NotSock

datatype listenPhase =
    Away
  | Locking
  | AtLstat
  | AtProbe
  | AtRemove
  | AtBind
  | AtChmod nat
  | AtGuard nat
  | AbandonUnlink nat err
  | AbandonClose nat err
  | Returning nat "nodeAt"
  | Refusing err
  | Listening nat "nodeAt"
  | Failed err
  | Unlinking "nodeAt"
  | Removing

record sockets =
  pathNode :: "nodeAt option"
  live :: "nat list"
  nextSock :: nat
  inodeNo :: "nat \<Rightarrow> nat"
  lockHolder :: "nat option"
  phases :: "nat \<Rightarrow> listenPhase"

text \<open>\<open>os.SameFile\<close>: the inode numbers agree.\<close>

fun sameFile :: "sockets \<Rightarrow> nodeAt \<Rightarrow> nodeAt \<Rightarrow> bool" where
  "sameFile w (Sock i) (Sock j) = (inodeNo w i = inodeNo w j)"
| "sameFile w NotSock NotSock = True"
| "sameFile w _ _ = False"

abbreviation at_phase :: "nat \<Rightarrow> listenPhase \<Rightarrow> sockets \<Rightarrow> sockets" where
  "at_phase p ph w \<equiv> w\<lparr>phases := (phases w)(p := ph)\<rparr>"

definition ErrInUse :: err where "ErrInUse = Msg ''address already in use''"

fun isInUse :: "err \<Rightarrow> bool" where
  "isInUse (Wrap m e) = isInUse e"
| "isInUse (Note e m) = isInUse e"
| "isInUse e = (e = ErrInUse)"

section \<open>The lock of the path\<close>

text \<open>
  What \<open>flock\<close> answers at an instant: taken, interrupted, held by another, or another failure.  The
  loop is a function of these answers; \<open>None\<close> means that it is still waiting after the last.
\<close>

datatype flockAnswer = Taken | Interrupted | WouldBlock | FlockFails err

definition lockAcquireTimeout :: duration where "lockAcquireTimeout = 2 * second"

fun lockLoop :: "string \<Rightarrow> time \<Rightarrow> (flockAnswer \<times> time) list \<Rightarrow> err option option" where
  "lockLoop name deadline [] = None"
| "lockLoop name deadline ((Taken, t) # rest) = Some None"
| "lockLoop name deadline ((Interrupted, t) # rest) = lockLoop name deadline rest"
| "lockLoop name deadline ((WouldBlock, t) # rest) =
     (if Before t deadline then lockLoop name deadline rest
      else Some (Some (Note ErrInUse ('': '' @ name @ '': socket path lock still held after 2s''))))"
| "lockLoop name deadline ((FlockFails e, t) # rest) =
     Some (Some (Wrap (''cannot lock socket path '' @ name @ '': '') e))"

definition lockSocketPath :: "string \<Rightarrow> time \<Rightarrow> err option \<Rightarrow> (flockAnswer \<times> time) list \<Rightarrow> err option option" where
  "lockSocketPath name now openErr answers =
     (case openErr of
        Some e \<Rightarrow> Some (Some (Wrap (''cannot lock socket path '' @ name @ '': '') e))
      | None \<Rightarrow> lockLoop name (now + lockAcquireTimeout) answers)"

lemma isInUse_simps [simp]: "isInUse ErrInUse" "isInUse (Note ErrInUse m)"
  by (simp_all add: ErrInUse_def)

text \<open>The lock is had exactly when \<open>flock\<close> gave it, and the wait ends at the deadline.\<close>

lemma lockLoop_taken: "lockLoop name d as = Some None \<Longrightarrow> \<exists>t. (Taken, t) \<in> set as"
  by (induction name d as rule: lockLoop.induct) (auto split: if_splits)

lemma lockLoop_ends:
  "(a, t) \<in> set as \<Longrightarrow> a \<noteq> Interrupted \<Longrightarrow> d \<le> t \<Longrightarrow> lockLoop name d as \<noteq> None"
proof (induction name d as rule: lockLoop.induct)
  case (4 name d u rest)
  then show ?case by (auto simp: Before_def)
qed auto

lemma lockLoop_in_use:
  assumes "list_all (\<lambda>(a, t). a = WouldBlock) as" and "lockLoop name d as = Some r"
  obtains e where "r = Some e" "isInUse e"
  using assms by (induction name d as rule: lockLoop.induct) (auto split: if_splits)

section \<open>Probing\<close>

text \<open>
  What dialing the path answers: a connection, refused or nothing there, a timeout or a full queue,
  or another error.  The operating system refuses exactly when the socket has no listener.
\<close>

datatype dialAnswer = Connected | Refused | Absent | Busy | DialFails err

fun probeSocket :: "dialAnswer \<Rightarrow> bool \<times> err option" where
  "probeSocket Connected = (True, None)"
| "probeSocket Refused = (False, None)"
| "probeSocket Absent = (False, None)"
| "probeSocket Busy = (True, None)"
| "probeSocket (DialFails e) = (False, Some e)"

text \<open>The answer for the state of the path; \<open>q\<close> says whether a live listener's queue is full.\<close>

definition dial :: "bool \<Rightarrow> sockets \<Rightarrow> dialAnswer" where
  "dial q w =
     (case pathNode w of
        None \<Rightarrow> Absent
      | Some (Sock i) \<Rightarrow> if i \<in> set (live w) then (if q then Busy else Connected) else Refused
      | Some NotSock \<Rightarrow> Refused)"

definition IsListening :: "dialAnswer \<Rightarrow> bool" where
  "IsListening a \<longleftrightarrow> a = Connected"

section \<open>Listen, one system call at a time\<close>

text \<open>
  What a call meets: the error it fails with, if any, for the probe whether the queue is full, and
  for the binding the inode number that the file system gives.
\<close>

record callEnv =
  callErr :: "err option"
  queueFull :: bool
  newInode :: nat

definition fine :: callEnv where "fine = \<lparr>callErr = None, queueFull = False, newInode = 0\<rparr>"

definition lstatStep :: "string \<Rightarrow> callEnv \<Rightarrow> sockets \<Rightarrow> listenPhase" where
  "lstatStep name E w =
     (case callErr E of
        Some e \<Rightarrow> if isNotExist e then AtBind else Refusing e
      | None \<Rightarrow>
          (case pathNode w of
             None \<Rightarrow> AtBind
           | Some NotSock \<Rightarrow> Refusing (Msg (''refusing to replace non-socket path '' @ name))
           | Some (Sock i) \<Rightarrow> AtProbe))"

definition clearDeadSocket :: "string \<Rightarrow> dialAnswer \<Rightarrow> listenPhase" where
  "clearDeadSocket name a =
     (case probeSocket a of
        (l, Some e) \<Rightarrow> Refusing (Wrap (''cannot tell whether '' @ name @ '' is in use: '') e)
      | (l, None) \<Rightarrow> if l then Refusing (Note ErrInUse ('': '' @ name)) else AtRemove)"

text \<open>\<open>net.Listen\<close> on a path where something is fails with \<open>EADDRINUSE\<close>.\<close>

definition bindStep :: "string \<Rightarrow> callEnv \<Rightarrow> nat \<Rightarrow> sockets \<Rightarrow> sockets" where
  "bindStep name E p w =
     (case callErr E of
        Some e \<Rightarrow> at_phase p (Refusing e) w
      | None \<Rightarrow>
          (case pathNode w of
             Some n \<Rightarrow> at_phase p (Refusing (Note ErrInUse ('': '' @ name @ '': bind: address already in use''))) w
           | None \<Rightarrow> at_phase p (AtChmod (nextSock w))
               (w\<lparr>pathNode := Some (Sock (nextSock w)), live := nextSock w # live w,
                  nextSock := Suc (nextSock w), inodeNo := (inodeNo w)(nextSock w := newInode E)\<rparr>)))"

definition guardUnlink :: "callEnv \<Rightarrow> nat \<Rightarrow> sockets \<Rightarrow> listenPhase" where
  "guardUnlink E i w =
     (case (callErr E, pathNode w) of
        (None, Some n) \<Rightarrow> Returning i n
      | (None, None) \<Rightarrow> AbandonUnlink i (NotExist ''no such file or directory'')
      | (Some e, _) \<Rightarrow> AbandonUnlink i e)"

definition unlockSocketPath :: "nat \<Rightarrow> sockets \<Rightarrow> sockets" where
  "unlockSocketPath p w = (if lockHolder w = Some p then w\<lparr>lockHolder := None\<rparr> else w)"

text \<open>
  The next call of process \<open>p\<close> inside \<open>Listen\<close>.  \<open>Locking\<close> is one attempt of the loop above, which is
  stuttering while another has the lock.  Abandoning a listener that is already bound is
  \<open>UnixListener.Close\<close>, which unlinks the path before it closes the socket.
\<close>

fun listenStep :: "string \<Rightarrow> callEnv \<Rightarrow> nat \<Rightarrow> listenPhase \<Rightarrow> sockets \<Rightarrow> sockets" where
  "listenStep name E p Locking w =
     (case callErr E of
        Some e \<Rightarrow> at_phase p (Failed e) w
      | None \<Rightarrow> if lockHolder w = None then at_phase p AtLstat (w\<lparr>lockHolder := Some p\<rparr>) else w)"
| "listenStep name E p AtLstat w = at_phase p (lstatStep name E w) w"
| "listenStep name E p AtProbe w =
     (case callErr E of
        Some e \<Rightarrow> at_phase p (clearDeadSocket name (DialFails e)) w
      | None \<Rightarrow> at_phase p (clearDeadSocket name (dial (queueFull E) w)) w)"
| "listenStep name E p AtRemove w =
     (case callErr E of
        Some e \<Rightarrow> at_phase p (if isNotExist e then AtBind else Refusing e) w
      | None \<Rightarrow> at_phase p AtBind (w\<lparr>pathNode := None\<rparr>))"
| "listenStep name E p AtBind w = bindStep name E p w"
| "listenStep name E p (AtChmod i) w =
     at_phase p (case callErr E of Some e \<Rightarrow> AbandonUnlink i e | None \<Rightarrow> AtGuard i) w"
| "listenStep name E p (AtGuard i) w = at_phase p (guardUnlink E i w) w"
| "listenStep name E p (AbandonUnlink i e) w =
     at_phase p (AbandonClose i e) (w\<lparr>pathNode := None\<rparr>)"
| "listenStep name E p (AbandonClose i e) w =
     at_phase p (Refusing e) (w\<lparr>live := removeAll i (live w)\<rparr>)"
| "listenStep name E p (Returning i n) w = at_phase p (Listening i n) (unlockSocketPath p w)"
| "listenStep name E p (Refusing e) w = at_phase p (Failed e) (unlockSocketPath p w)"
| "listenStep name E p ph w = w"

section \<open>Close, and the whole machine\<close>

text \<open>
  \<open>Close\<close> of the returned listener: the socket is closed; \<open>Lstat\<close> decides; the path is removed.
\<close>

fun closeStep :: "callEnv \<Rightarrow> nat \<Rightarrow> listenPhase \<Rightarrow> sockets \<Rightarrow> sockets" where
  "closeStep E p (Listening i n) w = at_phase p (Unlinking n) (w\<lparr>live := removeAll i (live w)\<rparr>)"
| "closeStep E p (Unlinking n) w =
     at_phase p (if callErr E = None \<and> (case pathNode w of None \<Rightarrow> False | Some at \<Rightarrow> sameFile w at n) then Removing else Away) w"
| "closeStep E p Removing w =
     at_phase p Away (if callErr E = None then w\<lparr>pathNode := None\<rparr> else w)"
| "closeStep E p ph w = w"

text \<open>The death of a process: what it holds is given back by the operating system.\<close>

fun ownSocket :: "listenPhase \<Rightarrow> nat option" where
  "ownSocket (AtChmod i) = Some i"
| "ownSocket (AtGuard i) = Some i"
| "ownSocket (AbandonUnlink i e) = Some i"
| "ownSocket (AbandonClose i e) = Some i"
| "ownSocket (Returning i n) = Some i"
| "ownSocket (Listening i n) = Some i"
| "ownSocket ph = None"

definition die :: "nat \<Rightarrow> sockets \<Rightarrow> sockets" where
  "die p w =
     at_phase p Away (unlockSocketPath p
       (w\<lparr>live := (case ownSocket (phases w p) of None \<Rightarrow> live w | Some i \<Rightarrow> removeAll i (live w))\<rparr>))"

datatype sockEvent = EvStart nat | EvListen nat callEnv | EvClose nat callEnv | EvDie nat

fun sockStep :: "string \<Rightarrow> sockEvent \<Rightarrow> sockets \<Rightarrow> sockets" where
  "sockStep name (EvStart p) w =
     (case phases w p of Away \<Rightarrow> at_phase p Locking w | Failed e \<Rightarrow> at_phase p Locking w | _ \<Rightarrow> w)"
| "sockStep name (EvListen p E) w = listenStep name E p (phases w p) w"
| "sockStep name (EvClose p E) w = closeStep E p (phases w p) w"
| "sockStep name (EvDie p) w = die p w"

definition sockRun :: "string \<Rightarrow> sockEvent list \<Rightarrow> sockets \<Rightarrow> sockets" where
  "sockRun name es w = fold (sockStep name) es w"

text \<open>At first the path holds whatever was left there; no process has anything.\<close>

definition freshSockets :: "nodeAt option \<Rightarrow> sockets" where
  "freshSockets n =
     \<lparr>pathNode = n, live = [], nextSock = (case n of Some (Sock i) \<Rightarrow> Suc i | _ \<Rightarrow> 0),
      inodeNo = (\<lambda>_. 0), lockHolder = None, phases = (\<lambda>_. Away)\<rparr>"

section \<open>The invariant\<close>

text \<open>The lock is held by exactly the call that is between taking and giving it back.\<close>

fun critical :: "listenPhase \<Rightarrow> bool" where
  "critical Away = False"
| "critical Locking = False"
| "critical (Listening i n) = False"
| "critical (Failed e) = False"
| "critical (Unlinking n) = False"
| "critical Removing = False"
| "critical ph = True"

definition lockOk :: "sockets \<Rightarrow> bool" where
  "lockOk w \<longleftrightarrow> (\<forall>q. critical (phases w q) \<longleftrightarrow> lockHolder w = Some q)"

text \<open>Every open listener belongs to one call, and its socket is older than the next one.\<close>

definition liveOk :: "sockets \<Rightarrow> bool" where
  "liveOk w \<longleftrightarrow>
     (\<forall>i \<in> set (live w). i < nextSock w)
     \<and> (\<forall>i. pathNode w = Some (Sock i) \<longrightarrow> i < nextSock w)
     \<and> (\<forall>q i. ownSocket (phases w q) = Some i \<longrightarrow> i \<in> set (live w))
     \<and> (\<forall>q r i. ownSocket (phases w q) = Some i \<longrightarrow> ownSocket (phases w r) = Some i \<longrightarrow> q = r)"

text \<open>What a call in the critical section has learnt of the path stays true but for its removal.\<close>

fun seen :: "listenPhase \<Rightarrow> sockets \<Rightarrow> bool" where
  "seen AtProbe w = (pathNode w \<noteq> Some NotSock)"
| "seen AtRemove w = (case pathNode w of None \<Rightarrow> True | Some (Sock i) \<Rightarrow> i \<notin> set (live w) | Some NotSock \<Rightarrow> False)"
| "seen (AtChmod i) w = (pathNode w \<in> {None, Some (Sock i)})"
| "seen (AtGuard i) w = (pathNode w \<in> {None, Some (Sock i)})"
| "seen (AbandonUnlink i e) w = (pathNode w \<in> {None, Some (Sock i)})"
| "seen (AbandonClose i e) w = (pathNode w = None)"
| "seen (Returning i n) w = (n = Sock i \<and> pathNode w \<in> {None, Some (Sock i)})"
| "seen (Listening i n) w = (n = Sock i)"
| "seen ph w = True"

definition seenOk :: "sockets \<Rightarrow> bool" where
  "seenOk w \<longleftrightarrow> (\<forall>q. seen (phases w q) w)"

definition sockOk :: "sockets \<Rightarrow> bool" where
  "sockOk w \<longleftrightarrow> lockOk w \<and> liveOk w \<and> seenOk w"

lemmas listen_defs = lstatStep_def clearDeadSocket_def bindStep_def guardUnlink_def unlockSocketPath_def

lemma fresh_sockOk: "sockOk (freshSockets n)"
  by (auto simp: sockOk_def lockOk_def liveOk_def seenOk_def freshSockets_def split: option.split nodeAt.split)

text \<open>How the lock moves: kept, taken, given back.\<close>

lemma lockOk_D: "lockOk w \<Longrightarrow> critical (phases w q) \<Longrightarrow> lockHolder w = Some q"
  by (simp add: lockOk_def)

lemma lockOk_free: "lockOk w \<Longrightarrow> \<not> critical (phases w q) \<Longrightarrow> lockHolder w \<noteq> Some q"
  by (auto simp: lockOk_def)

lemma lockOk_same:
  assumes "lockOk w" and "lockHolder w' = lockHolder w"
    and "\<And>q. critical (phases w' q) = critical (phases w q)"
  shows "lockOk w'"
  using assms by (simp add: lockOk_def)

lemma lockOk_take:
  assumes "lockOk w" and "lockHolder w = None" and "lockHolder w' = Some p"
    and "critical (phases w' p)" and "\<And>q. q \<noteq> p \<Longrightarrow> phases w' q = phases w q"
  shows "lockOk w'"
  unfolding lockOk_def
proof
  fix q
  show "critical (phases w' q) \<longleftrightarrow> lockHolder w' = Some q"
    using assms lockOk_D [OF assms(1), of q] by (cases "q = p") auto
qed

lemma lockOk_give:
  assumes "lockOk w" and "critical (phases w p)" and "lockHolder w' = None"
    and "\<not> critical (phases w' p)" and "\<And>q. q \<noteq> p \<Longrightarrow> phases w' q = phases w q"
  shows "lockOk w'"
  unfolding lockOk_def
proof
  fix q
  show "critical (phases w' q) \<longleftrightarrow> lockHolder w' = Some q"
    using assms lockOk_D [OF assms(1), of q] lockOk_D [OF assms(1), of p] by (cases "q = p") auto
qed

lemma critical_lstat [simp]: "critical (lstatStep name E w)"
  by (simp add: lstatStep_def split: option.split nodeAt.split)

lemma critical_clear [simp]: "critical (clearDeadSocket name a)"
  by (simp add: clearDeadSocket_def split: prod.split option.split)

lemma critical_guard [simp]: "critical (guardUnlink E i w)"
  by (simp add: guardUnlink_def split: option.split)

lemma listen_lockOk:
  assumes "lockOk w"
  shows "lockOk (listenStep name E p (phases w p) w)"
proof (cases "phases w p")
  case Locking
  show ?thesis
  proof (cases "callErr E = None \<and> lockHolder w = None")
    case True
    then show ?thesis using Locking by (auto intro: lockOk_take [OF assms])
  next
    case False
    then show ?thesis
      using Locking assms by (auto split: option.split if_splits intro!: lockOk_same [OF assms])
  qed
next
  case (Returning i n)
  with lockOk_D [OF assms, of p] show ?thesis
    by (auto simp: unlockSocketPath_def intro!: lockOk_give [OF assms, of p])
next
  case (Refusing e)
  with lockOk_D [OF assms, of p] show ?thesis
    by (auto simp: unlockSocketPath_def intro!: lockOk_give [OF assms, of p])
qed (use assms in \<open>auto simp: bindStep_def split: option.split if_splits intro!: lockOk_same [OF assms]\<close>)

lemma step_lockOk:
  assumes "lockOk w"
  shows "lockOk (sockStep name e w)"
proof (cases e)
  case (EvStart p)
  with assms show ?thesis by (auto split: listenPhase.split if_splits intro!: lockOk_same [OF assms])
next
  case (EvListen p E)
  with listen_lockOk [OF assms] show ?thesis by simp
next
  case (EvClose p E)
  with assms show ?thesis by (cases "phases w p") (auto split: if_splits intro!: lockOk_same [OF assms])
next
  case (EvDie p)
  show ?thesis
  proof (cases "critical (phases w p)")
    case True
    with EvDie lockOk_D [OF assms True] show ?thesis
      by (auto simp: die_def unlockSocketPath_def intro!: lockOk_give [OF assms True])
  next
    case False
    with EvDie lockOk_free [OF assms False] show ?thesis
      by (auto simp: die_def unlockSocketPath_def split: if_splits intro!: lockOk_same [OF assms])
  qed
qed

text \<open>Inodes: what a step may do to the path, the listeners and the owners.\<close>

lemma liveOk_same:
  assumes "liveOk w" and "live w' = live w" and "nextSock w' = nextSock w"
    and "pathNode w' = None \<or> pathNode w' = pathNode w"
    and "\<And>q. ownSocket (phases w' q) = ownSocket (phases w q)"
  shows "liveOk w'"
  using assms by (auto simp: liveOk_def)

lemma liveOk_bind:
  assumes "liveOk w"
  shows "liveOk (at_phase p (AtChmod (nextSock w))
     (w\<lparr>pathNode := Some (Sock (nextSock w)), live := nextSock w # live w, nextSock := Suc (nextSock w),
        inodeNo := (inodeNo w)(nextSock w := a)\<rparr>))"
  using assms by (fastforce simp: liveOk_def split: if_splits)

lemma liveOk_drop:
  assumes "liveOk w" and "ownSocket (phases w p) = Some i" and "live w' = removeAll i (live w)"
    and "nextSock w' = nextSock w" and "pathNode w' = pathNode w"
    and "ownSocket (phases w' p) = None" and "\<And>q. q \<noteq> p \<Longrightarrow> phases w' q = phases w q"
  shows "liveOk w'"
proof -
  have own: "ownSocket (phases w q) = Some j \<and> q \<noteq> p" if "ownSocket (phases w' q) = Some j" for q j
    using that assms(6,7) by (cases "q = p") auto
  have other: "j \<noteq> i" if "ownSocket (phases w' q) = Some j" for q j
    using own [OF that] assms(1,2) unfolding liveOk_def by blast
  show ?thesis
    unfolding liveOk_def assms(3,4,5)
    using assms(1) own other unfolding liveOk_def by simp blast
qed

lemma own_lstat [simp]: "ownSocket (lstatStep name E w) = None"
  by (simp add: lstatStep_def split: option.split nodeAt.split)

lemma own_clear [simp]: "ownSocket (clearDeadSocket name a) = None"
  by (simp add: clearDeadSocket_def split: prod.split option.split)

lemma own_guard [simp]: "ownSocket (guardUnlink E i w) = Some i"
  by (simp add: guardUnlink_def split: option.split)

lemma listen_liveOk:
  assumes "liveOk w"
  shows "liveOk (listenStep name E p (phases w p) w)"
proof (cases "phases w p")
  case AtBind
  then show ?thesis
    using assms liveOk_bind [OF assms, where p = p]
    by (auto simp: bindStep_def split: option.split if_splits intro!: liveOk_same [OF assms])
next
  case (AbandonClose i e)
  then show ?thesis by (auto intro!: liveOk_drop [OF assms, of p i])
qed (use assms in \<open>auto simp: unlockSocketPath_def split: option.split if_splits intro!: liveOk_same [OF assms]\<close>)

lemma step_liveOk:
  assumes "liveOk w"
  shows "liveOk (sockStep name e w)"
proof (cases e)
  case (EvStart p)
  with assms show ?thesis by (auto split: listenPhase.split if_splits intro!: liveOk_same [OF assms])
next
  case (EvListen p E)
  with listen_liveOk [OF assms] show ?thesis by simp
next
  case (EvClose p E)
  show ?thesis
  proof (cases "phases w p")
    case (Listening i n)
    with EvClose show ?thesis by (auto intro!: liveOk_drop [OF assms, of p i])
  qed (use EvClose assms in \<open>auto split: if_splits intro!: liveOk_same [OF assms]\<close>)
next
  case (EvDie p)
  show ?thesis
  proof (cases "ownSocket (phases w p)")
    case None
    with EvDie show ?thesis
      by (auto simp: die_def unlockSocketPath_def split: if_splits intro!: liveOk_same [OF assms])
  next
    case (Some i)
    with EvDie show ?thesis
      by (auto simp: die_def unlockSocketPath_def intro!: liveOk_drop [OF assms Some])
  qed
qed

text \<open>
  Outside the critical section nothing is remembered of the path, so a step of the lock's holder
  disturbs no other call; and closing or dying only takes things away.
\<close>

lemma seen_outside: "\<not> critical ph \<Longrightarrow> seen ph w \<longleftrightarrow> seen ph w'"
  by (cases ph) auto

lemma seen_less:
  assumes "seen ph w" and "pathNode w' = None \<or> pathNode w' = pathNode w" and "set (live w') \<subseteq> set (live w)"
  shows "seen ph w'"
  using assms by (cases ph) (auto split: option.splits nodeAt.splits)

lemma seenOk_inside:
  assumes "lockOk w" and "seenOk w" and "critical (phases w p)" and "seen (phases w' p) w'"
    and "\<And>q. q \<noteq> p \<Longrightarrow> phases w' q = phases w q"
  shows "seenOk w'"
  unfolding seenOk_def
proof
  fix q
  show "seen (phases w' q) w'"
  proof (cases "q = p")
    case True
    with assms(4) show ?thesis by simp
  next
    case False
    then have "\<not> critical (phases w q)"
      using lockOk_D [OF assms(1,3)] lockOk_D [OF assms(1), of q] by auto
    with assms(2,5) False seen_outside [of "phases w q" w w'] show ?thesis
      by (simp add: seenOk_def)
  qed
qed

lemma seenOk_less:
  assumes "seenOk w" and "seen (phases w' p) w'" and "\<And>q. q \<noteq> p \<Longrightarrow> phases w' q = phases w q"
    and "pathNode w' = None \<or> pathNode w' = pathNode w" and "set (live w') \<subseteq> set (live w)"
  shows "seenOk w'"
  unfolding seenOk_def
proof
  fix q
  show "seen (phases w' q) w'"
    using assms seen_less [of "phases w q" w w'] by (cases "q = p") (auto simp: seenOk_def)
qed

lemma seen_p: "seenOk w \<Longrightarrow> phases w p = ph \<Longrightarrow> seen ph w"
  by (auto simp: seenOk_def)

lemma seen_clear: "seen AtProbe w \<Longrightarrow> seen (clearDeadSocket name (dial q w)) w"
  by (auto simp: clearDeadSocket_def dial_def split: option.splits nodeAt.splits)

lemma clear_fails:
  "clearDeadSocket name (DialFails e) = Refusing (Wrap (''cannot tell whether '' @ name @ '' is in use: '') e)"
  by (simp add: clearDeadSocket_def)

lemma seen_own:
  assumes "seenOk w" and "phases w p = AtGuard i"
  shows "seen (guardUnlink E i w) w"
  using seen_p [OF assms] by (auto simp: guardUnlink_def split: option.split)

lemma listen_seenOk:
  assumes "lockOk w" and "liveOk w" and "seenOk w"
  shows "seenOk (listenStep name E p (phases w p) w)"
proof (cases "critical (phases w p)")
  case True
  have pp: "seen (phases w p) w" using assms(3) by (simp add: seenOk_def)
  have "seen (phases (listenStep name E p (phases w p) w) p) (listenStep name E p (phases w p) w)"
  proof (cases "phases w p")
    case AtLstat
    then show ?thesis by (simp add: lstatStep_def split: option.split nodeAt.split)
  next
    case AtProbe
    with pp have "seen AtProbe w" by simp
    then have "seen (clearDeadSocket name (dial (queueFull E) w)) w" by (rule seen_clear)
    then have "seen (clearDeadSocket name (dial (queueFull E) w)) (at_phase p ph w)" for ph
      by (rule seen_less) simp_all
    with AtProbe show ?thesis by (cases "callErr E") (simp_all add: clear_fails)
  next
    case AtBind
    then show ?thesis by (simp add: bindStep_def split: option.split)
  next
    case (AtGuard i)
    have "seen (guardUnlink E i w) (at_phase p ph w)" for ph
      by (rule seen_less [OF seen_own [OF assms(3) AtGuard]]) simp_all
    with AtGuard show ?thesis by simp
  qed (use pp True in \<open>auto simp: unlockSocketPath_def split: option.split\<close>)
  moreover have "phases (listenStep name E p (phases w p) w) q = phases w q" if "q \<noteq> p" for q
    using that by (cases "phases w p") (auto simp: bindStep_def unlockSocketPath_def split: option.split)
  ultimately show ?thesis by (rule seenOk_inside [OF assms(1,3) True])
next
  case False
  then show ?thesis
    using assms(3) by (cases "phases w p") (auto split: option.split intro!: seenOk_less [OF assms(3), of _ p])
qed

lemma step_seenOk:
  assumes "lockOk w" and "liveOk w" and "seenOk w"
  shows "seenOk (sockStep name e w)"
proof (cases e)
  case (EvStart p)
  with assms(3) show ?thesis by (auto split: listenPhase.split intro!: seenOk_less [OF assms(3), of _ p])
next
  case (EvListen p E)
  with listen_seenOk [OF assms] show ?thesis by simp
next
  case (EvClose p E)
  with assms(3) show ?thesis
    by (cases "phases w p") (auto intro!: seenOk_less [OF assms(3), of _ p])
next
  case (EvDie p)
  then show ?thesis
    by (auto simp: die_def unlockSocketPath_def split: option.split intro!: seenOk_less [OF assms(3), of _ p])
qed

lemma step_sockOk: "sockOk w \<Longrightarrow> sockOk (sockStep name e w)"
  by (simp add: sockOk_def step_lockOk step_liveOk step_seenOk)

lemma run_sockOk: "sockOk w \<Longrightarrow> sockOk (sockRun name es w)"
  unfolding sockRun_def by (induction es arbitrary: w) (simp_all add: step_sockOk)

lemma own_live: "sockOk w \<Longrightarrow> ownSocket (phases w p) = Some i \<Longrightarrow> i \<in> set (live w) \<and> i < nextSock w"
  unfolding sockOk_def liveOk_def by blast

section \<open>Listen spares live sockets\<close>

text \<open>
  A live listener's socket disappears from the path only through a \<open>Close\<close> that has looked before,
  or because its own call of \<open>Listen\<close> gives it up: never because another call took it for dead.
\<close>

lemma only_close_unlinks_live:
  assumes "sockOk w" and "pathNode w = Some (Sock i)" and "i \<in> set (live w)"
    and "pathNode (sockStep name e w) \<noteq> Some (Sock i)"
  shows "(\<exists>p E. e = EvClose p E \<and> phases w p = Removing)
    \<or> (\<exists>p E x. e = EvListen p E \<and> phases w p = AbandonUnlink i x)"
proof (cases e)
  case (EvListen p E)
  have "seen (phases w p) w" using assms(1) by (simp add: sockOk_def seenOk_def)
  with EvListen assms(2-4) show ?thesis
    by (cases "phases w p") (auto simp: bindStep_def unlockSocketPath_def split: option.splits if_splits)
next
  case (EvClose p E)
  with assms show ?thesis by (cases "phases w p") auto
qed (use assms in \<open>auto simp: die_def unlockSocketPath_def split: listenPhase.splits if_splits\<close>)

section \<open>When closing does not meet a binding\<close>

text \<open>
  A binding that a \<open>Close\<close> can take for the socket it closed: it comes between that \<open>Close\<close>'s look and its
  removal, or before the look and with the inode number that the \<open>Close\<close> will look for.
\<close>

fun confuses :: "nat \<Rightarrow> listenPhase \<Rightarrow> sockets \<Rightarrow> bool" where
  "confuses a Removing w = True"
| "confuses a (Unlinking (Sock j)) w = (inodeNo w j = a)"
| "confuses a ph w = False"

definition bindsApart :: "sockEvent \<Rightarrow> sockets \<Rightarrow> bool" where
  "bindsApart e w \<longleftrightarrow> (\<forall>p E. e = EvListen p E \<longrightarrow> phases w p = AtBind \<longrightarrow>
     (\<forall>q. \<not> confuses (newInode E) (phases w q) w))"

text \<open>The executions without such a binding.\<close>

inductive sockReach :: "string \<Rightarrow> nodeAt option \<Rightarrow> sockets \<Rightarrow> bool" where
  start: "sockReach name n (freshSockets n)"
| step: "sockReach name n w \<Longrightarrow> bindsApart e w \<Longrightarrow> sockReach name n (sockStep name e w)"

fun standing :: "listenPhase \<Rightarrow> nat option" where
  "standing (AbandonClose i e) = None"
| "standing ph = ownSocket ph"

definition settled :: "sockets \<Rightarrow> bool" where
  "settled w \<longleftrightarrow> (\<forall>p i. standing (phases w p) = Some i \<longrightarrow> pathNode w = Some (Sock i))"

text \<open>While a \<open>Close\<close> is on its way to the removal, what it will take for its own socket is dead.\<close>

fun closesDead :: "listenPhase \<Rightarrow> sockets \<Rightarrow> bool" where
  "closesDead Removing w = (\<forall>i. pathNode w = Some (Sock i) \<longrightarrow> i \<notin> set (live w))"
| "closesDead (Unlinking n) w =
     (\<exists>j. n = Sock j \<and> j < nextSock w
        \<and> (\<forall>i. pathNode w = Some (Sock i) \<longrightarrow> i \<in> set (live w) \<longrightarrow> inodeNo w i \<noteq> inodeNo w j))"
| "closesDead ph w = True"

definition closesOk :: "sockets \<Rightarrow> bool" where
  "closesOk w \<longleftrightarrow> (\<forall>q. closesDead (phases w q) w)"

lemma standing_own: "standing ph = Some i \<Longrightarrow> ownSocket ph = Some i"
  by (cases ph) auto

lemma nobody_standing:
  assumes "sockOk w" and "settled w" and "\<forall>i. pathNode w = Some (Sock i) \<longrightarrow> i \<notin> set (live w)"
  shows "standing (phases w p) = None"
proof (rule ccontr)
  assume "standing (phases w p) \<noteq> None"
  then obtain i where i: "standing (phases w p) = Some i" by auto
  with assms(2) have "pathNode w = Some (Sock i)" by (simp add: settled_def)
  moreover from standing_own [OF i] assms(1) have "i \<in> set (live w)" by (auto simp: sockOk_def liveOk_def)
  ultimately show False using assms(3) by simp
qed

lemma settled_D: "settled w \<Longrightarrow> standing (phases w p) = Some i \<Longrightarrow> pathNode w = Some (Sock i)"
  by (simp add: settled_def)

lemma settled_same:
  assumes "settled w" and "pathNode w' = pathNode w"
    and "\<And>q. standing (phases w' q) = None \<or> standing (phases w' q) = standing (phases w q)"
  shows "settled w'"
  unfolding settled_def
proof (intro allI impI)
  fix p i assume "standing (phases w' p) = Some i"
  with assms(3) [of p] have "standing (phases w p) = Some i" by auto
  with assms(1,2) show "pathNode w' = Some (Sock i)" by (simp add: settled_def)
qed

lemma settled_empty:
  assumes "\<And>q. standing (phases w' q) = None"
  shows "settled w'"
  using assms by (simp add: settled_def)

lemma settled_step:
  assumes "sockOk w" and "settled w" and "closesOk w"
  shows "settled (sockStep name e w)"
proof (cases e)
  case (EvListen p E)
  have pp: "seen (phases w p) w" using assms(1) by (simp add: sockOk_def seenOk_def)
  show ?thesis
  proof (cases "phases w p")
    case AtRemove
    with pp have "standing (phases w q) = None" for q
      by (intro nobody_standing [OF assms(1,2)]) auto
    with EvListen AtRemove show ?thesis by (auto split: option.split intro!: settled_empty)
  next
    case AtBind
    show ?thesis
    proof (cases "callErr E = None \<and> pathNode w = None")
      case True
      then have "standing (phases w q) = None" for q
        by (intro nobody_standing [OF assms(1,2)]) auto
      with True EvListen AtBind show ?thesis by (auto simp: bindStep_def settled_def split: if_splits)
    next
      case False
      with EvListen AtBind show ?thesis
        by (auto simp: bindStep_def split: option.split intro!: settled_same [OF assms(2)])
    qed
  next
    case (AbandonUnlink i x)
    have "standing (phases w q) = None" if "q \<noteq> p" for q
    proof (rule ccontr)
      assume "standing (phases w q) \<noteq> None"
      then obtain j where j: "standing (phases w q) = Some j" by auto
      from settled_D [OF assms(2), of p i] AbandonUnlink have "pathNode w = Some (Sock i)" by simp
      moreover from j assms(2) have "pathNode w = Some (Sock j)" by (simp add: settled_def)
      ultimately have "ownSocket (phases w q) = ownSocket (phases w p)"
        using standing_own [OF j] AbandonUnlink by simp
      with assms(1) that AbandonUnlink show False by (auto simp: sockOk_def liveOk_def)
    qed
    with EvListen AbandonUnlink show ?thesis by (auto intro!: settled_empty)
  next
    case AtProbe
    have "standing (clearDeadSocket name a) = None" for a
      by (simp add: clearDeadSocket_def split: prod.split option.split)
    with EvListen AtProbe show ?thesis by (auto split: option.split intro!: settled_same [OF assms(2)])
  next
    case AtLstat
    have "standing (lstatStep name E w) = None"
      by (simp add: lstatStep_def split: option.split nodeAt.split)
    with EvListen AtLstat show ?thesis by (auto intro!: settled_same [OF assms(2)])
  next
    case (AtGuard i)
    have "standing (guardUnlink E i w) = Some i"
      by (simp add: guardUnlink_def split: option.split)
    with EvListen AtGuard show ?thesis by (auto intro!: settled_same [OF assms(2)])
  qed (use EvListen assms(2) in \<open>auto simp: unlockSocketPath_def split: option.split intro!: settled_same [OF assms(2)]\<close>)
next
  case (EvStart p)
  with assms(2) show ?thesis by (auto split: listenPhase.split intro!: settled_same [OF assms(2)])
next
  case (EvClose p E)
  show ?thesis
  proof (cases "phases w p")
    case Removing
    with assms(3) have "closesDead Removing w" unfolding closesOk_def by metis
    then have "standing (phases w q) = None" for q
      by (intro nobody_standing [OF assms(1,2)]) auto
    with EvClose Removing show ?thesis by (auto intro!: settled_empty)
  qed (use EvClose assms(2) in \<open>auto intro!: settled_same [OF assms(2)]\<close>)
next
  case (EvDie p)
  then show ?thesis
    by (auto simp: die_def unlockSocketPath_def intro!: settled_same [OF assms(2)])
qed

fun actor :: "sockEvent \<Rightarrow> nat" where
  "actor (EvStart p) = p"
| "actor (EvListen p E) = p"
| "actor (EvClose p E) = p"
| "actor (EvDie p) = p"

text \<open>A step other than a binding only takes away; nobody else moves.\<close>

lemma step_less:
  assumes "phases w p = AtBind \<longrightarrow> (\<forall>E. e \<noteq> EvListen p E)" and "p = actor e"
  shows "(pathNode (sockStep name e w) = None \<or> pathNode (sockStep name e w) = pathNode w)
    \<and> set (live (sockStep name e w)) \<subseteq> set (live w) \<and> nextSock (sockStep name e w) = nextSock w
    \<and> inodeNo (sockStep name e w) = inodeNo w"
proof (cases e)
  case (EvListen q E)
  with assms show ?thesis
    by (cases "phases w p") (auto simp: unlockSocketPath_def split: option.split)
next
  case (EvClose q E)
  with assms show ?thesis by (cases "phases w p") auto
qed (use assms in \<open>auto simp: die_def unlockSocketPath_def split: listenPhase.split option.split\<close>)

lemma others_wait: "q \<noteq> actor e \<Longrightarrow> phases (sockStep name e w) q = phases w q"
proof (cases e)
  case (EvListen p E)
  then show "q \<noteq> actor e \<Longrightarrow> phases (sockStep name e w) q = phases w q"
    by (cases "phases w p") (auto simp: bindStep_def unlockSocketPath_def split: option.split)
next
  case (EvClose p E)
  then show "q \<noteq> actor e \<Longrightarrow> phases (sockStep name e w) q = phases w q"
    by (cases "phases w p") auto
qed (auto simp: die_def unlockSocketPath_def split: listenPhase.split)

lemma closesDead_less:
  assumes "closesDead ph w" and "pathNode w' = None \<or> pathNode w' = pathNode w"
    and "set (live w') \<subseteq> set (live w)" and "nextSock w' = nextSock w" and "inodeNo w' = inodeNo w"
  shows "closesDead ph w'"
  using assms by (cases ph) (auto, blast)

text \<open>What the process that moves comes to: only a \<open>Close\<close> brings it nearer to a removal.\<close>

lemma closesDead_actor:
  assumes "sockOk w" and "settled w" and "closesDead (phases w (actor e)) w"
    and "\<not> (phases w (actor e) = AtBind \<and> (\<exists>E. e = EvListen (actor e) E))"
  shows "closesDead (phases (sockStep name e w) (actor e)) (sockStep name e w)"
proof (cases e)
  case (EvListen p E)
  with assms(3,4) show ?thesis
    by (cases "phases w p") (auto simp: listen_defs split: option.splits nodeAt.splits prod.splits)
next
  case (EvClose p E)
  show ?thesis
  proof (cases "phases w p")
    case (Listening i n)
    have "seen (phases w p) w" using assms(1) by (simp add: sockOk_def seenOk_def)
    moreover have "pathNode w = Some (Sock i)" using settled_D [OF assms(2), of p i] Listening by simp
    moreover have "i < nextSock w" using own_live [OF assms(1), of p i] Listening by simp
    ultimately show ?thesis using EvClose Listening by simp
  next
    case (Unlinking n)
    with EvClose assms(3) show ?thesis by (auto split: option.splits)
  qed (use EvClose assms(3) in auto)
next
  case (EvStart p)
  with assms(3) show ?thesis by (cases "phases w p") auto
next
  case (EvDie p)
  then show ?thesis by (simp add: die_def)
qed

lemma closesOk_bind:
  assumes "sockOk w" and "closesOk w" and "bindsApart (EvListen p E) w" and "phases w p = AtBind"
  shows "closesOk (bindStep name E p w)"
  unfolding closesOk_def
proof
  fix q
  have c: "closesDead (phases w q) w" "\<not> confuses (newInode E) (phases w q) w"
    using assms(2-4) by (simp_all add: closesOk_def bindsApart_def)
  show "closesDead (phases (bindStep name E p w) q) (bindStep name E p w)"
  proof (cases "phases w q")
    case (Unlinking n)
    with c show ?thesis using assms(4)
      by (cases n) (auto simp: bindStep_def split: option.splits)
  qed (use c assms(4) in \<open>auto simp: bindStep_def split: option.splits\<close>)
qed

lemma closesOk_step:
  assumes "sockOk w" and "settled w" and "closesOk w" and "bindsApart e w"
  shows "closesOk (sockStep name e w)"
proof (cases "phases w (actor e) = AtBind \<and> (\<exists>E. e = EvListen (actor e) E)")
  case True
  then obtain p E where "e = EvListen p E" "phases w p = AtBind" by auto
  with closesOk_bind [OF assms(1,3)] assms(4) show ?thesis by simp
next
  case False
  then have less: "phases w (actor e) = AtBind \<longrightarrow> (\<forall>E. e \<noteq> EvListen (actor e) E)" by blast
  have c: "closesDead (phases w q) w" for q using assms(3) by (simp add: closesOk_def)
  show ?thesis
    unfolding closesOk_def
  proof
    fix q
    show "closesDead (phases (sockStep name e w) q) (sockStep name e w)"
    proof (cases "q = actor e")
      case True
      with closesDead_actor [OF assms(1,2) c False] show ?thesis by simp
    next
      case no: False
      with closesDead_less [OF c] step_less [OF less refl] show ?thesis by (simp add: others_wait)
    qed
  qed
qed

lemma sockReach_ok: "sockReach name n w \<Longrightarrow> sockOk w \<and> settled w \<and> closesOk w"
proof (induction rule: sockReach.induct)
  case (start name n)
  show ?case
    using fresh_sockOk [of n] by (simp add: settled_def closesOk_def freshSockets_def)
next
  case (step name n w e)
  then show ?case
    by (simp add: step_sockOk settled_step closesOk_step)
qed

lemma standing_alone:
  assumes "sockOk w" and "settled w" and "standing (phases w p) = Some i" and "standing (phases w q) = Some j"
  shows "q = p"
proof -
  have "i = j" using settled_D [OF assms(2,3)] settled_D [OF assms(2,4)] by simp
  with standing_own [OF assms(3)] standing_own [OF assms(4)] assms(1)
  show ?thesis unfolding sockOk_def liveOk_def by blast
qed

text \<open>
  Claim C9.  As long as no socket is bound while a \<open>Close\<close> could take it for the one it closed (between
  that \<open>Close\<close>'s look at the path and its removal, or before the look with the very inode number it looks
  for), in whatever order the calls of any number of processes come, fail or are cut off by death: the
  socket of a returned listener is at the path and answers, and there is no second listener.
\<close>

theorem one_listener_at_the_path:
  assumes "sockReach name n w" and "phases w p = Listening i m"
  shows "pathNode w = Some (Sock i) \<and> dial False w = Connected
    \<and> (\<forall>q j k. phases w q = Listening j k \<longrightarrow> q = p)"
proof -
  from sockReach_ok [OF assms(1)] have ok: "sockOk w" "settled w" by simp_all
  from settled_D [OF ok(2), of p i] assms(2) have at: "pathNode w = Some (Sock i)" by simp
  from own_live [OF ok(1), of p i] assms(2) have "i \<in> set (live w)" by simp
  with at have "dial False w = Connected" by (simp add: dial_def)
  moreover have "q = p" if "phases w q = Listening j k" for q j k
    using standing_alone [OF ok, of p i q j] assms(2) that by simp
  ultimately show ?thesis using at by blast
qed

text \<open>One call of \<open>Listen\<close> that nothing disturbs.\<close>

definition listenEvents :: "nat \<Rightarrow> sockEvent list" where
  "listenEvents p = EvStart p # replicate 8 (EvListen p fine)"

fun listening :: "sockEvent \<Rightarrow> bool" where
  "listening (EvStart p) = True"
| "listening (EvListen p E) = True"
| "listening _ = False"

text \<open>Events among which no \<open>Close\<close> is.\<close>

lemma listening_no_close:
  assumes "\<forall>q a. \<not> confuses a (phases w q) w" and "listening e"
  shows "\<forall>q a. \<not> confuses a (phases (sockStep name e w) q) (sockStep name e w)"
proof (intro allI)
  fix q a
  have c: "\<not> (phases w q = Removing \<or> (\<exists>j. phases w q = Unlinking (Sock j)))" for q
    using assms(1) by (metis confuses.simps(1,2))
  have "\<not> (phases (sockStep name e w) q = Removing \<or> (\<exists>j. phases (sockStep name e w) q = Unlinking (Sock j)))"
  proof (cases "q = actor e")
    case True
    show ?thesis
    proof (cases e)
      case (EvListen p E)
      with True c [of p] show ?thesis
        by (cases "phases w p") (auto simp: listen_defs split: option.splits nodeAt.splits prod.splits if_splits)
    next
      case (EvStart p)
      with True c [of p] show ?thesis by (auto split: listenPhase.splits)
    qed (use assms(2) in simp_all)
  qed (use c in \<open>simp add: others_wait\<close>)
  then show "\<not> confuses a (phases (sockStep name e w) q) (sockStep name e w)"
    by (cases "(a, phases (sockStep name e w) q, sockStep name e w)" rule: confuses.cases) auto
qed

lemma no_close_reach:
  assumes "sockReach name n w" and "\<forall>q a. \<not> confuses a (phases w q) w" and "list_all listening es"
  shows "sockReach name n (sockRun name es w)"
  using assms
proof (induction es arbitrary: w)
  case Nil
  then show ?case by (simp add: sockRun_def)
next
  case (Cons e es)
  from Cons.prems(2) have "bindsApart e w" by (simp add: bindsApart_def)
  with Cons.IH [of "sockStep name e w"] sockReach.step [OF Cons.prems(1)] listening_no_close [OF Cons.prems(2)]
    Cons.prems(3)
  show ?case by (simp add: sockRun_def)
qed

theorem one_listener_at_the_path_witness:
  "pathNode (sockRun ''s'' (listenEvents 3) (freshSockets (Some (Sock 7)))) = Some (Sock 8)
   \<and> dial False (sockRun ''s'' (listenEvents 3) (freshSockets (Some (Sock 7)))) = Connected"
proof -
  have r: "sockReach ''s'' (Some (Sock 7)) (sockRun ''s'' (listenEvents 3) (freshSockets (Some (Sock 7))))"
    by (rule no_close_reach [OF sockReach.start]) (simp_all add: freshSockets_def listenEvents_def list_all_iff)
  have l: "phases (sockRun ''s'' (listenEvents 3) (freshSockets (Some (Sock 7)))) 3 = Listening 8 (Sock 8)"
    by code_simp
  from one_listener_at_the_path [OF r l] show ?thesis by simp
qed

text \<open>What an undisturbed call comes to, by what is at the path.\<close>

lemma listen_outcome:
  assumes "phases w p = Away" and "lockHolder w = None"
  shows "phases (sockRun name (listenEvents p) w) p =
    (case pathNode w of
       None \<Rightarrow> Listening (nextSock w) (Sock (nextSock w))
     | Some NotSock \<Rightarrow> Failed (Msg (''refusing to replace non-socket path '' @ name))
     | Some (Sock i) \<Rightarrow>
         if i \<in> set (live w) then Failed (Note ErrInUse ('': '' @ name))
         else Listening (nextSock w) (Sock (nextSock w)))"
  using assms
  by (auto simp: sockRun_def listenEvents_def numeral_eq_Suc fine_def listen_defs dial_def
      split: option.split nodeAt.split)

text \<open>
  Without that proviso, first: a listener closes, looks and finds its socket; before it removes the path
  another process finds the socket dead, replaces it and listens; the removal then takes away the new
  socket, and a third process can listen as well.
\<close>

definition fineWith :: "nat \<Rightarrow> callEnv" where "fineWith a = fine\<lparr>newInode := a\<rparr>"

definition listenWith :: "nat \<Rightarrow> nat \<Rightarrow> sockEvent list" where
  "listenWith a p = EvStart p # replicate 8 (EvListen p (fineWith a))"

definition racingEvents :: "sockEvent list" where
  "racingEvents =
     listenWith 10 0 @ [EvClose 0 fine, EvClose 0 fine] @ listenWith 11 1 @ [EvClose 0 fine] @ listenWith 12 2"

lemma close_races_with_listen:
  "(let w = sockRun ''s'' racingEvents (freshSockets None)
    in phases w 1 = Listening 1 (Sock 1) \<and> phases w 2 = Listening 2 (Sock 2) \<and> pathNode w = Some (Sock 2))"
  by code_simp

text \<open>
  Second: the replacement comes after the listener has closed its socket and before it looks.  When the new
  socket has the inode number of the old one, the look takes it for the listener's own, although look
  and removal follow each other at once; with another number it stays.
\<close>

definition reusingEvents :: "nat \<Rightarrow> sockEvent list" where
  "reusingEvents a =
     listenWith 10 0 @ [EvClose 0 fine] @ listenWith a 1 @ [EvClose 0 fine, EvClose 0 fine] @ listenWith 12 2"

lemma reused_inode_is_unlinked:
  "(let w = sockRun ''s'' (reusingEvents 10) (freshSockets None)
    in phases w 1 = Listening 1 (Sock 1) \<and> phases w 2 = Listening 2 (Sock 2) \<and> pathNode w = Some (Sock 2))"
  "(let w = sockRun ''s'' (reusingEvents 11) (freshSockets None)
    in phases w 1 = Listening 1 (Sock 1) \<and> phases w 2 = Failed (Note ErrInUse ('': '' @ ''s'')) \<and> pathNode w = Some (Sock 1))"
  by code_simp+

end
