(* ===== verification/Surfaces.thy ===== *)
theory Surfaces
  imports Sockets FileSys
begin

text \<open>
  The surfaces an application shows itself on: the modes and the authorization gate of
  src/mode/mode.go, the probe for a running service of src/daemon/attach.go, the run states and icons
  of src/tray/state.go and src/tray/tray.go, and the icon files of src/desktop/notify.go.  The hooks
  of the application return errors; which of them were called is part of the result.  The native tray
  and notification libraries are the sequence of calls they receive.
\<close>

section \<open>Modes\<close>

type_synonym mode = string

definition ModeCLI :: mode where "ModeCLI = ''cli''"
definition ModeServe :: mode where "ModeServe = ''serve''"
definition ModeDaemon :: mode where "ModeDaemon = ''daemon''"
definition ModeDeck :: mode where "ModeDeck = ''deck''"

lemmas mode_names = ModeCLI_def ModeServe_def ModeDaemon_def ModeDeck_def

definition ErrUnsupportedMode :: err where
  "ErrUnsupportedMode = Msg ''mode: unsupported by this build''"

text \<open>\<open>daemonSupported\<close> is the build's constant: true but under the tag \<open>nodaemon\<close>.\<close>

definition Supported :: "bool \<Rightarrow> mode \<Rightarrow> bool" where
  "Supported daemonSupported m = (if m = ModeServe \<or> m = ModeDaemon then daemonSupported else True)"

datatype authState = AuthUnauthenticated | AuthUnauthorized | AuthAuthorized | OtherAuth int

datatype policy = PolicyWarn | PolicyBlock

text \<open>A hook is \<open>None\<close> when nil, else what it returns.\<close>

record gateHooks =
  Classify :: "authState option"
  CLIUnauthenticated :: "err option option"
  CLIUnauthorized :: "err option option"
  UnauthorizedPolicy :: policy
  ServeUnauthorized :: "err option option"
  DaemonUnauthorized :: "err option option"
  DeckRequire :: "err option option"

datatype hookName = HClassify | HCLIUnauthenticated | HCLIUnauthorized | HServe | HDaemon | HDeck

definition callHook :: "hookName \<Rightarrow> err option option \<Rightarrow> err option \<times> hookName list" where
  "callHook n h = (case h of None \<Rightarrow> (None, []) | Some r \<Rightarrow> (r, [n]))"

definition gateByState :: "mode \<Rightarrow> gateHooks \<Rightarrow> authState \<Rightarrow> err option \<times> hookName list" where
  "gateByState m hooks state =
     (if m = ModeServe then
        (if state \<noteq> AuthAuthorized then callHook HServe (ServeUnauthorized hooks) else (None, []))
      else if m = ModeDaemon then
        (if state \<noteq> AuthAuthorized then callHook HDaemon (DaemonUnauthorized hooks) else (None, []))
      else if m = ModeDeck then callHook HDeck (DeckRequire hooks)
      else
        (case state of
           AuthUnauthenticated \<Rightarrow> callHook HCLIUnauthenticated (CLIUnauthenticated hooks)
         | AuthUnauthorized \<Rightarrow>
             (case callHook HCLIUnauthorized (CLIUnauthorized hooks) of
                (e, called) \<Rightarrow> (if UnauthorizedPolicy hooks = PolicyBlock then e else None, called))
         | _ \<Rightarrow> (None, [])))"

definition Gate :: "bool \<Rightarrow> mode \<Rightarrow> gateHooks \<Rightarrow> err option \<times> hookName list" where
  "Gate daemonSupported m hooks =
     (if \<not> Supported daemonSupported m then (Some (Note ErrUnsupportedMode ('': '' @ m)), [])
      else
        (case Classify hooks of
           None \<Rightarrow> (None, [])
         | Some state \<Rightarrow> (case gateByState m hooks state of (e, called) \<Rightarrow> (e, HClassify # called))))"

lemma gate_fails_closed:
  "\<not> daemonSupported \<Longrightarrow> m \<in> {ModeServe, ModeDaemon}
    \<Longrightarrow> Gate daemonSupported m hooks = (Some (Note ErrUnsupportedMode ('': '' @ m)), [])"
  by (auto simp: Gate_def Supported_def)

text \<open>An error of the gate is the build's refusal or was returned by the hook of that mode and state.\<close>

lemma gate_error_from_hook:
  assumes "Gate d m hooks = (Some e, called)"
  shows "(\<not> Supported d m \<and> called = [])
    \<or> (m = ModeServe \<and> ServeUnauthorized hooks = Some (Some e) \<and> called = [HClassify, HServe])
    \<or> (m = ModeDaemon \<and> DaemonUnauthorized hooks = Some (Some e) \<and> called = [HClassify, HDaemon])
    \<or> (m = ModeDeck \<and> DeckRequire hooks = Some (Some e) \<and> called = [HClassify, HDeck])
    \<or> (Classify hooks = Some AuthUnauthenticated \<and> CLIUnauthenticated hooks = Some (Some e)
        \<and> called = [HClassify, HCLIUnauthenticated])
    \<or> (Classify hooks = Some AuthUnauthorized \<and> UnauthorizedPolicy hooks = PolicyBlock
        \<and> CLIUnauthorized hooks = Some (Some e) \<and> called = [HClassify, HCLIUnauthorized])"
proof (cases "Supported d m")
  case False
  with assms show ?thesis by (simp add: Gate_def)
next
  case True
  with assms obtain state where c: "Classify hooks = Some state"
    by (cases "Classify hooks") (auto simp: Gate_def)
  with assms True obtain rest where g: "gateByState m hooks state = (Some e, rest)" "called = HClassify # rest"
    by (auto simp: Gate_def split: prod.splits)
  show ?thesis
  proof (cases "m \<in> {ModeServe, ModeDaemon, ModeDeck}")
    case True
    with g show ?thesis
      by (auto simp: gateByState_def callHook_def split: option.splits if_splits)
  next
    case False
    with g c show ?thesis
      by (cases state) (auto simp: gateByState_def callHook_def split: option.splits if_splits)
  qed
qed

lemma gate_lets_authorized_pass:
  "Supported d m \<Longrightarrow> Classify hooks = Some AuthAuthorized \<Longrightarrow> m \<noteq> ModeDeck \<Longrightarrow> Gate d m hooks = (None, [HClassify])"
  by (simp add: Gate_def gateByState_def)

text \<open>\<open>Attached\<close>: the raw probe counts only in a build that has a service to attach to.\<close>

definition Attached :: "bool \<Rightarrow> dialAnswer \<Rightarrow> bool" where
  "Attached daemonSupported answer = (if \<not> daemonSupported then False else IsListening answer)"

section \<open>Run states and icons\<close>

datatype runState = StateInactive | StateRunning | StateNotify | StateWarn | StateError | OtherState int

definition States :: "runState list" where
  "States = [StateInactive, StateRunning, StateNotify, StateWarn, StateError]"

fun State_String :: "runState \<Rightarrow> string" where
  "State_String StateInactive = ''inactive''"
| "State_String StateRunning = ''running''"
| "State_String StateNotify = ''notify''"
| "State_String StateWarn = ''warn''"
| "State_String StateError = ''error''"
| "State_String (OtherState n) = ''unknown''"

record asset =
  Name :: string
  MIME :: string
  Bytes :: bytes

type_synonym icons = "runState \<rightharpoonup> asset"

definition NewIcons :: icons where "NewIcons = (\<lambda>_. None)"

definition Icons_Set :: "runState \<Rightarrow> asset \<Rightarrow> icons \<Rightarrow> icons" where
  "Icons_Set state a m = m(state \<mapsto> a)"

definition Icons_Get :: "runState \<Rightarrow> icons \<Rightarrow> asset \<times> bool" where
  "Icons_Get state m =
     (case m state of None \<Rightarrow> (\<lparr>Name = [], MIME = [], Bytes = []\<rparr>, False) | Some a \<Rightarrow> (a, True))"

definition Missing :: "icons \<Rightarrow> runState list" where
  "Missing m = filter (\<lambda>s. m s = None) States"

definition Complete :: "icons \<Rightarrow> bool" where
  "Complete m \<longleftrightarrow> length (Missing m) = 0"

lemma Missing_Set: "Missing (Icons_Set s a m) = filter (\<lambda>t. t \<noteq> s) (Missing m)"
  by (auto simp: Missing_def Icons_Set_def intro: filter_cong)

lemma Complete_iff: "Complete m \<longleftrightarrow> (\<forall>s \<in> set States. snd (Icons_Get s m))"
  by (auto simp: Complete_def Missing_def Icons_Get_def filter_empty_conv split: option.split)

lemma Complete_after_all: "Complete (fold (\<lambda>s. Icons_Set s (f s)) States m)"
  by (simp add: Complete_def Missing_def States_def Icons_Set_def)

lemma State_String_inj:
  "s \<in> set States \<Longrightarrow> t \<in> set States \<Longrightarrow> State_String s = State_String t \<Longrightarrow> s = t"
  by (auto simp: States_def)

text \<open>What the tray library is told.\<close>

datatype trayCall = SetTitle string | SetIcon bytes | SetTooltip string | AddQuit

record trayConfig =
  Title :: string
  Tooltip :: string
  trayIcons :: "icons option"

text \<open>A dash between spaces, in UTF-8.\<close>

definition emDash :: string where
  "emDash = [CHR 0x20, CHR 0xE2, CHR 0x80, CHR 0x94, CHR 0x20]"

definition SetState :: "trayConfig \<Rightarrow> runState \<Rightarrow> trayCall list" where
  "SetState cfg s =
     (case trayIcons cfg of
        None \<Rightarrow> []
      | Some m \<Rightarrow> (case Icons_Get s m of (a, present) \<Rightarrow> if present \<and> Bytes a \<noteq> [] then [SetIcon (Bytes a)] else []))
     @ [SetTooltip ((if Tooltip cfg = [] then ''daemon'' else Tooltip cfg) @ emDash @ State_String s)]"

definition onReady :: "trayConfig \<Rightarrow> trayCall list" where
  "onReady cfg =
     (if Title cfg \<noteq> [] then [SetTitle (Title cfg)] else []) @ SetState cfg StateInactive @ [AddQuit]"

text \<open>A complete set of non-empty icons shows one for every state.\<close>

lemma SetState_shows_icon:
  assumes "trayIcons cfg = Some m" and "Complete m" and "s \<in> set States" and "Bytes (fst (Icons_Get s m)) \<noteq> []"
  shows "SetIcon (Bytes (fst (Icons_Get s m))) \<in> set (SetState cfg s)"
  using assms by (cases "Icons_Get s m") (force simp: SetState_def Complete_iff)

section \<open>Notification icons\<close>

text \<open>
  The files written for icons, by icon name.  \<open>created\<close> is the outcome of creating and of writing the
  temporary file.
\<close>

type_synonym iconPaths = "(string \<times> string) list"

definition iconExt :: "string \<Rightarrow> string" where
  "iconExt mime =
     (if mime = ''image/x-icon'' \<or> mime = ''image/vnd.microsoft.icon'' then ''.ico''
      else if mime = ''image/svg+xml'' then ''.svg''
      else if mime = ''image/jpeg'' then ''.jpg''
      else ''.png'')"

definition iconPath :: "(string \<Rightarrow> err + string) \<Rightarrow> err option \<Rightarrow> asset \<Rightarrow> iconPaths \<Rightarrow> string \<times> iconPaths" where
  "iconPath createTemp writeErr a paths =
     (if Bytes a = [] then ([], paths)
      else
        (case map_of paths (Name a) of
           Some p \<Rightarrow> (p, paths)
         | None \<Rightarrow>
             (case createTemp (''sisyphus-desktop-*'' @ iconExt (MIME a)) of
                Inl e \<Rightarrow> ([], paths)
              | Inr p \<Rightarrow> if writeErr \<noteq> None then ([], paths) else (p, (Name a, p) # paths))))"

lemma iconPath_stable:
  assumes "iconPath ct None a paths = (p, paths')" and "p \<noteq> []"
  shows "iconPath ct' w' a paths' = (p, paths')"
  using assms by (auto simp: iconPath_def split: if_splits option.splits sum.splits)

text \<open>The file is looked up by name alone: another icon of the same name is shown with the first one's bytes.\<close>

lemma iconPath_ignores_bytes:
  assumes "iconPath ct None a paths = (p, paths')" and "p \<noteq> []" and "Name b = Name a" and "Bytes b \<noteq> []"
  shows "fst (iconPath ct' w' b paths') = p"
  using assms by (auto simp: iconPath_def split: if_splits option.splits sum.splits)

end
