(* ===== verification/Frames.thy ===== *)
theory Frames
  imports FileSys
begin

text \<open>
  Values over a socket, src/ipc/socket.go and src/ipc/peercred_linux.go: which peers are served and
  how many at once, the frames a connection is sent, and the reading side, \<open>Dial\<close>, with Go's
  \<open>bufio.Scanner\<close> over lines.  A connection is its sequence of turns of the \<open>select\<close>; the encoder and
  the decoder are parameters.  The reading side is a function of all the bytes that arrive until the
  connection ends, since the scanner's tokens do not depend on how the reads cut them.
\<close>

section \<open>Peers\<close>

text \<open>
  What the operating system says of a connection: whether it is a Unix one, the errors of
  \<open>SyscallConn\<close>, \<open>Control\<close> and \<open>GetsockoptUcred\<close>, and the credentials' user.
\<close>

record peerConn =
  isUnixConn :: bool
  rawErr :: "err option"
  controlErr :: "err option"
  credErr :: "err option"
  credUid :: "nat option"

definition allowPeer :: "nat \<Rightarrow> peerConn \<Rightarrow> bool" where
  "allowPeer uid c =
     (if \<not> isUnixConn c then True
      else if rawErr c \<noteq> None then False
      else if controlErr c \<noteq> None then False
      else (case (credErr c, credUid c) of
              (None, Some u) \<Rightarrow> u = uid
            | _ \<Rightarrow> False))"

section \<open>Broadcast: accepting\<close>

definition maxBroadcastConns :: nat where "maxBroadcastConns = 64"

text \<open>
  The loop of \<open>Broadcast\<close> with the goroutines it starts: a listener's error (the context's end closes
  it) ends the loop, and a connection that ends gives its slot back.
\<close>

datatype acceptEvent = AcceptErr err | Accepted nat peerConn | ConnEnds nat

record server =
  accepting :: bool
  slots :: nat
  serving :: "(nat \<times> peerConn) list"
  refused :: "nat list"

definition startServer :: server where
  "startServer = \<lparr>accepting = True, slots = 0, serving = [], refused = []\<rparr>"

fun broadcastStep :: "nat \<Rightarrow> acceptEvent \<Rightarrow> server \<Rightarrow> server" where
  "broadcastStep uid (AcceptErr e) s = s\<lparr>accepting := False\<rparr>"
| "broadcastStep uid (Accepted c peer) s =
     (if \<not> accepting s then s
      else if \<not> allowPeer uid peer then s\<lparr>refused := refused s @ [c]\<rparr>
      else if slots s < maxBroadcastConns
        then s\<lparr>slots := slots s + 1, serving := (c, peer) # serving s\<rparr>
      else s\<lparr>refused := refused s @ [c]\<rparr>)"
| "broadcastStep uid (ConnEnds c) s =
     (case map_of (serving s) c of
        None \<Rightarrow> s
      | Some peer \<Rightarrow> s\<lparr>slots := slots s - 1, serving := remove1 (c, peer) (serving s)\<rparr>)"

definition serverOk :: "nat \<Rightarrow> server \<Rightarrow> bool" where
  "serverOk uid s \<longleftrightarrow>
     slots s = length (serving s) \<and> slots s \<le> maxBroadcastConns
     \<and> (\<forall>(c, peer) \<in> set (serving s). allowPeer uid peer)"

lemma broadcastStep_ok:
  assumes "serverOk uid s"
  shows "serverOk uid (broadcastStep uid e s)"
proof (cases e)
  case (ConnEnds c)
  show ?thesis
  proof (cases "map_of (serving s) c")
    case None
    with ConnEnds assms show ?thesis by simp
  next
    case (Some peer)
    then have "(c, peer) \<in> set (serving s)" by (rule map_of_SomeD)
    with ConnEnds Some assms show ?thesis
      using set_remove1_subset [of "(c, peer)" "serving s"]
      by (auto simp: serverOk_def length_remove1)
  qed
qed (use assms in \<open>auto simp: serverOk_def\<close>)

lemma broadcast_ok: "serverOk uid (fold (broadcastStep uid) es startServer)"
proof -
  have "serverOk uid s \<Longrightarrow> serverOk uid (fold (broadcastStep uid) es s)" for s
    by (induction es arbitrary: s) (simp_all add: broadcastStep_ok)
  moreover have "serverOk uid startServer" by (simp add: serverOk_def startServer_def)
  ultimately show ?thesis .
qed

section \<open>Broadcast: one connection\<close>

text \<open>
  A turn of the \<open>select\<close>: the context ended, the peer left, the subscription was closed, or a value
  came and was written, or only some bytes of it were.
\<close>

datatype 'v connTurn = CtxDone | Departed | SubClosed | Value 'v "nat option"

definition frame :: "bytes \<Rightarrow> bytes" where
  "frame b = b @ [10]"

fun broadcastConn :: "('v \<Rightarrow> err + bytes) \<Rightarrow> 'v connTurn list \<Rightarrow> bytes" where
  "broadcastConn encode [] = []"
| "broadcastConn encode (CtxDone # rest) = []"
| "broadcastConn encode (Departed # rest) = []"
| "broadcastConn encode (SubClosed # rest) = []"
| "broadcastConn encode (Value v w # rest) =
     (case encode v of
        Inl e \<Rightarrow> broadcastConn encode rest
      | Inr b \<Rightarrow>
          (case w of
             None \<Rightarrow> frame b @ broadcastConn encode rest
           | Some n \<Rightarrow> take n (frame b)))"

section \<open>Dial\<close>

definition maxDialFrame :: nat where "maxDialFrame = 4 * 1024 * 1024"

definition ErrTooLong :: err where "ErrTooLong = Msg ''bufio.Scanner: token too long''"

definition dropCR :: "bytes \<Rightarrow> bytes" where
  "dropCR b = (if b \<noteq> [] \<and> last b = 13 then butlast b else b)"

text \<open>
  \<open>bufio.ScanLines\<close> with a buffer of \<open>mx\<close> bytes: a line has to fit with its newline; what is left at
  the end is a token too.  The flag says that a token was too long.
\<close>

function scanLines :: "nat \<Rightarrow> bytes \<Rightarrow> bytes list \<times> bool" where
  "scanLines mx s =
     (case Index1 10 s of
        Some i \<Rightarrow>
          if i < mx then (case scanLines mx (drop (Suc i) s) of (ts, l) \<Rightarrow> (dropCR (take i s) # ts, l))
          else ([], True)
      | None \<Rightarrow>
          if s = [] then ([], False)
          else if length s \<ge> mx then ([], True)
          else ([dropCR s], False))"
  by pat_completeness auto
termination
  by (relation "measure (\<lambda>(mx, s). length s)") (auto dest: Index1_Some)

declare scanLines.simps [simp del]

text \<open>
  The loop over the frames.  \<open>cancelAt\<close> is the number of values received before the context ends
  while one is being sent; with \<open>None\<close> it does not.  The flag says that it did.
\<close>

fun dialLoop :: "(bytes \<Rightarrow> err + 'v) \<Rightarrow> nat option \<Rightarrow> bytes list \<Rightarrow> 'v list \<times> bool" where
  "dialLoop decode cancelAt [] = ([], False)"
| "dialLoop decode cancelAt (t # ts) =
     (case decode t of
        Inl e \<Rightarrow> dialLoop decode cancelAt ts
      | Inr v \<Rightarrow>
          (case cancelAt of
             Some 0 \<Rightarrow> ([], True)
           | _ \<Rightarrow> (case dialLoop decode (map_option (\<lambda>n. n - 1) cancelAt) ts of (vs, c) \<Rightarrow> (v # vs, c))))"

text \<open>What a call meets: the context (its error once it has ended) and the connection.\<close>

record dialEnv =
  dialErr :: "err option"
  cancelled :: "nat option"
  ctxErr :: err
  endsCancelled :: bool
  readErr :: "err option"

definition calmDial :: dialEnv where
  "calmDial = \<lparr>dialErr = None, cancelled = None, ctxErr = CtxErr ''context canceled'',
               endsCancelled = False, readErr = None\<rparr>"

text \<open>The values put on the channel and the reason handed to \<open>onClose\<close>.\<close>

definition dialStream :: "(bytes \<Rightarrow> err + 'v) \<Rightarrow> dialEnv \<Rightarrow> bytes \<Rightarrow> 'v list \<times> err option" where
  "dialStream decode E received =
     (case scanLines maxDialFrame received of
        (toks, long) \<Rightarrow>
          (case dialLoop decode (cancelled E) toks of
             (vs, stopped) \<Rightarrow>
               (vs,
                if stopped then Some (ctxErr E)
                else if endsCancelled E then Some (ctxErr E)
                else if long then Some ErrTooLong
                else readErr E)))"

text \<open>\<open>WithDialClose\<close> sets the hook; the last non-nil option counts.  The hook is named by its number.\<close>

fun dialHook :: "nat option option list \<Rightarrow> nat option \<Rightarrow> nat option" where
  "dialHook [] h = h"
| "dialHook (None # os) h = dialHook os h"
| "dialHook (Some fn # os) h = dialHook os fn"

definition Dial :: "(bytes \<Rightarrow> err + 'v) \<Rightarrow> dialEnv \<Rightarrow> nat option option list \<Rightarrow> bytes
    \<Rightarrow> err + ('v list \<times> (nat \<times> err option) list)" where
  "Dial decode E opts received =
     (case dialErr E of
        Some e \<Rightarrow> Inl e
      | None \<Rightarrow>
          (case dialStream decode E received of
             (vs, reason) \<Rightarrow>
               Inr (vs, case dialHook opts None of None \<Rightarrow> [] | Some fn \<Rightarrow> [(fn, reason)])))"

section \<open>Lines\<close>

definition lineFrame :: "bytes \<Rightarrow> bool" where
  "lineFrame b \<longleftrightarrow> 10 \<notin> set b \<and> (b = [] \<or> last b \<noteq> 13) \<and> length b < maxDialFrame"

lemma dropCR_plain: "lineFrame b \<Longrightarrow> dropCR b = b"
  by (auto simp: lineFrame_def dropCR_def)

lemma scan_frame:
  assumes "10 \<notin> set b" and "length b < mx"
  shows "scanLines mx (frame b @ s) = (dropCR b # fst (scanLines mx s), snd (scanLines mx s))"
proof -
  have "Index1 10 (frame b @ s) = Some (length b)"
    using Index1_append [OF assms(1), of s] by (simp add: frame_def)
  with assms(2) show ?thesis
    by (subst scanLines.simps) (simp add: frame_def split: prod.split)
qed

lemma scan_rest:
  "10 \<notin> set s \<Longrightarrow> length s < mx \<Longrightarrow> scanLines mx s = (if s = [] then [] else [dropCR s], False)"
  by (subst scanLines.simps) (simp add: Index1_None [THEN iffD2])

lemma scan_frames:
  assumes "\<forall>b \<in> set bs. lineFrame b" and "10 \<notin> set s" and "length s < maxDialFrame"
  shows "scanLines maxDialFrame (concat (map frame bs) @ s)
     = (bs @ (if s = [] then [] else [dropCR s]), False)"
  using assms(1)
proof (induction bs)
  case Nil
  with scan_rest [OF assms(2,3)] show ?case by simp
next
  case (Cons b bs)
  then have "10 \<notin> set b" "length b < maxDialFrame" by (simp_all add: lineFrame_def)
  from scan_frame [OF this, of "concat (map frame bs) @ s"] Cons show ?case
    by (simp add: dropCR_plain)
qed

text \<open>Cutting a sequence of frames anywhere leaves whole frames and the beginning of one.\<close>

lemma cut_frames:
  "\<exists>k s. take n (concat (map frame bs)) = concat (map frame (take k bs)) @ s
     \<and> (s = [] \<or> k < length bs \<and> (\<exists>m. s = take m (bs ! k)))
     \<and> (length (concat (map frame bs)) \<le> n \<longrightarrow> k = length bs \<and> s = [])"
proof (induction bs arbitrary: n)
  case Nil
  show ?case by (intro exI [of _ 0] exI [of _ "[]"]) simp
next
  case (Cons b bs)
  show ?case
  proof (cases "n \<le> length b")
    case True
    then have "take n (concat (map frame (b # bs))) = take n b" by (simp add: frame_def)
    with True show ?thesis
      by (intro exI [of _ 0] exI [of _ "take n b"]) (auto simp: frame_def)
  next
    case False
    then have n: "n = length (frame b) + (n - length (frame b))" by (simp add: frame_def)
    from Cons.IH [of "n - length (frame b)"] obtain k s where ks:
      "take (n - length (frame b)) (concat (map frame bs)) = concat (map frame (take k bs)) @ s"
      "s = [] \<or> k < length bs \<and> (\<exists>m. s = take m (bs ! k))"
      "length (concat (map frame bs)) \<le> n - length (frame b) \<longrightarrow> k = length bs \<and> s = []"
      by blast
    have "take n (concat (map frame (b # bs))) = frame b @ take (n - length (frame b)) (concat (map frame bs))"
      using n by simp
    with ks(1) have "take n (concat (map frame (b # bs))) = concat (map frame (take (Suc k) (b # bs))) @ s"
      by simp
    moreover have "s = [] \<or> Suc k < length (b # bs) \<and> (\<exists>m. s = take m ((b # bs) ! Suc k))"
      using ks(2) by simp
    moreover have "length (concat (map frame (b # bs))) \<le> n \<longrightarrow> Suc k = length (b # bs) \<and> s = []"
      using ks(3) by auto
    ultimately show ?thesis by blast
  qed
qed

section \<open>What a client gets\<close>

text \<open>The values a connection took from its subscription, those of them that encode, and their bytes.\<close>

fun taken :: "('v \<Rightarrow> err + bytes) \<Rightarrow> 'v connTurn list \<Rightarrow> 'v list" where
  "taken encode (Value v w # rest) =
     (case encode v of
        Inl e \<Rightarrow> taken encode rest
      | Inr b \<Rightarrow> (case w of None \<Rightarrow> v # taken encode rest | Some n \<Rightarrow> [v]))"
| "taken encode ts = []"

definition encoded :: "('v \<Rightarrow> err + bytes) \<Rightarrow> 'v \<Rightarrow> bytes" where
  "encoded encode v = (case encode v of Inl e \<Rightarrow> [] | Inr b \<Rightarrow> b)"

definition unbroken :: "'v connTurn list \<Rightarrow> bool" where
  "unbroken ts \<longleftrightarrow> (\<forall>t \<in> set ts. case t of Value v (Some n) \<Rightarrow> False | _ \<Rightarrow> True)"

lemma encoded_Inr: "encode v = Inr b \<Longrightarrow> encoded encode v = b"
  by (simp add: encoded_def)

lemma unbroken_Value [simp]: "unbroken (Value v w # ts) \<longleftrightarrow> w = None \<and> unbroken ts"
  by (cases w) (simp_all add: unbroken_def)

lemma taken_encodes: "v \<in> set (taken encode ts) \<Longrightarrow> encode v = Inr (encoded encode v)"
  by (induction encode ts rule: taken.induct) (auto simp: encoded_def split: sum.splits option.splits)

lemma conn_bytes:
  "\<exists>n. broadcastConn encode ts = take n (concat (map frame (map (encoded encode) (taken encode ts))))
     \<and> (unbroken ts \<longrightarrow> length (concat (map frame (map (encoded encode) (taken encode ts)))) \<le> n)"
proof (induction encode ts rule: broadcastConn.induct)
  case (5 encode v w rest)
  show ?case
  proof (cases "encode v")
    case (Inl e)
    with 5(1) [OF Inl] obtain n where
      "broadcastConn encode rest = take n (concat (map frame (map (encoded encode) (taken encode rest))))"
      "unbroken rest \<longrightarrow> length (concat (map frame (map (encoded encode) (taken encode rest)))) \<le> n"
      by blast
    with Inl show ?thesis by (intro exI [of _ n]) simp
  next
    case (Inr b)
    show ?thesis
    proof (cases w)
      case None
      with 5 Inr obtain n where
        "broadcastConn encode rest = take n (concat (map frame (map (encoded encode) (taken encode rest))))"
        "unbroken rest \<longrightarrow> length (concat (map frame (map (encoded encode) (taken encode rest)))) \<le> n"
        by blast
      with Inr None show ?thesis
        by (intro exI [of _ "length (frame b) + n"]) (simp add: encoded_Inr [of encode v b, OF Inr])
    next
      case (Some n)
      with Inr show ?thesis by (intro exI [of _ n]) (simp add: encoded_Inr [of encode v b, OF Inr])
    qed
  qed
qed auto

lemma dialLoop_all:
  assumes "\<forall>v \<in> set vs. decode (f v) = Inr v"
  shows "dialLoop decode None (map f vs @ ts) = (vs @ fst (dialLoop decode None ts), snd (dialLoop decode None ts))"
  using assms by (induction vs) (auto split: prod.split)

lemma dialLoop_one: "length (fst (dialLoop decode None [t])) \<le> 1 \<and> \<not> snd (dialLoop decode None [t])"
  by (simp split: sum.split)

lemma part_plain: "lineFrame b \<Longrightarrow> 10 \<notin> set (take m b) \<and> length (take m b) < maxDialFrame"
  by (auto simp: lineFrame_def dest: in_set_takeD)

text \<open>The reading side on frames cut at any byte.\<close>

lemma dial_cut:
  assumes "\<forall>v \<in> set vs. lineFrame (f v) \<and> decode (f v) = Inr v"
  obtains k torn where
    "dialStream decode (calmDial\<lparr>readErr := r\<rparr>) (take n (concat (map frame (map f vs)))) = (take k vs @ torn, r)"
    and "length torn \<le> 1"
    and "length (concat (map frame (map f vs))) \<le> n \<longrightarrow> k = length vs \<and> torn = []"
proof -
  from cut_frames [of n "map f vs"] obtain k s where ks:
    "take n (concat (map frame (map f vs))) = concat (map frame (take k (map f vs))) @ s"
    "s = [] \<or> k < length (map f vs) \<and> (\<exists>m. s = take m (map f vs ! k))"
    "length (concat (map frame (map f vs))) \<le> n \<longrightarrow> k = length (map f vs) \<and> s = []"
    by blast
  have s: "10 \<notin> set s \<and> length s < maxDialFrame"
  proof (cases "s = []")
    case True
    then show ?thesis by (simp add: maxDialFrame_def)
  next
    case False
    with ks(2) obtain m where "k < length vs" "s = take m (f (vs ! k))" by auto
    with assms part_plain show ?thesis by (metis nth_mem)
  qed
  have "\<forall>b \<in> set (take k (map f vs)). lineFrame b" using assms by (force simp: take_map dest: in_set_takeD)
  from scan_frames [OF this] s ks(1) have scan:
    "scanLines maxDialFrame (take n (concat (map frame (map f vs))))
      = (map f (take k vs) @ (if s = [] then [] else [dropCR s]), False)"
    by (simp add: take_map)
  define torn where "torn = fst (dialLoop decode None (if s = [] then [] else [dropCR s]))"
  have "\<forall>v \<in> set (take k vs). decode (f v) = Inr v" using assms by (auto dest: in_set_takeD)
  from dialLoop_all [OF this] scan
  have "dialStream decode (calmDial\<lparr>readErr := r\<rparr>) (take n (concat (map frame (map f vs)))) = (take k vs @ torn, r)"
    using dialLoop_one [of decode "dropCR s"]
    by (simp add: dialStream_def calmDial_def torn_def split: prod.split)
  moreover have "length torn \<le> 1" using dialLoop_one [of decode "dropCR s"] by (simp add: torn_def)
  moreover have "length (concat (map frame (map f vs))) \<le> n \<longrightarrow> k = length vs \<and> torn = []"
    using ks(3) by (auto simp: torn_def)
  ultimately show thesis by (rule that)
qed

text \<open>The reading side on what a connection was sent.\<close>

lemma dial_conn:
  assumes "\<forall>v b. encode v = Inr b \<longrightarrow> lineFrame b \<and> decode b = Inr v"
  shows "\<exists>k torn.
      dialStream decode (calmDial\<lparr>readErr := r\<rparr>) (take n (broadcastConn encode ts))
        = (take k (taken encode ts) @ torn, r)
      \<and> length torn \<le> 1
      \<and> (unbroken ts \<and> length (broadcastConn encode ts) \<le> n \<longrightarrow> k = length (taken encode ts) \<and> torn = [])"
proof -
  let ?whole = "concat (map frame (map (encoded encode) (taken encode ts)))"
  from conn_bytes [of encode ts] obtain m where m:
    "broadcastConn encode ts = take m ?whole" "unbroken ts \<longrightarrow> length ?whole \<le> m" by blast
  have "\<forall>v \<in> set (taken encode ts). lineFrame (encoded encode v) \<and> decode (encoded encode v) = Inr v"
  proof
    fix v assume "v \<in> set (taken encode ts)"
    from taken_encodes [OF this] assms show "lineFrame (encoded encode v) \<and> decode (encoded encode v) = Inr v"
      by simp
  qed
  from dial_cut [OF this, of r "min n m"] obtain k torn where kt:
    "dialStream decode (calmDial\<lparr>readErr := r\<rparr>) (take (min n m) ?whole) = (take k (taken encode ts) @ torn, r)"
    "length torn \<le> 1" "length ?whole \<le> min n m \<longrightarrow> k = length (taken encode ts) \<and> torn = []" .
  have "take n (broadcastConn encode ts) = take (min n m) ?whole" using m(1) by simp
  moreover have "unbroken ts \<and> length (broadcastConn encode ts) \<le> n \<longrightarrow> length ?whole \<le> min n m"
    using m by auto
  ultimately show ?thesis using kt by metis
qed

text \<open>
  Claim C34.  When the encoder's frames are lines (no newline inside, no carriage return at the end,
  less than 4 MiB) that the decoder reads back, then however the serving connection ends and at
  whatever byte it is cut, \<open>Dial\<close> hands out a prefix of the values the connection took from its
  subscription and that encode, in order, and at most one more value that the decoder makes of a torn
  last frame; when no write broke and nothing was cut, it hands out all of them and nothing else, and
  in each case reports the connection's own error.
\<close>

theorem broadcast_dial_round_trip:
  assumes "\<forall>v b. encode v = Inr b \<longrightarrow> lineFrame b \<and> decode b = Inr v"
  shows "\<exists>k torn.
      dialStream decode (calmDial\<lparr>readErr := r\<rparr>) (take n (broadcastConn encode ts))
        = (take k (taken encode ts) @ torn, r)
      \<and> length torn \<le> 1
      \<and> (unbroken ts \<and> length (broadcastConn encode ts) \<le> n \<longrightarrow> k = length (taken encode ts) \<and> torn = [])"
  using assms by (rule dial_conn)

text \<open>Numbers in unary, none for 0: the frames of a connection that breaks in the third of four values.\<close>

definition unaryEncode :: "nat \<Rightarrow> err + bytes" where
  "unaryEncode n = (if n = 0 \<or> 9 < n then Inl (Msg ''not encodable'') else Inr (replicate n 49))"

definition unaryDecode :: "bytes \<Rightarrow> err + nat" where
  "unaryDecode b = (if b = [] then Inl (Msg ''not decodable'') else Inr (length b))"

lemma unary_codec: "\<forall>v b. unaryEncode v = Inr b \<longrightarrow> lineFrame b \<and> unaryDecode b = Inr v"
  by (auto simp: unaryEncode_def unaryDecode_def lineFrame_def maxDialFrame_def)

theorem broadcast_dial_round_trip_witness:
  "(\<exists>k torn.
      dialStream unaryDecode calmDial (broadcastConn unaryEncode [Value 2 None, Value 0 None, Value 3 None, SubClosed])
        = (take k [2, 3] @ torn, None) \<and> length torn \<le> 1 \<and> k = 2 \<and> torn = [])
   \<and> lineFrame (replicate 3 49)"
proof -
  let ?ts = "[Value 2 None, Value 0 None, Value 3 None, SubClosed] :: nat connTurn list"
  have t: "taken unaryEncode ?ts = [2, 3]" by (simp add: unaryEncode_def)
  have u: "unbroken ?ts" by (simp add: unbroken_def)
  have c: "calmDial\<lparr>readErr := None\<rparr> = calmDial" by (simp add: calmDial_def)
  have p: "lineFrame (replicate 3 49)" by (simp add: lineFrame_def maxDialFrame_def)
  from broadcast_dial_round_trip [OF unary_codec, of None "length (broadcastConn unaryEncode ?ts)" ?ts]
  show ?thesis unfolding t c using u p by auto
qed

text \<open>
  The torn frame is real: a write that breaks inside a frame makes the client receive a value that was
  never sent.
\<close>

lemma torn_frame_is_delivered:
  "broadcastConn unaryEncode [Value 3 (Some 2)] = [49, 49]
   \<and> fst (dialStream unaryDecode calmDial [49, 49]) = [2]"
proof -
  have "scanLines maxDialFrame [49, 49] = ([[49, 49]], False)"
    by (subst scanLines.simps) (simp add: maxDialFrame_def dropCR_def)
  then show ?thesis
    by (simp add: unaryEncode_def frame_def dialStream_def calmDial_def unaryDecode_def numeral_eq_Suc)
qed

text \<open>Frames that are not lines are not carried: a trailing carriage return is lost.\<close>

lemma trailing_CR_is_lost: "scanLines mx (frame (b @ [13])) = ([b], False)" if "10 \<notin> set b" "Suc (length b) < mx"
  using scan_frame [of "b @ [13]" mx "[]"] that scan_rest [of "[]" mx] by (simp add: dropCR_def)

end
