(* ===== verification/Services.thy ===== *)
theory Services
  imports Errors
begin

text \<open>
  The managed service of src/daemon/service/service.go as a state machine.  The events are what its
  goroutines, the platform's runner and the clock do, in any order: the work function returns, its
  goroutine goes on to report, \<open>Stop\<close> is called and waits, \<open>runWait\<close> wakes, the fallback's timer
  expires.  \<open>None\<close> is Go's panic, a second close of a channel.  The service manager itself
  (kardianos/service) is the sequence of requests made to it and what it answers.
\<close>

section \<open>State\<close>

text \<open>The goroutine that runs the work function, between its statements.\<close>

datatype workPhase = NotStarted | Working | Failing err | Logging err | Signalling err | Sending "err option" | Finished

text \<open>The goroutine that asks the manager to stop the service: waiting, or over.\<close>

datatype fallback = NoFallback | Waiting | Gone

record program =
  work :: workPhase
  cancelSet :: bool
  cancelled :: bool
  started :: bool
  doneBuf :: "err option list"
  fatalClosed :: bool
  stoppedClosed :: bool
  fatalOnce :: bool
  stopOnce :: bool
  perr :: "err option"
  logged :: "err list"
  fallbackGo :: fallback
  stopRequests :: nat

definition newProgram :: program where
  "newProgram = \<lparr>work = NotStarted, cancelSet = False, cancelled = False, started = False, doneBuf = [],
     fatalClosed = False, stoppedClosed = False, fatalOnce = False, stopOnce = False, perr = None, logged = [],
     fallbackGo = NoFallback, stopRequests = 0\<rparr>"

text \<open>\<open>errors.Is(err, context.Canceled)\<close>.\<close>

fun isCanceled :: "err \<Rightarrow> bool" where
  "isCanceled (CtxErr m) = (m = ''context canceled'')"
| "isCanceled (Wrap m e) = isCanceled e"
| "isCanceled (Note e m) = isCanceled e"
| "isCanceled (LockedError e) = isCanceled e"
| "isCanceled (ErrGenerationMarker e) = isCanceled e"
| "isCanceled (ErrUndecodable e) = isCanceled e"
| "isCanceled e = False"

section \<open>The methods\<close>

definition Start :: "program \<Rightarrow> program" where
  "Start p = p\<lparr>cancelSet := True, started := True, work := Working\<rparr>"

definition setErr :: "err \<Rightarrow> program \<Rightarrow> program" where
  "setErr e p = (if perr p = None then p\<lparr>perr := Some e\<rparr> else p)"

text \<open>\<open>logFatal\<close>: one line with the error, to the platform's logger if there is one, else to slog's.\<close>

definition logFatal :: "err \<Rightarrow> program \<Rightarrow> program" where
  "logFatal e p = p\<lparr>logged := logged p @ [e]\<rparr>"

definition Err :: "program \<Rightarrow> err option" where
  "Err p = perr p"

text \<open>Closing a channel twice panics; \<open>Once\<close> guards both closes.\<close>

definition closeFatal :: "program \<Rightarrow> program option" where
  "closeFatal p = (if fatalClosed p then None else Some (p\<lparr>fatalClosed := True\<rparr>))"

definition closeStopped :: "program \<Rightarrow> program option" where
  "closeStopped p = (if stoppedClosed p then None else Some (p\<lparr>stoppedClosed := True\<rparr>))"

text \<open>\<open>managed\<close>: there is a service to ask (\<open>s\<close> is not nil).\<close>

definition signalFatal :: "bool \<Rightarrow> program \<Rightarrow> program option" where
  "signalFatal managed p =
     (if fatalOnce p then Some p
      else map_option (\<lambda>q. if managed then q\<lparr>fallbackGo := Waiting\<rparr> else q) (closeFatal (p\<lparr>fatalOnce := True\<rparr>)))"

text \<open>The beginning of \<open>Stop\<close>, up to its wait.\<close>

definition beginStop :: "program \<Rightarrow> program option" where
  "beginStop p =
     map_option (\<lambda>q. if cancelSet q then q\<lparr>cancelled := True\<rparr> else q)
       (if stopOnce p then Some p else closeStopped (p\<lparr>stopOnce := True\<rparr>))"

text \<open>
  How the wait of \<open>Stop\<close> ends: it takes the work function's result if there is one, or \<open>stopWait\<close>
  has passed.  \<open>None\<close> means that it is still waiting.
\<close>

definition endStop :: "bool \<Rightarrow> program \<Rightarrow> (err option \<times> program) option" where
  "endStop timedOut p =
     (if \<not> started p then Some (Err p, p)
      else (case doneBuf p of
              r # rest \<Rightarrow> Some (Err p, p\<lparr>doneBuf := rest\<rparr>)
            | [] \<Rightarrow> if timedOut then Some (Err p, p) else None))"

text \<open>\<open>runWait\<close> returns on a signal or when the work failed.\<close>

definition runWaitReturns :: "bool \<Rightarrow> program \<Rightarrow> bool" where
  "runWaitReturns signalled p \<longleftrightarrow> signalled \<or> fatalClosed p"

text \<open>The next statement of the goroutine that \<open>Start\<close> started; \<open>r\<close> is what the work function returns.\<close>

definition workStep :: "bool \<Rightarrow> err option \<Rightarrow> program \<Rightarrow> program option" where
  "workStep managed r p =
     (case work p of
        Working \<Rightarrow>
          (case r of
             Some e \<Rightarrow> Some (p\<lparr>work := (if isCanceled e then Sending r else Failing e)\<rparr>)
           | None \<Rightarrow> Some (p\<lparr>work := Sending None\<rparr>))
      | Failing e \<Rightarrow> Some ((setErr e p)\<lparr>work := Logging e\<rparr>)
      | Logging e \<Rightarrow> Some ((logFatal e p)\<lparr>work := Signalling e\<rparr>)
      | Signalling e \<Rightarrow> map_option (\<lambda>q. q\<lparr>work := Sending (Some e)\<rparr>) (signalFatal managed p)
      | Sending v \<Rightarrow> if doneBuf p = [] then Some (p\<lparr>doneBuf := [v], work := Finished\<rparr>) else Some p
      | _ \<Rightarrow> Some p)"

text \<open>
  The fallback: over when \<open>Stop\<close> has been called, else it asks once after the grace.  When both have
  happened \<open>select\<close> takes either; \<open>takesTimer\<close> says that the timer has fired and its branch is taken.
\<close>

definition fallbackStep :: "bool \<Rightarrow> program \<Rightarrow> program" where
  "fallbackStep takesTimer p =
     (case fallbackGo p of
        Waiting \<Rightarrow>
          if takesTimer then p\<lparr>fallbackGo := Gone, stopRequests := stopRequests p + 1\<rparr>
          else if stoppedClosed p then p\<lparr>fallbackGo := Gone\<rparr>
          else p
      | _ \<Rightarrow> p)"

section \<open>The machine\<close>

datatype svcEvent = EvStart | EvWork "err option" | EvBeginStop | EvEndStop bool | EvFallback bool

text \<open>The platform's runner starts the program once.\<close>

fun svcStep :: "bool \<Rightarrow> svcEvent \<Rightarrow> program \<Rightarrow> program option" where
  "svcStep managed EvStart p = Some (if started p then p else Start p)"
| "svcStep managed (EvWork r) p = workStep managed r p"
| "svcStep managed EvBeginStop p = beginStop p"
| "svcStep managed (EvEndStop t) p = Some (case endStop t p of None \<Rightarrow> p | Some (e, q) \<Rightarrow> q)"
| "svcStep managed (EvFallback t) p = Some (fallbackStep t p)"

fun svcRun :: "bool \<Rightarrow> svcEvent list \<Rightarrow> program \<Rightarrow> program option" where
  "svcRun managed [] p = Some p"
| "svcRun managed (e # es) p = (case svcStep managed e p of None \<Rightarrow> None | Some q \<Rightarrow> svcRun managed es q)"

section \<open>Service\<close>

datatype svcScope = ScopeSystem | ScopeUser

record config =
  cName :: string
  cDisplayName :: string
  cDescription :: string
  cArguments :: "string list"
  cScope :: svcScope

datatype optionValue = OptBool bool | OptRunWait

record kconfig =
  kName :: string
  kDisplayName :: string
  kDescription :: string
  kArguments :: "string list"
  kOption :: "(string \<times> optionValue) list"

definition serviceConfig :: "bool \<Rightarrow> bool \<Rightarrow> config \<Rightarrow> kconfig" where
  "serviceConfig windows hasProgram cfg =
     \<lparr>kName = cName cfg, kDisplayName = cDisplayName cfg, kDescription = cDescription cfg,
      kArguments = cArguments cfg,
      kOption =
        (if cScope cfg = ScopeUser \<and> \<not> windows then [(''UserService'', OptBool True)] else [])
        @ (if hasProgram then [(''RunWait'', OptRunWait)] else [])\<rparr>"

text \<open>\<open>Service.Run\<close>: the manager's error, or else the program's.\<close>

definition Service_Run :: "err option \<Rightarrow> program \<Rightarrow> err option" where
  "Service_Run managerErr p = (case managerErr of Some e \<Rightarrow> Some e | None \<Rightarrow> Err p)"

datatype managerStatus = StatusUnknown | StatusRunning | StatusStopped

datatype svcState = SvcUnknown | SvcRunning | SvcStopped | SvcNotInstalled

fun svcState_String :: "svcState \<Rightarrow> string" where
  "svcState_String SvcRunning = ''running''"
| "svcState_String SvcStopped = ''stopped''"
| "svcState_String SvcNotInstalled = ''not installed''"
| "svcState_String SvcUnknown = ''unknown''"

definition ErrNotInstalledService :: err where
  "ErrNotInstalledService = Msg ''the service is not installed''"

definition Status :: "managerStatus \<Rightarrow> err option \<Rightarrow> svcState \<times> err option" where
  "Status st e =
     (case st of
        StatusRunning \<Rightarrow> (SvcRunning, e)
      | StatusStopped \<Rightarrow> (SvcStopped, e)
      | StatusUnknown \<Rightarrow>
          (case e of
             Some x \<Rightarrow> if rootErr x = ErrNotInstalledService then (SvcNotInstalled, e) else (SvcUnknown, e)
           | None \<Rightarrow> (SvcUnknown, e)))"

lemma Status_error: "snd (Status st e) = e"
  by (auto simp: Status_def split: managerStatus.split option.split)

lemma Status_not_installed:
  "fst (Status st e) = SvcNotInstalled \<longleftrightarrow>
     st = StatusUnknown \<and> (\<exists>x. e = Some x \<and> rootErr x = ErrNotInstalledService)"
  by (auto simp: Status_def split: managerStatus.split option.split)

text \<open>What the work function returned in a run, once it has.\<close>

fun returned :: "bool \<Rightarrow> svcEvent list \<Rightarrow> program \<Rightarrow> err option option" where
  "returned managed [] p = None"
| "returned managed (e # es) p =
     (case e of
        EvWork r \<Rightarrow> if work p = Working then Some r
          else (case svcStep managed e p of None \<Rightarrow> None | Some q \<Rightarrow> returned managed es q)
      | _ \<Rightarrow> (case svcStep managed e p of None \<Rightarrow> None | Some q \<Rightarrow> returned managed es q))"

text \<open>A failure is any error that is not a cancellation.\<close>

definition failure :: "err option \<Rightarrow> err option" where
  "failure r = (case r of Some e \<Rightarrow> if isCanceled e then None else Some e | None \<Rightarrow> None)"

definition asList :: "'a option \<Rightarrow> 'a list" where
  "asList x = (case x of None \<Rightarrow> [] | Some y \<Rightarrow> [y])"

section \<open>Invariant\<close>

text \<open>
  What is so between two events.  How far the failure of the work function has come depends on where
  its goroutine is: it is recorded, then logged, then the channel that wakes \<open>runWait\<close> is closed, and only
  then is the result sent; the guards agree with the channels; one result is on its way or there at
  most; and the manager is asked at most once, by a fallback that is over.
\<close>

fun progress :: "workPhase \<Rightarrow> program \<Rightarrow> bool" where
  "progress (Failing e) p = (\<not> isCanceled e \<and> perr p = None \<and> logged p = [] \<and> \<not> fatalClosed p \<and> doneBuf p = [])"
| "progress (Logging e) p = (\<not> isCanceled e \<and> perr p = Some e \<and> logged p = [] \<and> \<not> fatalClosed p \<and> doneBuf p = [])"
| "progress (Signalling e) p = (\<not> isCanceled e \<and> perr p = Some e \<and> logged p = [e] \<and> \<not> fatalClosed p \<and> doneBuf p = [])"
| "progress (Sending v) p =
     (perr p = failure v \<and> logged p = asList (failure v) \<and> (fatalClosed p \<longleftrightarrow> failure v \<noteq> None) \<and> doneBuf p = [])"
| "progress Finished p =
     (logged p = asList (perr p) \<and> (fatalClosed p \<longleftrightarrow> perr p \<noteq> None) \<and> length (doneBuf p) \<le> 1
      \<and> (\<forall>v \<in> set (doneBuf p). perr p = failure v))"
| "progress _ p = (perr p = None \<and> logged p = [] \<and> \<not> fatalClosed p \<and> doneBuf p = [])"

definition svcOk :: "bool \<Rightarrow> program \<Rightarrow> bool" where
  "svcOk managed p \<longleftrightarrow>
     progress (work p) p
     \<and> fatalOnce p = fatalClosed p \<and> stopOnce p = stoppedClosed p
     \<and> (started p \<longleftrightarrow> work p \<noteq> NotStarted) \<and> (started p \<longrightarrow> cancelSet p)
     \<and> (fallbackGo p \<noteq> NoFallback \<longrightarrow> managed \<and> fatalClosed p)
     \<and> stopRequests p \<le> 1 \<and> (stopRequests p = 1 \<longrightarrow> fallbackGo p = Gone)"

lemma newProgram_ok: "svcOk managed newProgram"
  by (simp add: svcOk_def newProgram_def)

lemma Start_ok: "svcOk managed p \<Longrightarrow> \<not> started p \<Longrightarrow> svcOk managed (Start p)"
  by (auto simp: svcOk_def Start_def)

lemma workStep_ok:
  assumes "svcOk managed p"
  shows "\<exists>q. workStep managed r p = Some q \<and> svcOk managed q"
proof (cases "work p")
  case Working
  with assms show ?thesis
    by (cases r) (auto simp: workStep_def svcOk_def failure_def asList_def)
next
  case (Failing e)
  with assms show ?thesis by (auto simp: workStep_def svcOk_def setErr_def)
next
  case (Logging e)
  with assms show ?thesis by (auto simp: workStep_def svcOk_def logFatal_def)
next
  case (Signalling e)
  with assms show ?thesis
    by (auto simp: workStep_def signalFatal_def closeFatal_def svcOk_def failure_def asList_def)
next
  case (Sending v)
  with assms show ?thesis
    by (auto simp: workStep_def svcOk_def)
qed (use assms in \<open>simp_all add: workStep_def\<close>)

lemma progress_flags [simp]:
  "progress ph (p\<lparr>stopOnce := a\<rparr>) = progress ph p" "progress ph (p\<lparr>stoppedClosed := a\<rparr>) = progress ph p"
  "progress ph (p\<lparr>cancelled := a\<rparr>) = progress ph p" "progress ph (p\<lparr>fallbackGo := g\<rparr>) = progress ph p"
  "progress ph (p\<lparr>stopRequests := n\<rparr>) = progress ph p"
  by (cases ph; simp)+

lemma beginStop_ok:
  assumes "svcOk managed p"
  shows "\<exists>q. beginStop p = Some q \<and> svcOk managed q"
  using assms by (cases "stopOnce p") (auto simp: beginStop_def closeStopped_def svcOk_def)

lemma doneBuf_finished: "svcOk managed p \<Longrightarrow> doneBuf p = v # rest \<Longrightarrow> work p = Finished \<and> rest = []"
  by (cases "work p") (auto simp: svcOk_def)

lemma endStop_ok:
  assumes "svcOk managed p" and "endStop t p = Some (e, q)"
  shows "svcOk managed q"
proof -
  have "q = p \<or> (\<exists>r rest. doneBuf p = r # rest \<and> q = p\<lparr>doneBuf := rest\<rparr>)"
    using assms(2) by (auto simp: endStop_def split: if_splits list.splits)
  then show ?thesis
  proof (elim disjE exE conjE)
    fix r rest assume d: "doneBuf p = r # rest" and q: "q = p\<lparr>doneBuf := rest\<rparr>"
    with assms(1) doneBuf_finished [OF assms(1) d] show ?thesis unfolding q svcOk_def by (cases "failure r") auto
  qed (use assms(1) in simp)
qed

lemma fallbackStep_ok:
  assumes "svcOk managed p"
  shows "svcOk managed (fallbackStep t p)"
proof (cases "fallbackGo p")
  case Waiting
  then have "stopRequests p = 0 \<and> fatalClosed p" using assms by (auto simp: svcOk_def le_Suc_eq)
  with Waiting assms show ?thesis by (simp add: fallbackStep_def svcOk_def)
qed (use assms in \<open>simp_all add: fallbackStep_def\<close>)

lemma svcStep_ok: "svcOk managed p \<Longrightarrow> \<exists>q. svcStep managed e p = Some q \<and> svcOk managed q"
  (is "_ \<Longrightarrow> ?thesis")
proof (cases e)
  case (EvEndStop t)
  then show "svcOk managed p \<Longrightarrow> ?thesis"
    using endStop_ok [of managed p t] by (auto split: option.split prod.split)
qed (use Start_ok workStep_ok beginStop_ok fallbackStep_ok in simp_all)

lemma svcRun_ok: "svcOk managed p \<Longrightarrow> \<exists>q. svcRun managed es p = Some q \<and> svcOk managed q"
proof (induction es arbitrary: p)
  case Nil
  then show ?case by simp
next
  case (Cons e es)
  from svcStep_ok [OF Cons.prems, of e] obtain q where "svcStep managed e p = Some q" "svcOk managed q" by blast
  with Cons.IH [of q] show ?case by simp
qed

text \<open>
  The result of the work function is not lost: from its return on the goroutine carries it, and what is
  recorded at the end is its failure.
\<close>

fun carries :: "err option \<Rightarrow> workPhase \<Rightarrow> program \<Rightarrow> bool" where
  "carries r (Failing e) p = (failure r = Some e \<and> r = Some e)"
| "carries r (Logging e) p = (failure r = Some e \<and> r = Some e)"
| "carries r (Signalling e) p = (failure r = Some e \<and> r = Some e)"
| "carries r (Sending v) p = (v = r)"
| "carries r Finished p = (perr p = failure r)"
| "carries r _ p = False"

lemma carries_kept: "carries r ph p \<Longrightarrow> perr q = perr p \<Longrightarrow> carries r ph q"
  by (cases ph) auto

lemma carries_step:
  assumes "svcOk managed p" and "carries r (work p) p" and "svcStep managed e p = Some q"
  shows "carries r (work q) q"
proof (cases e)
  case EvStart
  with assms have "q = p" by (cases "work p") (auto simp: svcOk_def)
  with assms(2) show ?thesis by simp
next
  case (EvWork r')
  with assms show ?thesis
    by (cases "work p")
      (auto simp: workStep_def setErr_def logFatal_def signalFatal_def closeFatal_def svcOk_def split: if_splits)
next
  case EvBeginStop
  with assms(3) have "work q = work p \<and> perr q = perr p"
    by (auto simp: beginStop_def closeStopped_def split: if_splits)
  with carries_kept [OF assms(2)] show ?thesis by simp
next
  case (EvEndStop t)
  with assms(3) have "work q = work p \<and> perr q = perr p"
    by (auto simp: endStop_def split: option.splits if_splits list.splits)
  with carries_kept [OF assms(2)] show ?thesis by simp
next
  case (EvFallback t)
  with assms(3) have "work q = work p \<and> perr q = perr p"
    by (auto simp: fallbackStep_def split: fallback.splits)
  with carries_kept [OF assms(2)] show ?thesis by simp
qed

lemma carries_run:
  "svcOk managed p \<Longrightarrow> carries r (work p) p \<Longrightarrow> svcRun managed es p = Some q \<Longrightarrow> carries r (work q) q"
proof (induction es arbitrary: p)
  case (Cons e es)
  from svcStep_ok [OF Cons.prems(1), of e] obtain p1 where p1: "svcStep managed e p = Some p1" "svcOk managed p1" by blast
  with Cons.IH [OF p1(2) carries_step [OF Cons.prems(1,2) p1(1)]] Cons.prems(3) show ?case by simp
qed simp

lemma returned_carries:
  "svcOk managed p \<Longrightarrow> svcRun managed es p = Some q \<Longrightarrow> returned managed es p = Some r \<Longrightarrow> carries r (work q) q"
proof (induction es arbitrary: p)
  case (Cons e es)
  from svcStep_ok [OF Cons.prems(1), of e] obtain p1 where p1: "svcStep managed e p = Some p1" "svcOk managed p1" by blast
  with Cons.prems(2) have run: "svcRun managed es p1 = Some q" by simp
  show ?case
  proof (cases "\<exists>r'. e = EvWork r' \<and> work p = Working")
    case True
    with Cons.prems(3) have e: "e = EvWork r" "work p = Working" by auto
    with p1(1) have "carries r (work p1) p1" by (cases r) (auto simp: workStep_def failure_def)
    with carries_run [OF p1(2) _ run] show ?thesis by blast
  next
    case False
    with Cons.prems(3) p1(1) have "returned managed es p1 = Some r" by (cases e) auto
    with Cons.IH [OF p1(2) run] show ?thesis by blast
  qed
qed simp

text \<open>What \<open>Stop\<close> returns when it takes the result of the work function.\<close>

lemma endStop_takes:
  assumes "svcOk managed p" and "doneBuf p = v # rest"
  shows "endStop t p = Some (failure v, p\<lparr>doneBuf := rest\<rparr>)"
  using assms doneBuf_finished [OF assms] by (simp add: endStop_def svcOk_def Err_def)

text \<open>The rest of the goroutine when nothing else runs: \<open>runWait\<close> wakes and \<open>Stop\<close> need not wait.\<close>

definition unwinding :: "err option \<Rightarrow> svcEvent list" where
  "unwinding r = EvWork r # replicate 4 (EvWork None)"

lemma failing_unwinds:
  assumes "svcOk managed p" and "work p = Working"
  shows "\<exists>q. svcRun managed (unwinding r) p = Some q \<and> (runWaitReturns False q \<longleftrightarrow> failure r \<noteq> None)
     \<and> Err q = failure r \<and> doneBuf q = [r]"
  using assms
  by (cases r)
    (auto simp: unwinding_def numeral_eq_Suc svcOk_def workStep_def setErr_def logFatal_def signalFatal_def
      closeFatal_def runWaitReturns_def Err_def failure_def)

text \<open>
  Claim C32.  Whatever the order of the work function's return, the statements of its goroutine, the calls of
  \<open>Stop\<close>, their timeouts and the fallback's timer, no channel is closed twice; and a failure, an error
  other than a cancellation, is not lost.  Whenever \<open>runWait\<close> returns without a signal, \<open>Run\<close> returns an
  error even if the manager reports none; a \<open>Stop\<close> that takes the work function's result returns its
  failure, and nothing else; once the goroutine is over, however \<open>Stop\<close> ended, the failure is what \<open>Run\<close>
  returns and has been logged once, and \<open>runWait\<close> returns exactly if there was one.  The manager is asked to
  stop the service at most once, and only after a failure.  And a work function that returns comes to that end
  by its goroutine's own next steps.
\<close>

theorem service_reports_failure:
  "\<exists>p. svcRun managed es newProgram = Some p
     \<and> (runWaitReturns False p \<longrightarrow> Service_Run None p \<noteq> None)
     \<and> (\<forall>v rest t. doneBuf p = v # rest \<longrightarrow> endStop t p = Some (failure v, p\<lparr>doneBuf := rest\<rparr>))
     \<and> (\<forall>r. returned managed es newProgram = Some r \<and> work p = Finished \<longrightarrow>
          Service_Run None p = failure r \<and> logged p = asList (failure r) \<and> (runWaitReturns False p \<longleftrightarrow> failure r \<noteq> None))
     \<and> stopRequests p \<le> 1 \<and> (stopRequests p > 0 \<longrightarrow> managed \<and> Err p \<noteq> None)
     \<and> (\<forall>r. work p = Working \<longrightarrow>
          (\<exists>q. svcRun managed (unwinding r) p = Some q \<and> (runWaitReturns False q \<longleftrightarrow> failure r \<noteq> None)
            \<and> Service_Run None q = failure r \<and> doneBuf q = [r]))"
proof -
  from svcRun_ok [OF newProgram_ok] obtain p where
    p: "svcRun managed es newProgram = Some p" "svcOk managed p" by blast
  have fatal: "fatalClosed p \<longrightarrow> perr p \<noteq> None" using p(2) by (cases "work p") (auto simp: svcOk_def)
  have finish: "Service_Run None p = failure r \<and> logged p = asList (failure r) \<and> (runWaitReturns False p \<longleftrightarrow> failure r \<noteq> None)"
    if "returned managed es newProgram = Some r \<and> work p = Finished" for r
    using returned_carries [OF newProgram_ok p(1), of r] that p(2)
    by (auto simp: svcOk_def Service_Run_def Err_def runWaitReturns_def)
  have "stopRequests p \<le> 1 \<and> (stopRequests p > 0 \<longrightarrow> managed \<and> Err p \<noteq> None)"
    using p(2) fatal by (cases "stopRequests p = 1") (auto simp: svcOk_def Err_def)
  with p(1) fatal finish endStop_takes [OF p(2)] failing_unwinds [OF p(2)] show ?thesis
    by (auto simp: runWaitReturns_def Service_Run_def Err_def)
qed

definition sampleFailure :: "svcEvent list" where
  "sampleFailure =
     [EvStart, EvWork (Some (Msg ''disk full'')), EvWork None, EvWork None, EvWork None, EvFallback False, EvFallback True,
      EvBeginStop, EvWork None, EvEndStop False, EvBeginStop, EvEndStop True]"

theorem service_reports_failure_witness:
  "(case svcRun True sampleFailure newProgram of
      None \<Rightarrow> False
    | Some p \<Rightarrow> Service_Run None p = Some (Msg ''disk full'') \<and> logged p = [Msg ''disk full''] \<and> stopRequests p = 1)"
proof -
  have r: "(case svcRun True sampleFailure newProgram of None \<Rightarrow> False | Some p \<Rightarrow> work p = Finished \<and> stopRequests p = 1)"
    by code_simp
  have w: "returned True sampleFailure newProgram = Some (Some (Msg ''disk full''))" by code_simp
  have f: "failure (Some (Msg ''disk full'')) = Some (Msg ''disk full'')" by code_simp
  from service_reports_failure [of True sampleFailure] r w f show ?thesis by (auto simp: asList_def)
qed

text \<open>
  A work function that returns without error, or with any error that wraps a cancellation, does not
  wake \<open>runWait\<close>, also when nobody had asked it to stop.
\<close>

lemma quiet_return_leaves_service_up:
  "svcOk managed p \<Longrightarrow> work p = Working \<Longrightarrow> failure r = None
    \<Longrightarrow> \<exists>q. svcRun managed [EvWork r, EvWork None] p = Some q \<and> work q = Finished \<and> \<not> runWaitReturns False q"
  by (cases r) (auto simp: svcOk_def workStep_def runWaitReturns_def failure_def split: if_splits)

text \<open>\<open>Stop\<close> takes the one result; a second call has to wait out its time.\<close>

lemma second_stop_waits:
  assumes "svcOk managed p" and "started p" and "endStop False p = Some (e, q)"
  shows "endStop False q = None"
  using assms doneBuf_finished [OF assms(1)] by (auto simp: endStop_def split: list.splits)

end
