(* ===== verification/Auth.thy ===== *)
theory Auth
  imports FileSys
begin

text \<open>
  The logins of src/auth: the device-code grant (device.go), the authorization code received on a
  local callback server (loopback.go), and running an installed tool (tool.go).  The endpoints'
  answers, the callbacks that arrive, the context and the tool's outcome are inputs; the decoding of
  the JSON answers is a parameter.  What is printed and slept is part of the result.
\<close>

section \<open>Posting a form\<close>

type_synonym form = "(string \<times> string) list"

text \<open>The outcome of one request: the errors of building and of sending it, or the answer.\<close>

record httpAnswer =
  newRequestErr :: "err option"
  doErr :: "err option"
  statusCode :: int
  status :: string
  body :: gostr

definition bodyText :: "gostr \<Rightarrow> string" where
  "bodyText s = map char_of s"

definition postFormJSON :: "(gostr \<Rightarrow> err + 'a) \<Rightarrow> httpAnswer \<Rightarrow> err + 'a" where
  "postFormJSON unmarshal a =
     (case newRequestErr a of
        Some e \<Rightarrow> Inl e
      | None \<Rightarrow>
          (case doErr a of
             Some e \<Rightarrow> Inl e
           | None \<Rightarrow>
               if statusCode a \<ge> 400 then Inl (Msg (status a @ '': '' @ bodyText (TrimSpace (body a))))
               else unmarshal (body a)))"

section \<open>The device flow\<close>

record deviceCode =
  DeviceCode :: string
  UserCode :: string
  VerificationURI :: string
  VerificationURIComplete :: string
  ExpiresIn :: int
  Interval :: int

record deviceOptions =
  ClientID :: string
  Scope :: string
  CodeURL :: string
  TokenURL :: string
  Product :: string
  opens :: bool
  PollInterval :: duration

definition ErrDeviceDenied :: err where "ErrDeviceDenied = Msg ''authorization was denied''"
definition ErrDeviceExpired :: err where "ErrDeviceExpired = Msg ''device code expired before authorization''"

record tokenReply =
  AccessToken :: string
  tokenScope :: string
  ErrorCode :: string
  ErrorDescription :: string

definition startInterval :: "deviceOptions \<Rightarrow> deviceCode \<Rightarrow> duration" where
  "startInterval opts dc =
     (let i1 = wrap64 (Interval dc * second);
          i2 = (if i1 \<le> 0 then 5 * second else i1);
          i3 = (if PollInterval opts > 0 then PollInterval opts else i2)
      in if i3 < second then second else i3)"

definition maxPolls :: "duration \<Rightarrow> deviceCode \<Rightarrow> int" where
  "maxPolls interval dc =
     (if ExpiresIn dc > 0
      then (let secs = quot interval second; secs' = (if secs < 1 then 1 else secs)
            in wrap64 (quot (ExpiresIn dc) secs' + 1))
      else 12)"

text \<open>What a turn of the polling loop meets: the context, and the token endpoint's answer.\<close>

record pollTurn =
  ctxErr :: "err option"
  answer :: httpAnswer

datatype pollStep = Done "err + (string \<times> string)" | Again duration

definition pollOnce :: "(gostr \<Rightarrow> err + tokenReply) \<Rightarrow> httpAnswer \<Rightarrow> duration \<Rightarrow> pollStep" where
  "pollOnce unmarshal a interval =
     (case postFormJSON unmarshal a of
        Inl e \<Rightarrow> Done (Inl (Wrap ''polling for token: '' e))
      | Inr tr \<Rightarrow>
          if ErrorCode tr = [] then
            (if AccessToken tr \<noteq> [] then Done (Inr (AccessToken tr, tokenScope tr)) else Again interval)
          else if ErrorCode tr = ''authorization_pending'' then Again interval
          else if ErrorCode tr = ''slow_down'' then Again (wrap64 (interval + 5 * second))
          else if ErrorCode tr = ''expired_token'' then Done (Inl ErrDeviceExpired)
          else if ErrorCode tr = ''access_denied'' then Done (Inl ErrDeviceDenied)
          else Done (Inl (Msg (''device flow failed: '' @ ErrorCode tr @ '' ('' @ ErrorDescription tr @ '')''))))"

text \<open>The loop with its remaining turns; also returned is what was slept.\<close>

fun pollLoop :: "(gostr \<Rightarrow> err + tokenReply) \<Rightarrow> (nat \<Rightarrow> pollTurn) \<Rightarrow> nat \<Rightarrow> nat \<Rightarrow> duration
    \<Rightarrow> (err + (string \<times> string)) \<times> duration list" where
  "pollLoop unmarshal turns i 0 interval = (Inl (Msg ''timed out waiting for authorization''), [])"
| "pollLoop unmarshal turns i (Suc left) interval =
     (case ctxErr (turns i) of
        Some e \<Rightarrow> (Inl e, [])
      | None \<Rightarrow>
          (case pollOnce unmarshal (answer (turns i)) interval of
             Done r \<Rightarrow> (r, [interval])
           | Again interval' \<Rightarrow>
               (case pollLoop unmarshal turns (Suc i) left interval' of (r, slept) \<Rightarrow> (r, interval # slept))))"

record prompt =
  shownProduct :: string
  shownURI :: string
  shownCode :: string
  opened :: bool

definition codeForm :: "deviceOptions \<Rightarrow> form" where
  "codeForm opts = (''client_id'', ClientID opts) # (if Scope opts \<noteq> [] then [(''scope'', Scope opts)] else [])"

definition pollForm :: "deviceOptions \<Rightarrow> deviceCode \<Rightarrow> form" where
  "pollForm opts dc = [(''client_id'', ClientID opts), (''device_code'', DeviceCode dc),
     (''grant_type'', ''urn:ietf:params:oauth:grant-type:device_code'')]"

text \<open>The endpoints answer the forms: \<open>codeAnswer\<close> and \<open>turns\<close> are functions of what is posted.\<close>

definition DeviceToken :: "(gostr \<Rightarrow> err + deviceCode) \<Rightarrow> (gostr \<Rightarrow> err + tokenReply) \<Rightarrow> (form \<Rightarrow> httpAnswer)
    \<Rightarrow> (form \<Rightarrow> nat \<Rightarrow> pollTurn) \<Rightarrow> deviceOptions
    \<Rightarrow> (err + (string \<times> string)) \<times> prompt option \<times> duration list" where
  "DeviceToken codeJSON tokenJSON codeAnswer turns opts =
     (if ClientID opts = [] \<or> CodeURL opts = [] \<or> TokenURL opts = []
      then (Inl (Msg ''device flow: ClientID, CodeURL, and TokenURL are required''), None, [])
      else
        (case postFormJSON codeJSON (codeAnswer (codeForm opts)) of
           Inl e \<Rightarrow> (Inl (Wrap ''requesting device code: '' e), None, [])
         | Inr dc \<Rightarrow>
             (let p = \<lparr>shownProduct = (if Product opts = [] then ''app'' else Product opts),
                       shownURI = (if VerificationURIComplete dc = [] then VerificationURI dc
                                   else VerificationURIComplete dc),
                       shownCode = UserCode dc, opened = opens opts\<rparr>;
                  interval = startInterval opts dc
              in case pollLoop tokenJSON (turns (pollForm opts dc)) 0 (nat (maxPolls interval dc)) interval of
                   (r, slept) \<Rightarrow> (r, Some p, slept))))"

section \<open>What the device flow guarantees\<close>

lemma startInterval_at_least: "second \<le> startInterval opts dc"
  by (simp add: startInterval_def Let_def)

lemma pollOnce_token:
  "pollOnce unmarshal a i = Done (Inr (t, s)) \<Longrightarrow>
     \<exists>tr. postFormJSON unmarshal a = Inr tr \<and> ErrorCode tr = [] \<and> AccessToken tr = t \<and> tokenScope tr = s \<and> t \<noteq> []"
  by (auto simp: pollOnce_def split: sum.splits if_splits)

lemma pollOnce_again:
  "pollOnce unmarshal a i = Again i' \<Longrightarrow>
     \<exists>tr. postFormJSON unmarshal a = Inr tr
       \<and> (ErrorCode tr = [] \<and> AccessToken tr = [] \<and> i' = i
          \<or> ErrorCode tr = ''authorization_pending'' \<and> i' = i
          \<or> ErrorCode tr = ''slow_down'' \<and> i' = wrap64 (i + 5 * second))"
  by (auto simp: pollOnce_def split: sum.splits if_splits)

text \<open>The answers after which the loop goes on.\<close>

definition pending :: "(gostr \<Rightarrow> err + tokenReply) \<Rightarrow> pollTurn \<Rightarrow> bool" where
  "pending unmarshal u \<longleftrightarrow>
     ctxErr u = None
     \<and> (case postFormJSON unmarshal (answer u) of
          Inl e \<Rightarrow> False
        | Inr tr \<Rightarrow> ErrorCode tr = [] \<and> AccessToken tr = []
            \<or> ErrorCode tr \<in> {''authorization_pending'', ''slow_down''})"

definition grants :: "(gostr \<Rightarrow> err + tokenReply) \<Rightarrow> pollTurn \<Rightarrow> string \<Rightarrow> string \<Rightarrow> bool" where
  "grants unmarshal u t s \<longleftrightarrow>
     ctxErr u = None
     \<and> (\<exists>tr. postFormJSON unmarshal (answer u) = Inr tr \<and> ErrorCode tr = []
          \<and> AccessToken tr = t \<and> tokenScope tr = s \<and> t \<noteq> [])"

lemma pollLoop_token:
  assumes "pollLoop unmarshal turns i left interval = (Inr (t, s), slept)"
  shows "\<exists>n < left. length slept = Suc n \<and> grants unmarshal (turns (i + n)) t s
    \<and> (\<forall>j < n. pending unmarshal (turns (i + j)))"
  using assms
proof (induction left arbitrary: i interval slept)
  case 0
  then show ?case by simp
next
  case (Suc left)
  from Suc.prems have c: "ctxErr (turns i) = None" by (cases "ctxErr (turns i)") auto
  show ?case
  proof (cases "pollOnce unmarshal (answer (turns i)) interval")
    case (Done r)
    with Suc.prems c have "r = Inr (t, s)" "slept = [interval]" by auto
    with Done c pollOnce_token show ?thesis by (intro exI [of _ 0]) (auto simp: grants_def)
  next
    case (Again i')
    with Suc.prems c obtain rest where r:
      "pollLoop unmarshal turns (Suc i) left i' = (Inr (t, s), rest)" "slept = interval # rest"
      by (auto split: prod.splits)
    from Suc.IH [OF r(1)] obtain n where n: "n < left" "length rest = Suc n"
      "grants unmarshal (turns (Suc i + n)) t s" "\<forall>j < n. pending unmarshal (turns (Suc i + j))" by blast
    from pollOnce_again [OF Again] c have p: "pending unmarshal (turns i)" by (auto simp: pending_def)
    have "pending unmarshal (turns (i + j))" if "j < Suc n" for j
      using that p n(4) by (cases j) auto
    with n r(2) show ?thesis by (intro exI [of _ "Suc n"]) auto
  qed
qed

text \<open>The sleeps: at most one per turn, and each as long as the one before or five seconds longer.\<close>

lemma pollOnce_interval:
  assumes "pollOnce unmarshal a i = Again i'" and "0 \<le> i" and "i + 5 * second < 2 ^ 63"
  shows "i' = i \<or> i' = i + 5 * second"
proof -
  have "int64_range (i + 5 * second)" using assms(2,3) by (simp add: int64_range_def duration_defs)
  with pollOnce_again [OF assms(1)] wrap64_id show ?thesis by auto
qed

lemma pollLoop_sleeps:
  assumes "pollLoop unmarshal turns i left interval = (r, slept)"
    and "second \<le> interval" and "interval + int left * (5 * second) < 2 ^ 63"
  shows "length slept \<le> left \<and> sorted slept
    \<and> (\<forall>d \<in> set slept. interval \<le> d \<and> d \<le> interval + int left * (5 * second))"
  using assms
proof (induction left arbitrary: i interval slept)
  case 0
  then show ?case by simp
next
  case (Suc left)
  have s: "0 < second" by (simp add: duration_defs)
  show ?case
  proof (cases "ctxErr (turns i)")
    case (Some e)
    with Suc.prems(1) show ?thesis by simp
  next
    case None
    show ?thesis
    proof (cases "pollOnce unmarshal (answer (turns i)) interval")
      case (Done r)
      with Suc.prems(1) None have "slept = [interval]" by simp
      with s show ?thesis by simp
    next
      case (Again i')
      with Suc.prems(1) None obtain rest where r:
        "pollLoop unmarshal turns (Suc i) left i' = (r, rest)" "slept = interval # rest"
        by (auto split: prod.splits)
      have "0 \<le> int left * (5 * second)" using s by simp
      moreover have "int (Suc left) * (5 * second) = 5 * second + int left * (5 * second)"
        by (simp add: algebra_simps)
      ultimately have "interval + 5 * second < 2 ^ 63" using Suc.prems(3) by linarith
      with pollOnce_interval [OF Again] Suc.prems(2) s have i': "i' = interval \<or> i' = interval + 5 * second"
        by simp
      then have le: "interval \<le> i'" "i' + int left * (5 * second) \<le> interval + int (Suc left) * (5 * second)"
        using s by (auto simp: algebra_simps)
      have "length rest \<le> left \<and> sorted rest
          \<and> (\<forall>d \<in> set rest. i' \<le> d \<and> d \<le> i' + int left * (5 * second))"
        by (rule Suc.IH [OF r(1)]) (use le Suc.prems(2,3) in simp_all)
      with le r(2) s show ?thesis by fastforce
    qed
  qed
qed

text \<open>Without a \<open>slow_down\<close> the polls cover the whole life of the code.\<close>

lemma polls_cover_expiry:
  assumes "0 < ExpiresIn dc" and "ExpiresIn dc < 2 ^ 63 - 1" and "second \<le> interval"
  shows "ExpiresIn dc * second \<le> maxPolls interval dc * interval"
proof -
  define secs where "secs = interval div second"
  have s: "0 < second" by (simp add: duration_defs)
  have secs1: "1 \<le> secs" using assms(3) s unfolding secs_def
    by (metis div_self less_le_not_le zdiv_mono1)
  have q: "quot interval second = secs" using assms(3) s quot_pos [of interval second] by (simp add: secs_def)
  have le: "ExpiresIn dc div secs \<le> ExpiresIn dc"
    using assms(1) secs1 zdiv_mono2 [of "ExpiresIn dc" 1 secs] by simp
  then have "int64_range (ExpiresIn dc div secs + 1)"
    using assms(1,2) secs1 by (simp add: int64_range_def pos_imp_zdiv_nonneg_iff)
  then have m: "maxPolls interval dc = ExpiresIn dc div secs + 1"
    using assms(1) q secs1 quot_pos [of "ExpiresIn dc" secs] by (simp add: maxPolls_def Let_def wrap64_id)
  have "ExpiresIn dc = ExpiresIn dc div secs * secs + ExpiresIn dc mod secs" by simp
  moreover have "ExpiresIn dc mod secs < secs" using secs1 by simp
  moreover have "(ExpiresIn dc div secs + 1) * secs = ExpiresIn dc div secs * secs + secs"
    by (simp add: algebra_simps)
  ultimately have "ExpiresIn dc \<le> (ExpiresIn dc div secs + 1) * secs" by linarith
  then have "ExpiresIn dc * second \<le> (ExpiresIn dc div secs + 1) * (secs * second)"
    using s by (simp add: mult.assoc [symmetric])
  also have "\<dots> \<le> (ExpiresIn dc div secs + 1) * interval"
  proof (rule mult_left_mono)
    show "secs * second \<le> interval" unfolding secs_def using s
      by (metis div_mult_mod_eq le_add_same_cancel1 pos_mod_sign)
    show "0 \<le> ExpiresIn dc div secs + 1" using assms(1) secs1 by (simp add: pos_imp_zdiv_nonneg_iff)
  qed
  finally show ?thesis by (simp add: m)
qed

text \<open>
  Claim C35.  A token is returned only when the token endpoint granted it, as a non-empty access
  token without an error, in one of the allotted turns, after only pending, slow-down or empty
  answers and with the context alive; the flow then has slept once before each poll.
\<close>

theorem device_token_was_granted:
  assumes "DeviceToken codeJSON tokenJSON codeAnswer turns opts = (Inr (t, s), shown, slept)"
  shows "\<exists>dc n.
      postFormJSON codeJSON (codeAnswer (codeForm opts)) = Inr dc
      \<and> int n < maxPolls (startInterval opts dc) dc \<and> length slept = Suc n
      \<and> grants tokenJSON (turns (pollForm opts dc) n) t s
      \<and> (\<forall>j < n. pending tokenJSON (turns (pollForm opts dc) j))"
proof -
  from assms obtain dc where dc: "postFormJSON codeJSON (codeAnswer (codeForm opts)) = Inr dc"
    by (auto simp: DeviceToken_def split: if_splits sum.splits)
  with assms have
    "pollLoop tokenJSON (turns (pollForm opts dc)) 0 (nat (maxPolls (startInterval opts dc) dc))
       (startInterval opts dc) = (Inr (t, s), slept)"
    by (auto simp: DeviceToken_def Let_def split: if_splits prod.splits)
  from pollLoop_token [OF this] dc show ?thesis by (auto simp: zless_nat_eq_int_zless)
qed

text \<open>An endpoint that is busy, then tells to slow down, then grants.\<close>

definition plainAnswer :: "gostr \<Rightarrow> httpAnswer" where
  "plainAnswer b = \<lparr>newRequestErr = None, doErr = None, statusCode = 200, status = ''200 OK'', body = b\<rparr>"

definition sampleReply :: "gostr \<Rightarrow> err + tokenReply" where
  "sampleReply b =
     (if b = [0] then Inr \<lparr>AccessToken = [], tokenScope = [], ErrorCode = ''authorization_pending'', ErrorDescription = []\<rparr>
      else if b = [1] then Inr \<lparr>AccessToken = [], tokenScope = [], ErrorCode = ''slow_down'', ErrorDescription = []\<rparr>
      else Inr \<lparr>AccessToken = ''tok'', tokenScope = ''repo'', ErrorCode = [], ErrorDescription = []\<rparr>)"

definition sampleCode :: "gostr \<Rightarrow> err + deviceCode" where
  "sampleCode b = Inr \<lparr>DeviceCode = ''d'', UserCode = ''AB-CD'', VerificationURI = ''https://x'',
     VerificationURIComplete = [], ExpiresIn = 900, Interval = 5\<rparr>"

definition sampleOptions :: deviceOptions where
  "sampleOptions = \<lparr>ClientID = ''id'', Scope = [], CodeURL = ''c'', TokenURL = ''t'', Product = [],
     opens = False, PollInterval = 0\<rparr>"

definition sampleTurns :: "form \<Rightarrow> nat \<Rightarrow> pollTurn" where
  "sampleTurns f n = \<lparr>ctxErr = None, answer = plainAnswer [int n]\<rparr>"

theorem device_token_was_granted_witness:
  "snd (snd (DeviceToken sampleCode sampleReply (\<lambda>f. plainAnswer []) sampleTurns sampleOptions))
     = [5 * second, 5 * second, 10 * second]
   \<and> grants sampleReply (sampleTurns (pollForm sampleOptions (projr (sampleCode []))) 2) ''tok'' ''repo''"
proof -
  have run: "DeviceToken sampleCode sampleReply (\<lambda>f. plainAnswer []) sampleTurns sampleOptions
    = (Inr (''tok'', ''repo''),
       Some \<lparr>shownProduct = ''app'', shownURI = ''https://x'', shownCode = ''AB-CD'', opened = False\<rparr>,
       [5 * second, 5 * second, 10 * second])"
    by code_simp
  have dc: "postFormJSON sampleCode (plainAnswer (body (plainAnswer []))) = Inr (projr (sampleCode []))"
    by (simp add: postFormJSON_def plainAnswer_def sampleCode_def)
  from device_token_was_granted [OF run] obtain dc n where d:
    "postFormJSON sampleCode (plainAnswer []) = Inr dc" "length [5 * second, 5 * second, 10 * second] = Suc n"
    "grants sampleReply (sampleTurns (pollForm sampleOptions dc) n) ''tok'' ''repo''" by blast
  then have "n = 2" "dc = projr (sampleCode [])"
    by (auto simp: postFormJSON_def plainAnswer_def sampleCode_def)
  with d(3) show ?thesis by (simp add: run)
qed

section \<open>The loopback callback\<close>

record callback =
  qState :: string
  qError :: string
  qCode :: string

record loopbackOptions =
  lbProduct :: string
  lbTimeout :: duration
  lbOpens :: bool

definition defaultLoopbackTimeout :: duration where "defaultLoopbackTimeout = 3 * minute"

text \<open>\<open>hex.EncodeToString\<close> of the 16 random bytes.\<close>

definition hexChar :: "nat \<Rightarrow> char" where
  "hexChar n = (if n < 10 then char_of (48 + n) else char_of (87 + n))"

definition stateHex :: "nat list \<Rightarrow> string" where
  "stateHex bs = concat (map (\<lambda>b. [hexChar (b div 16), hexChar (b mod 16)]) bs)"

definition randomState :: "err + nat list \<Rightarrow> err + string" where
  "randomState r = (case r of Inl e \<Rightarrow> Inl e | Inr bs \<Rightarrow> Inr (stateHex bs))"

lemma hexChar_inj: "m < 16 \<Longrightarrow> n < 16 \<Longrightarrow> hexChar m = hexChar n \<Longrightarrow> m = n"
proof -
  have d: "distinct (map hexChar [0..<16])" by code_simp
  assume "m < 16" "n < 16" "hexChar m = hexChar n"
  then show "m = n"
    using distinct_conv_nth [THEN iffD1, OF d, rule_format, of m n] by auto
qed

text \<open>Different random bytes give different states.\<close>

lemma randomState_inj:
  assumes "\<forall>b \<in> set as \<union> set bs. b < 256" and "length as = length bs" and "stateHex as = stateHex bs"
  shows "as = bs"
  using assms(2,1,3)
proof (induction as bs rule: list_induct2)
  case Nil
  then show ?case by simp
next
  case (Cons a as b bs)
  have "a div 16 < 16" "b div 16 < 16" using Cons.prems(1) by auto
  with Cons.prems hexChar_inj have "a div 16 = b div 16" "a mod 16 = b mod 16"
    by (auto simp: stateHex_def)
  then have "a = b" by (metis div_mult_mod_eq)
  with Cons show ?case by (simp add: stateHex_def)
qed

text \<open>The handler: the page it shows (with the status) and the result it sends.\<close>

definition handleCallback :: "string \<Rightarrow> string \<Rightarrow> string \<Rightarrow> callback \<Rightarrow> (int \<times> string) \<times> (err + string)" where
  "handleCallback product service state q =
     (if qState q \<noteq> state
      then ((400, ''state mismatch''), Inl (Msg ''state mismatch (possible CSRF); aborting''))
      else if qError q \<noteq> []
      then ((200, ''Authorization failed: '' @ qError q @ ''. You can close this window.''),
            Inl (Msg (''authorization error: '' @ qError q)))
      else ((200, product @ '' is now authorized for '' @ service
              @ ''. You can close this window and return to the terminal.''), Inr (qCode q)))"

datatype loopEvent = Callback callback | LoopDone err | LoopTimeout

text \<open>The \<open>select\<close>: the first event decides; \<open>None\<close> is still waiting.\<close>

fun awaitCode :: "string \<Rightarrow> string \<Rightarrow> string \<Rightarrow> loopEvent list \<Rightarrow> (err + string) option" where
  "awaitCode product service state [] = None"
| "awaitCode product service state (LoopDone e # rest) = Some (Inl e)"
| "awaitCode product service state (LoopTimeout # rest) = Some (Inl (Msg ''timed out waiting for authorization''))"
| "awaitCode product service state (Callback q # rest) =
     Some (case snd (handleCallback product service state q) of
             Inl e \<Rightarrow> Inl e
           | Inr code \<Rightarrow> if code = [] then Inl (Msg ''no authorization code received'') else Inr code)"

text \<open>
  The whole flow: listening on a free port, the state, the URL shown, the wait.  The events may depend
  on the state and the port, which the authorization server learns from the URL.
\<close>

record loopbackEnv =
  listenRes :: "err + string"
  randomRes :: "err + nat list"

definition LoopbackAuthCode :: "string \<Rightarrow> loopbackOptions \<Rightarrow> (string \<Rightarrow> string \<Rightarrow> string) \<Rightarrow> loopbackEnv
    \<Rightarrow> (string \<Rightarrow> duration \<Rightarrow> loopEvent list) \<Rightarrow> ((err + (string \<times> string)) \<times> string option) option" where
  "LoopbackAuthCode service opts buildURL E events =
     (case listenRes E of
        Inl e \<Rightarrow> Some (Inl (Wrap ''starting local callback server: '' e), None)
      | Inr port \<Rightarrow>
          (case randomState (randomRes E) of
             Inl e \<Rightarrow> Some (Inl (Wrap ''generating oauth state: '' e), None)
           | Inr state \<Rightarrow>
               (let product = (if lbProduct opts = [] then ''app'' else lbProduct opts);
                    timeout = (if lbTimeout opts \<le> 0 then defaultLoopbackTimeout else lbTimeout opts);
                    redirect = ''http://127.0.0.1:'' @ port @ ''/callback'';
                    authURL = buildURL redirect state
                in case awaitCode product service state (events authURL timeout) of
                     None \<Rightarrow> None
                   | Some (Inl e) \<Rightarrow> Some (Inl e, Some authURL)
                   | Some (Inr code) \<Rightarrow> Some (Inr (code, redirect), Some authURL))))"

text \<open>
  A code is returned only from a callback that was the first, carried this flow's state, no error and
  the code itself.
\<close>

lemma loopback_code_is_ours:
  assumes "LoopbackAuthCode service opts buildURL E events = Some (Inr (code, redirect), shown)"
  obtains port bs q rest timeout where
    "listenRes E = Inr port" "randomRes E = Inr bs" "redirect = ''http://127.0.0.1:'' @ port @ ''/callback''"
    "events (buildURL redirect (stateHex bs)) timeout = Callback q # rest" "0 < timeout"
    "qState q = stateHex bs" "qError q = []" "qCode q = code" "code \<noteq> []"
proof -
  from assms obtain port where port: "listenRes E = Inr port"
    by (cases "listenRes E") (auto simp: LoopbackAuthCode_def)
  with assms obtain bs where bs: "randomRes E = Inr bs"
    by (cases "randomRes E") (auto simp: LoopbackAuthCode_def randomState_def)
  define product where "product = (if lbProduct opts = [] then ''app'' else lbProduct opts)"
  define timeout where "timeout = (if lbTimeout opts \<le> 0 then defaultLoopbackTimeout else lbTimeout opts)"
  let ?url = "buildURL (''http://127.0.0.1:'' @ port @ ''/callback'') (stateHex bs)"
  from assms port bs have r: "redirect = ''http://127.0.0.1:'' @ port @ ''/callback''"
    and w: "awaitCode product service (stateHex bs) (events ?url timeout) = Some (Inr code)"
    by (auto simp: LoopbackAuthCode_def randomState_def Let_def product_def timeout_def
        split: option.splits sum.splits)
  have t: "0 < timeout" by (simp add: timeout_def defaultLoopbackTimeout_def duration_defs)
  from w obtain ev rest where ev: "events ?url timeout = ev # rest"
    by (cases "events ?url timeout") auto
  with w obtain q where q: "events ?url timeout = Callback q # rest"
    by (cases ev) auto
  with w have "snd (handleCallback product service (stateHex bs) q) = Inr code" "code \<noteq> []"
    by (auto split: sum.splits if_splits)
  then have "qState q = stateHex bs" "qError q = []" "qCode q = code" "code \<noteq> []"
    by (auto simp: handleCallback_def split: if_splits)
  with that [OF port bs r _ t] q r show thesis by simp
qed

lemma forged_callback_aborts:
  "qState q \<noteq> state \<Longrightarrow>
     awaitCode product service state (Callback q # rest) = Some (Inl (Msg ''state mismatch (possible CSRF); aborting''))"
  by (simp add: handleCallback_def)

section \<open>Running a tool\<close>

definition ErrNotInstalled :: err where "ErrNotInstalled = Msg ''tool not installed''"

text \<open>\<open>lookPath\<close> says what is on the path; \<open>run\<close> is the outcome of a command: output, error output, error.\<close>

definition RunTool :: "(string \<Rightarrow> bool) \<Rightarrow> (string \<Rightarrow> string list \<Rightarrow> bytes \<times> gostr \<times> err option)
    \<Rightarrow> string list \<Rightarrow> string \<Rightarrow> string list \<Rightarrow> err + bytes" where
  "RunTool lookPath run bins name args =
     (let bin = or_default (find lookPath bins) []
      in if bin = [] then Inl (Wrap (name @ '': '') ErrNotInstalled)
         else
           (case run bin args of
              (stdout, stderr, None) \<Rightarrow> Inr stdout
            | (stdout, stderr, Some e) \<Rightarrow>
                (let msg = (if TrimSpace stderr = [] then errText e else bodyText (TrimSpace stderr))
                 in Inl (Wrap (name @ '' '' @ Join args '' '' @ '': '' @ msg @ '': '') e))))"

lemma RunTool_first_available:
  assumes "bins = before @ b # after" and "\<forall>x \<in> set before. \<not> lookPath x" and "lookPath b" and "b \<noteq> []"
    and "run b args = (stdout, stderr, None)"
  shows "RunTool lookPath run bins name args = Inr stdout"
proof -
  have "find lookPath bins = Some b" using assms(1-3) by (induction "before" arbitrary: bins) auto
  with assms(4,5) show ?thesis by (simp add: RunTool_def)
qed

lemma RunTool_not_installed:
  assumes "\<forall>b \<in> set bins. \<not> lookPath b"
  shows "RunTool lookPath run bins name args = Inl (Wrap (name @ '': '') ErrNotInstalled)"
proof -
  have "find lookPath bins = None" using assms by (simp add: find_None_iff)
  then show ?thesis by (simp add: RunTool_def)
qed

end
