(* ===== verification/Tabular.thy ===== *)
theory Tabular
  imports Journal LockFile
begin

text \<open>
  The string tables of src/tabular/tabular.go with their typed accessors, \<open>QueryTable\<close> of
  src/internal/duckdb/query.go that fills them, and the package src/duckfile: databases with a schema
  of the caller's, ad-hoc queries, the list of files to back up, and the journal's
  \<open>Query\<close>.  The caller's SQL is an arbitrary
  action on the connection that yields a cursor; \<open>fmt.Sprint\<close> of other cell types, the Unicode tables
  and the parsing of one time layout are parameters.
\<close>

section \<open>Rows\<close>

record result =
  Columns :: "gostr list"
  Rows :: "gostr list list"

definition Row :: "result \<Rightarrow> int \<Rightarrow> gostr list" where
  "Row r i = (if i < 0 \<or> i \<ge> int (length (Rows r)) then [] else Rows r ! nat i)"

definition Str :: "gostr list \<Rightarrow> int \<Rightarrow> gostr" where
  "Str r i = (if i < 0 \<or> i \<ge> int (length r) then [] else r ! nat i)"

text \<open>\<open>strconv.ParseInt(s, 10, 64)\<close>: the digits from the left, with the unsigned overflow checks.\<close>

datatype numError = ErrSyntax | ErrRange

fun parseUint :: "int \<Rightarrow> gostr \<Rightarrow> numError + int" where
  "parseUint n [] = Inr n"
| "parseUint n (c # cs) =
     (if \<not> digit c then Inl ErrSyntax
      else if n \<ge> (2 ^ 64 - 1) div 10 + 1 then Inl ErrRange
      else if 10 * n + (c - 48) > 2 ^ 64 - 1 then Inl ErrRange
      else parseUint (10 * n + (c - 48)) cs)"

definition ParseInt64 :: "gostr \<Rightarrow> numError + int" where
  "ParseInt64 s =
     (let (neg, ds) = (case s of [] \<Rightarrow> (False, []) | c # cs \<Rightarrow>
            if c = 45 then (True, cs) else if c = 43 then (False, cs) else (False, s))
      in if ds = [] then Inl ErrSyntax
         else (case parseUint 0 ds of
                 Inl e \<Rightarrow> Inl e
               | Inr un \<Rightarrow>
                   if \<not> neg \<and> un \<ge> 2 ^ 63 then Inl ErrRange
                   else if neg \<and> un > 2 ^ 63 then Inl ErrRange
                   else Inr (if neg then - un else un)))"

datatype cellError = NoColumn int nat | BadNumber int numError

definition Int64 :: "gostr list \<Rightarrow> int \<Rightarrow> cellError + int" where
  "Int64 r i =
     (if i < 0 \<or> i \<ge> int (length r) then Inl (NoColumn i (length r))
      else (case ParseInt64 (TrimSpace (r ! nat i)) of
              Inl e \<Rightarrow> Inl (BadNumber i e)
            | Inr n \<Rightarrow> Inr n))"

definition Bool :: "unicode \<Rightarrow> gostr list \<Rightarrow> int \<Rightarrow> bool" where
  "Bool U r i \<longleftrightarrow> ToLower U (Str r i) \<in> {lit ''true'', lit ''t'', lit ''1''}"

text \<open>\<open>strings.Index\<close> for a longer needle.\<close>

fun Index :: "gostr \<Rightarrow> gostr \<Rightarrow> nat option" where
  "Index [] t = (if t = [] then Some 0 else None)"
| "Index (c # s) t = (if HasPrefix (c # s) t then Some 0 else map_option Suc (Index s t))"

definition timeLayouts :: "string list" where
  "timeLayouts = [''2006-01-02T15:04:05.999999999Z07:00'', ''2006-01-02T15:04:05Z07:00'',
     ''2006-01-02 15:04:05.999999999 -0700 MST'', ''2006-01-02 15:04:05.999999999 -0700'',
     ''2006-01-02 15:04:05'', ''2006-01-02'']"

definition Time :: "unicode \<Rightarrow> (string \<Rightarrow> gostr \<Rightarrow> time option) \<Rightarrow> gostr list \<Rightarrow> int \<Rightarrow> time \<times> bool" where
  "Time U parseTime r i =
     (let s = TrimSpace (Str r i)
      in if s = [] \<or> EqualFold U s (lit ''NULL'') then (zero_time, False)
         else
           (let s' = (case Index s (lit '' m='') of Some j \<Rightarrow> if j > 0 then take j s else s | None \<Rightarrow> s)
            in case List.find (\<lambda>x. x \<noteq> None) (map (\<lambda>l. parseTime l s') timeLayouts) of
                 Some (Some t) \<Rightarrow> (t, True)
               | _ \<Rightarrow> (zero_time, False)))"

section \<open>QueryTable\<close>

datatype cell = CNull | CBytes gostr | CString gostr | CInt int | COther nat

text \<open>\<open>fmt.Sprint\<close> of an integer; of other values it is a parameter.\<close>

definition sprintInt :: "int \<Rightarrow> gostr" where
  "sprintInt n = (if n < 0 then 45 # itoa (nat (- n)) else itoa (nat n))"

fun cellString :: "(nat \<Rightarrow> gostr) \<Rightarrow> cell \<Rightarrow> gostr" where
  "cellString sprint CNull = lit ''NULL''"
| "cellString sprint (CBytes b) = b"
| "cellString sprint (CString s) = s"
| "cellString sprint (CInt n) = sprintInt n"
| "cellString sprint (COther v) = sprint v"

text \<open>What the cursor of a query gives: its columns, each row or the error of scanning it, its end.\<close>

record rowCursor =
  columns :: "err + gostr list"
  scanned :: "(err + cell list) list"
  rowsErr :: "err option"

fun scanRows :: "(nat \<Rightarrow> gostr) \<Rightarrow> (err + cell list) list \<Rightarrow> err + gostr list list" where
  "scanRows sprint [] = Inr []"
| "scanRows sprint (Inl e # rest) = Inl e"
| "scanRows sprint (Inr cs # rest) =
     (case scanRows sprint rest of
        Inl e \<Rightarrow> Inl e
      | Inr rows \<Rightarrow> Inr (map (cellString sprint) cs # rows))"

definition tableOf :: "(nat \<Rightarrow> gostr) \<Rightarrow> rowCursor \<Rightarrow> err + result" where
  "tableOf sprint cur =
     (case columns cur of
        Inl e \<Rightarrow> Inl e
      | Inr cols \<Rightarrow>
          (case scanRows sprint (scanned cur) of
             Inl e \<Rightarrow> Inl e
           | Inr rows \<Rightarrow>
               (case rowsErr cur of
                  Some e \<Rightarrow> Inl e
                | None \<Rightarrow> Inr \<lparr>Columns = cols, Rows = rows\<rparr>)))"

definition QueryTable :: "(nat \<Rightarrow> gostr) \<Rightarrow> ('f, err, rowCursor) act \<Rightarrow> ('f, err, result) act" where
  "QueryTable sprint sql =
     andThen sql (\<lambda>cur. case tableOf sprint cur of Inl e \<Rightarrow> throw e | Inr t \<Rightarrow> ok t)"

section \<open>Package duckfile\<close>

definition duckErrUnavailable :: err where "duckErrUnavailable = ErrUnavailable []"

definition DB_Query :: "(nat \<Rightarrow> gostr) \<Rightarrow> call \<Rightarrow> ('d conn, err, rowCursor) act \<Rightarrow> ('d store, err, result) act" where
  "DB_Query sprint c sql = within duckErrUnavailable c (QueryTable sprint sql)"

definition DB_Exec :: "call \<Rightarrow> ('d conn, err, unit) act \<Rightarrow> ('d store, err, unit) act" where
  "DB_Exec c sql = within duckErrUnavailable c sql"

definition DB_Close :: "string \<Rightarrow> 'd store \<Rightarrow> 'd store" where
  "DB_Close = storeClose"

definition DB_Open :: "call \<Rightarrow> err option \<Rightarrow> tuneOption option list \<Rightarrow> locktab \<Rightarrow> 'd conn
    \<Rightarrow> (err + 'd store) \<times> 'd conn world" where
  "DB_Open c ctx opts m d =
     (case ctx of
        Some e \<Rightarrow> (Inl e, \<lparr>hnd = NewHandle (OptionsFrom (Build opts) duckErrUnavailable), tab = m, disk = d\<rparr>)
      | None \<Rightarrow> storeOpen duckErrUnavailable c opts m d)"

text \<open>\<open>Query\<close>: a short-lived handle, closed on every path.\<close>

definition Query :: "(nat \<Rightarrow> gostr) \<Rightarrow> call \<Rightarrow> err option \<Rightarrow> ('f, err, rowCursor) act \<Rightarrow> locktab \<times> 'f
    \<Rightarrow> (err + result) \<times> locktab \<times> 'f" where
  "Query sprint c ctx sql = (\<lambda>(m, d).
     (case ctx of
        Some e \<Rightarrow> (Inl e, m, d)
      | None \<Rightarrow>
          (let h = NewHandle \<lparr>Idle = 0, Timeout = 0, MaxHold = 0, Unavailable = Some duckErrUnavailable\<rparr>
           in case perform (env c) (lockPath c) (QueryTable sprint sql) \<lparr>hnd = h, tab = m, disk = d\<rparr> of
                (r, w) \<Rightarrow> (r, snd (Close (lockPath c) (hnd w, tab w)), disk w))))"

text \<open>\<open>journal.Store.Query\<close> runs the caller's SQL on the journal's connection.\<close>

definition journal_Query :: "(nat \<Rightarrow> gostr) \<Rightarrow> call \<Rightarrow> (jdb conn, err, rowCursor) act \<Rightarrow> (jdb store, err, result) act" where
  "journal_Query sprint c sql = within journalErrUnavailable c (QueryTable sprint sql)"

definition RegisterBackupPath :: "string \<Rightarrow> string list \<Rightarrow> string list" where
  "RegisterBackupPath path paths =
     (if path = [] then paths else if path \<in> set paths then paths else paths @ [path])"

definition BackupPaths :: "string list \<Rightarrow> string list" where
  "BackupPaths paths = paths"

section \<open>Lemmas\<close>

lemma accessors_out_of_range:
  "i < 0 \<or> int (length r) \<le> i \<Longrightarrow> Str r i = [] \<and> Int64 r i = Inl (NoColumn i (length r)) \<and> \<not> Bool U r i
     \<and> Time U p r i = (zero_time, False)"
  by (auto simp: Str_def Int64_def Bool_def Time_def ToLower_def TrimSpace_def)

lemma Row_out_of_range: "i < 0 \<or> int (length (Rows r)) \<le> i \<Longrightarrow> Row r i = []"
  by (simp add: Row_def)

lemma BackupPaths_distinct:
  "distinct (fold RegisterBackupPath ps []) \<and> set (fold RegisterBackupPath ps []) = set ps - {[]}"
proof -
  have "distinct (fold RegisterBackupPath ps qs) \<and> set (fold RegisterBackupPath ps qs) = set qs \<union> (set ps - {[]})"
    if "distinct qs" for qs
    using that
  proof (induction ps arbitrary: qs)
    case Nil
    then show ?case by simp
  next
    case (Cons p ps)
    then have "distinct (RegisterBackupPath p qs)" by (simp add: RegisterBackupPath_def)
    from Cons.IH [OF this] show ?case by (auto simp: RegisterBackupPath_def)
  qed
  from this [of "[]"] show ?thesis by simp
qed

text \<open>Reading back a decimal number.\<close>

lemma digits_grow:
  "list_all digit s \<Longrightarrow> 0 \<le> n \<Longrightarrow> n \<le> foldl (\<lambda>a r. 10 * a + (r - 48)) n s"
proof (induction s arbitrary: n)
  case Nil
  then show ?case by simp
next
  case (Cons c s)
  then have "0 \<le> c - 48" "n \<le> 10 * n + (c - 48)" by (auto simp: digit_def)
  with Cons.IH [of "10 * n + (c - 48)"] Cons.prems show ?case by simp
qed

lemma parseUint_digits:
  assumes "list_all digit s" and "0 \<le> n" and "foldl (\<lambda>a r. 10 * a + (r - 48)) n s \<le> 2 ^ 64 - 1"
  shows "parseUint n s = Inr (foldl (\<lambda>a r. 10 * a + (r - 48)) n s)"
  using assms
proof (induction s arbitrary: n)
  case Nil
  then show ?case by simp
next
  case (Cons c s)
  let ?m = "10 * n + (c - 48)"
  have d: "digit c" "list_all digit s" "0 \<le> c - 48" using Cons.prems(1) by (simp_all add: digit_def [of c])
  then have m: "0 \<le> ?m" "?m \<le> 2 ^ 64 - 1" using Cons.prems digits_grow [of s ?m] by auto
  from m(2) d(3) have "10 * n \<le> 2 ^ 64 - 1" by linarith
  then have "n < (2 ^ 64 - 1) div 10 + 1" by simp
  with Cons.IH [OF d(2) m(1)] Cons.prems(3) d(1) m(2) show ?case by simp
qed

lemma parseUint_itoa:
  assumes "int n \<le> 2 ^ 64 - 1"
  shows "parseUint 0 (itoa n) = Inr (int n)"
  using parseUint_digits [of "itoa n" 0] itoa_digits [of n] digitsVal_itoa [of n] assms
  by (simp add: digitsVal_def)

lemma itoa_Cons:
  obtains c cs where "itoa n = c # cs" "digit c" "list_all digit cs"
  using itoa_digits [of n] by (cases "itoa n") auto

lemma ParseInt64_sprintInt:
  assumes "int64_range n"
  shows "ParseInt64 (sprintInt n) = Inr n"
proof (cases "n < 0")
  case True
  with assms parseUint_itoa [of "nat (- n)"] itoa_digits [of "nat (- n)"] show ?thesis
    by (simp add: ParseInt64_def sprintInt_def int64_range_def)
next
  case False
  obtain c cs where c: "itoa (nat n) = c # cs" "digit c" by (rule itoa_Cons)
  then have "c \<noteq> 45" "c \<noteq> 43" by (auto simp: digit_def)
  with c False assms parseUint_itoa [of "nat n"] show ?thesis
    by (simp add: ParseInt64_def sprintInt_def int64_range_def)
qed

lemma TrimSpace_id: "\<forall>r \<in> set s. \<not> IsSpace r \<Longrightarrow> TrimSpace s = s"
proof -
  have drop: "dropWhile IsSpace xs = xs" if "\<forall>r \<in> set xs. \<not> IsSpace r" for xs
    using that by (cases xs) auto
  show "\<forall>r \<in> set s. \<not> IsSpace r \<Longrightarrow> TrimSpace s = s"
    using drop [of s] drop [of "rev s"] by (simp add: TrimSpace_def)
qed

lemma sprintInt_no_space: "r \<in> set (sprintInt n) \<Longrightarrow> \<not> IsSpace r"
proof -
  have "\<not> IsSpace r" if "r \<in> set (itoa m)" for m
    using itoa_digits [of m] that by (auto simp: list_all_iff digit_def IsSpace_def)
  moreover have "\<not> IsSpace 45" by (simp add: IsSpace_def)
  ultimately show "r \<in> set (sprintInt n) \<Longrightarrow> \<not> IsSpace r"
    by (auto simp: sprintInt_def split: if_splits)
qed

lemma scanRows_nth:
  "scanRows sprint rs = Inr rows \<Longrightarrow> length rows = length rs
    \<and> (\<forall>i < length rs. \<exists>cs. rs ! i = Inr cs \<and> rows ! i = map (cellString sprint) cs)"
proof (induction sprint rs arbitrary: rows rule: scanRows.induct)
  case (3 sprint cs rest)
  then obtain rows' where r: "scanRows sprint rest = Inr rows'" "rows = map (cellString sprint) cs # rows'"
    by (auto split: sum.splits)
  from 3(1) [OF r(1)] r(2) show ?case by (auto simp: less_Suc_eq_0_disj nth_Cons')
qed auto

text \<open>
  A 64-bit integer that a query returned in some row and column is what \<open>Int64\<close> reads
  from that cell of the string table, and the table has a row for each row of the query.
\<close>

theorem query_integers_round_trip:
  assumes "QueryTable sprint sql f = (Inr t, f')" and "sql f = (Inr cur, g)"
    and "i < length (scanned cur)" and "scanned cur ! i = Inr cs"
    and "j < length cs" and "cs ! j = CInt n" and "int64_range n"
  shows "Int64 (Row t (int i)) (int j) = Inr n \<and> length (Rows t) = length (scanned cur)"
proof -
  from assms(1,2) obtain rows where r: "scanRows sprint (scanned cur) = Inr rows" "Rows t = rows"
    by (auto simp: QueryTable_def andThen_def tableOf_def split: sum.splits option.splits)
  from scanRows_nth [OF r(1)] assms(3,4) have row: "rows ! i = map (cellString sprint) cs"
    and len: "length rows = length (scanned cur)" by auto
  have "Row t (int i) ! j = sprintInt n" "length (Row t (int i)) = length cs"
    using row len r(2) assms(3,5,6) by (simp_all add: Row_def)
  then have "Int64 (Row t (int i)) (int j) = Inr n"
    using assms(5,7) TrimSpace_id [of "sprintInt n"] sprintInt_no_space ParseInt64_sprintInt
    by (simp add: Int64_def)
  with len r(2) show ?thesis by simp
qed

definition sampleCursor :: rowCursor where
  "sampleCursor = \<lparr>columns = Inr [lit ''n''],
     scanned = [Inr [CNull], Inr [CInt (- 9223372036854775808)]], rowsErr = None\<rparr>"

theorem query_integers_round_trip_witness:
  "Int64 (Row \<lparr>Columns = [lit ''n''], Rows = [[lit ''NULL''], [sprintInt (- 9223372036854775808)]]\<rparr> 1) 0
     = Inr (- 9223372036854775808)"
proof -
  have q: "QueryTable (\<lambda>_. []) (ok sampleCursor) (0::nat) =
      (Inr \<lparr>Columns = [lit ''n''], Rows = [[lit ''NULL''], [sprintInt (- 9223372036854775808)]]\<rparr>, 0)"
    by (simp add: QueryTable_def tableOf_def sampleCursor_def)
  have "int64_range (- 9223372036854775808)" by (simp add: int64_range_def)
  with query_integers_round_trip [OF q, of sampleCursor 0 1 "[CInt (- 9223372036854775808)]" 0]
  show ?thesis by (simp add: sampleCursor_def)
qed

text \<open>
  A short-lived query leaves the process's lock count for the file as it found it, whatever fails, and
  changes the file only by running the caller's statement.
\<close>

lemma Query_releases:
  assumes "m (lockPath c) = entryFor others" and "Query sprint c ctx sql (m, d) = (r, m', d')"
  shows "m' (lockPath c) = entryFor others"
proof (cases ctx)
  case (Some e)
  with assms show ?thesis by (simp add: Query_def)
next
  case None
  define h where "h = NewHandle \<lparr>Idle = 0, Timeout = 0, MaxHold = 0, Unavailable = Some duckErrUnavailable\<rparr>"
  let ?w = "\<lparr>hnd = h, tab = m, disk = d\<rparr>"
  obtain r0 w where p: "perform (env c) (lockPath c) (QueryTable sprint sql) ?w = (r0, w)" by (metis prod.exhaust)
  obtain e v w1 where do: "Do (env c) (lockPath c) (bodyOf (QueryTable sprint sql)) ?w = (e, v, w1)"
    by (metis prod_cases3)
  from p do have w1: "w1 = w" by (auto simp: perform_def split: option.splits)
  have "worldOk (lockPath c) others ?w"
    using assms(1) handleOk_NewHandle by (simp add: worldOk_def tabOk_def h_def) (simp add: NewHandle_def)
  from Do_worldOk [OF this do] w1 have w: "handleOk (hnd w)" "tabOk (lockPath c) others (hnd w) (tab w)"
    by (auto simp: worldOk_def)
  obtain h' m1 where cl: "shutLocked (lockPath c) ((hnd w)\<lparr>closed := True\<rparr>, tab w) = (h', m1)"
    by (metis prod.exhaust)
  have "tabOk (lockPath c) others ((hnd w)\<lparr>closed := True\<rparr>) (tab w)" using w(2) by (simp add: tabOk_def)
  from tabOk_shut [OF this cl] have "m1 = (tab w)(lockPath c := entryFor others)" by simp
  moreover from assms(2) None p cl have "m' = m1"
    by (simp add: Query_def h_def Close_def)
  ultimately show ?thesis by simp
qed

lemma Query_disk:
  assumes "Query sprint c ctx sql (m, d) = (r, m', d')"
  shows "d' = d \<or> (\<exists>r0. QueryTable sprint sql d = (r0, d'))"
  using assms perform_cases
  by (fastforce simp: Query_def split: option.splits prod.splits)

end
