(* ===== verification/Relay.thy ===== *)
theory Relay
  imports Subject Frames
begin

text \<open>
  The way of a value through the process and over the socket: published to a \<open>Subject\<close>
  (src/stream/subject.go), received by the subscription of a connection of \<open>Broadcast\<close>, written as a
  frame and handed out by the client's \<open>Dial\<close> (src/ipc/socket.go).
\<close>

text \<open>The values a connection's turns are about, in order.\<close>

fun valuesIn :: "'v connTurn list \<Rightarrow> 'v list" where
  "valuesIn [] = []"
| "valuesIn (Value v w # ts) = v # valuesIn ts"
| "valuesIn (t # ts) = valuesIn ts"

lemma taken_subseq: "subseq (taken encode ts) (valuesIn ts)"
  by (induction encode ts rule: taken.induct) (auto split: sum.split option.split)

lemma subseq_take: "subseq (take k xs) xs"
  by (metis append_take_drop_id subseq_rev_drop_many subseq_order.refl)

lemma received_subseq:
  assumes "runEvents evs NewSubject = Some s" and "c < length (chans s)"
  shows "subseq (got (chans s ! c)) (offered evs NewSubject c)"
proof -
  have ok: "subjectOk (NewSubject :: 'a subject)" and empty: "content (NewSubject :: 'a subject) c = []"
    by (simp_all add: NewSubject_def subjectOk_def content_def)
  from run_any [OF ok, of evs] assms(1) have "content s c = content NewSubject c @ accepted evs NewSubject c" by auto
  with empty assms(2) accepted_offered [of evs NewSubject c] have "subseq (got (chans s ! c) @ buffer (chans s ! c)) (offered evs NewSubject c)"
    by (simp add: content_def)
  moreover have "subseq (got (chans s ! c)) (got (chans s ! c) @ buffer (chans s ! c))"
    by (rule subseq_rev_drop_many) simp
  ultimately show ?thesis by (rule subseq_order.trans [rotated])
qed

text \<open>
  Claim C39.  A client that follows a connection which serves subscription \<open>c\<close> of a subject sees, apart
  from at most one value made of a torn last frame, a subsequence of what was published while \<open>c\<close> was
  subscribed: nothing twice, nothing out of order, nothing of another subscription; whatever the
  interleaving of the subject's events, however the connection ends and at whatever byte it is cut.
\<close>

theorem client_sees_published_in_order:
  assumes "runEvents evs NewSubject = Some s" and "c < length (chans s)"
    and "prefix (valuesIn ts) (got (chans s ! c))"
    and "\<forall>v b. encode v = Inr b \<longrightarrow> lineFrame b \<and> decode b = Inr v"
  shows "\<exists>vs torn.
      fst (dialStream decode (calmDial\<lparr>readErr := r\<rparr>) (take n (broadcastConn encode ts))) = vs @ torn
      \<and> subseq vs (offered evs NewSubject c) \<and> length torn \<le> 1"
proof -
  from dial_conn [OF assms(4), of r n ts] obtain k torn where kt:
    "dialStream decode (calmDial\<lparr>readErr := r\<rparr>) (take n (broadcastConn encode ts)) = (take k (taken encode ts) @ torn, r)"
    "length torn \<le> 1" by blast
  have "subseq (take k (taken encode ts)) (valuesIn ts)"
    using subseq_take taken_subseq by (rule subseq_order.trans)
  also have "subseq (valuesIn ts) (got (chans s ! c))"
    using assms(3) by (rule prefix_imp_subseq)
  also have "subseq (got (chans s ! c)) (offered evs NewSubject c)"
    by (rule received_subseq [OF assms(1,2)])
  finally show ?thesis using kt by auto
qed

text \<open>A subscriber that gets 2 and 3, over a connection that breaks inside the second frame.\<close>

definition relayEvents :: "nat event list" where
  "relayEvents = [EvSubscribe 4, EvNext 2, EvNext 3, EvReceive 0, EvReceive 0, EvNext 4]"

definition relayTurns :: "nat connTurn list" where
  "relayTurns = [Value 2 None, Value 3 (Some 2)]"

theorem client_sees_published_in_order_witness:
  "\<exists>vs torn. fst (dialStream unaryDecode calmDial (broadcastConn unaryEncode relayTurns)) = vs @ torn
     \<and> subseq vs [2, 3, 4] \<and> length torn \<le> 1"
proof -
  have e: "\<exists>s. runEvents relayEvents NewSubject = Some s \<and> length (chans s) = 1 \<and> got (chans s ! 0) = [2, 3]"
    by (simp add: relayEvents_def NewSubject_def Subscribe_def Next_def makeChan_def receive_def offer_def onChan_def)
  then obtain s where s: "runEvents relayEvents NewSubject = Some s" "length (chans s) = 1" "got (chans s ! 0) = [2, 3]"
    by blast
  have o: "offered relayEvents NewSubject 0 = [2, 3, 4]" by code_simp
  have p: "prefix (valuesIn relayTurns) (got (chans s ! 0))" using s(3) by (simp add: relayTurns_def)
  have c: "calmDial\<lparr>readErr := None\<rparr> = calmDial" by (simp add: calmDial_def)
  have l: "0 < length (chans s)" using s(2) by simp
  from client_sees_published_in_order [OF s(1) l p unary_codec, of None "length (broadcastConn unaryEncode relayTurns)"]
  show ?thesis unfolding o c by simp
qed

end
