(* ===== verification/Spec2Isabelle.thy ===== *)
theory Spec2Isabelle
  imports Redact Schedule HandleSystem Journal BackupArchive ConfigFiles Manager KeyBackup Sealed Streams ConfigEnv Umask Surfaces Frames Services Auth Tabular Relay
begin

text \<open>
  A verification development for sisyphus, a Go toolkit for command line programs that keep their
  state in single-writer DuckDB files: coordinated databases, stores on them, configuration files with
  history, sealed credentials, backups, job scheduling, event streams, and a background service that is
  talked to over a local socket.  This file is the root; it holds no definitions of its own.

  \<^bold>\<open>The program and the theories.\<close>

  Shared vocabulary.  Prelude: effects as state transformers with errors (\<open>act\<close>), times and durations,
  64-bit wrap-around.  GoStrings and Paths: what is used of \<open>strings\<close>, \<open>unicode\<close> and \<open>path/filepath\<close>.
  Errors: the error values, wrapping and \<open>errors.Is\<close> (src/storeerr and the packages' sentinels).
  FileSys: the file system with a fault before every system call.

  Databases.  Handle: the handle of src/internal/duckdb/handle.go seen from one call, with its idle timer,
  its tuning (src/duckopt) and the process's lock table.  HandleSystem: any number of handles and processes
  interleaved, as an inductive step relation.  LockFile: the sidecar lock files, their queue and the
  holder's pid (flock_unix.go).  Umask: the process-wide mask around an open.  Engine and Stores: the SQL
  connection with transactions, and what all stores do around it.  Every method of a store runs its
  statements in \<open>within\<close>, that is in the handle's \<open>Do\<close>.

  Stores.  KV (src/kv), Journal (src/journal), ConfigDB (src/configdb), Sealed (src/sealed) with Crypt
  (src/internal/crypt) and Secrets (src/secret); Tabular: ad-hoc queries (src/duckfile,
  src/internal/duckdb/query.go) and their string tables (src/tabular).

  Files.  Files: atomic writes and collections (src/internal/fsutil).  ConfigFiles: files under a home
  directory, archiving and removal (src/config/files.go), installation and hooks (src/lifecycle).
  ConfigEnv: environment overrides fitted to a Go type (src/config/config.go).  Manager: files against
  database, \<open>Plan\<close> and \<open>Apply\<close> (src/manager.go).  Backup, BackupSwap, BackupRestore, BackupArchive: archives
  and their restoration (src/backup/backup.go); KeyBackup: the encrypted backup (src/backup.go).
  Redact: masking of secrets (src/redact).

  Running.  Schedule: the job loop (src/schedule).  StreamKV, Dedup, Streams, Subject: cursors, duplicate
  suppression, polling and the broadcaster (src/stream).  Sockets and Frames: claiming a socket, serving
  and reading it (src/ipc); Relay puts the broadcaster and the socket together.  Services: the managed
  service (src/daemon/service).  Surfaces: modes and their gate, \<open>Attached\<close>, run states and icons (src/mode,
  src/daemon/attach.go, src/tray, src/desktop).  Auth: logins (src/auth).

  Go's structs are records, its constants datatypes, its methods definitions of the same name (with the
  type in front where two packages share a name).  An error return is \<open>Inl\<close>; the state after it is kept,
  so that partial effects are visible.  A goroutine, a timer or another process is a step of its own
  wherever the code gives up its lock; a \<open>select\<close> is the list of the communications it took part in.
\<close>

text \<open>
  \<^bold>\<open>What is shown.\<close>

  Handles: at most one process has a file open and the file lock is held exactly as long; a closed
  handle never reopens; an idle one is closed exactly when due; every path of \<open>Do\<close> keeps the accounting;
  waiting for a lock ends, and gives up its place in the queue on every path.  The umask is narrow
  exactly while an open is under way.

  Stores: the key/value store refines an abstract map with expiry, replies included; the journal's writes are all or
  nothing, keep records attached, and retention keeps exactly the newest runs; an import archives what
  it replaces; a sealed value is read back and anything else is refused.  The locale \<open>store_access\<close>
  (Handle) states what a store relies on, \<open>kvspace\<close> and \<open>reliable_kvspace\<close> (StreamKV, Dedup) what the clients in
  src/stream rely on; they are interpreted on the model's handle, store and scoped store, and the
  properties of the deduper rest on these interpretations.

  Files: whatever call fails, an atomic write, a restore and its swap leave the old or the new state, or
  say where the old one is; a joined path stays under its base; installation keeps what exists;
  encrypted backups come back as they were, and collections but for bytes that JSON cannot carry
  (\<open>toValid\<close>); importing a drifted file settles it, importing a missing one does not; overrides stand where
  the target's type has a leaf, and exactly the variables that can only mean a section are warned about
  (\<open>readsAs\<close>, the readings of a name, against which \<open>resolve\<close> is sound and complete).

  Running: jobs run only when due, retries wait out their backoff, and the loop wakes in time unless a
  pending time went by during the round (\<open>passed_time_oversleeps\<close>); the broadcaster keeps order, drops
  only for want of room and never panics, and over the socket a client sees a subsequence of what was
  published; a socket has one listener as long as no socket is bound that a \<open>Close\<close> could take for its own
  (and not otherwise: \<open>close_races_with_listen\<close>, \<open>reused_inode_is_unlinked\<close>); a failed service reports its error; a
  device token is one that was granted; nothing under a secret key is shown.

  \<^bold>\<open>Bounds and fuel.\<close>  Loops are structural or have a measure; the waits are functions of the rounds they
  meet, and their termination is a theorem (\<open>lock_wait_terminates\<close>).  The schema of a type is built to the
  program's own depth \<open>envMaxDepth\<close>; a recursive type is its unfolding.  The polling loop of a login has the program's
  own limit.  64-bit wrap-around is written out where the code multiplies or adds durations and counts.

  \<^bold>\<open>Parameters.\<close>  Code outside the repository is an argument, with its documented laws as hypotheses: JSON
  and YAML codecs, the tar format, AES-GCM and SHA-256, the random source, the Unicode tables, the engine's
  precision and its order among ties, the secret tools, koanf, the clock, the application's callbacks.
  The witnesses instantiate them with concrete functions.

  \<^bold>\<open>Not modelled.\<close>  The Windows variants (flock, replace, pipes, rename errors); the native tray loop and
  the notification call; the forwarding methods of the service manager and \<open>SignalContext\<close>; the
  meaning of the caller's own SQL in the ad-hoc queries, which is an argument; the wording of prompts;
  memory visibility between goroutines other than through locks and channels.
\<close>

end
